(* ===== verification/Prelude.thy ===== *)
theory Prelude
  imports Main "HOL-Library.Word"
begin

section \<open>Prelude: the Go standard library as the model uses it\<close>

text \<open>
  Go strings and byte slices are lists of bytes, here \<open>string\<close> (a list of 8-bit
  \<open>char\<close>s). The functions below are the parts of the packages \<open>strings\<close>,
  \<open>bytes\<close> and \<open>strconv\<close> that the program calls, together with the lemmas about
  them that several components share. Errors are values of a sum type (\<open>Inl\<close> the
  error), a panic is \<open>None\<close>. Instants and durations are integers counting nanoseconds;
  where the code multiplies durations the 64-bit wrap-around is written out.
\<close>

named_theorems go_defs \<open>definitions of the standard-library functions\<close>

type_synonym bytes = string
type_synonym instant = int
type_synonym duration = int

subsection \<open>Control characters\<close>

abbreviation (input) ch_esc :: char where "ch_esc \<equiv> CHR 0x1B"
abbreviation (input) ch_bel :: char where "ch_bel \<equiv> CHR 0x07"
abbreviation (input) ch_cr :: char where "ch_cr \<equiv> CHR 0x0D"
abbreviation (input) ch_nl :: char where "ch_nl \<equiv> CHR 0x0A"
abbreviation (input) ch_tab :: char where "ch_tab \<equiv> CHR 0x09"
abbreviation (input) ch_bslash :: char where "ch_bslash \<equiv> CHR 0x5C"
abbreviation (input) ch_quote :: char where "ch_quote \<equiv> CHR 0x22"
abbreviation (input) ch_apos :: char where "ch_apos \<equiv> CHR 0x27"

text \<open>The unsigned value of a byte, for range tests such as \<open>c >= 0x30 && c <= 0x3F\<close>.\<close>

definition byte_in :: "nat \<Rightarrow> nat \<Rightarrow> char \<Rightarrow> bool" where
  "byte_in lo hi c \<longleftrightarrow> lo \<le> of_char c \<and> of_char c \<le> hi"

lemma of_char_less: "(of_char c :: nat) < 256"
  by (cases c) (simp add: of_char_Char horner_sum_simps of_bool_def split: if_splits)

lemma char_of_of_char_nat [simp]: "char_of (of_char c :: nat) = c"
  by (rule char_of_char)

lemma of_char_of_nat: "n < 256 \<Longrightarrow> of_char (char_of (n :: nat)) = n"
  by (simp add: of_char_of)

subsection \<open>Machine integers\<close>

text \<open>Two's-complement wrap-around of a 64-bit signed integer.\<close>

definition wrap64 :: "int \<Rightarrow> int" where
  "wrap64 x = sint (word_of_int x :: 64 word)"

definition int64_min :: int where "int64_min = - (2 ^ 63)"
definition int64_max :: int where "int64_max = 2 ^ 63 - 1"

definition in_int64 :: "int \<Rightarrow> bool" where
  "in_int64 x \<longleftrightarrow> int64_min \<le> x \<and> x \<le> int64_max"

lemma wrap64_id: "in_int64 x \<Longrightarrow> wrap64 x = x"
  by (simp add: wrap64_def in_int64_def int64_min_def int64_max_def sint_sbintrunc'
      signed_take_bit_int_eq_self)

lemma wrap64_code [code]: "wrap64 x = (x + 2 ^ 63) mod 2 ^ 64 - 2 ^ 63"
  by (simp add: wrap64_def sint_sbintrunc' signed_take_bit_eq_take_bit_shift take_bit_eq_mod)

lemma wrap64_range: "in_int64 (wrap64 x)"
  by (simp add: wrap64_code in_int64_def int64_min_def int64_max_def)

definition millisecond :: int where "millisecond = 1000000"
definition second :: int where "second = 1000 * millisecond"

text \<open>\<open>time.Duration(ms) * time.Millisecond\<close>: the product is a 64-bit multiplication.\<close>

definition dur_ms :: "int \<Rightarrow> duration" where
  "dur_ms ms = wrap64 (ms * millisecond)"

subsection \<open>Package strings and package bytes\<close>

definition has_prefix :: "string \<Rightarrow> string \<Rightarrow> bool" where
  "has_prefix s p \<longleftrightarrow> take (length p) s = p"

fun bytes_index :: "bytes \<Rightarrow> bytes \<Rightarrow> nat option" where
  "bytes_index [] sep = (if sep = [] then Some 0 else None)"
| "bytes_index (x # xs) sep =
     (if has_prefix (x # xs) sep then Some 0 else map_option Suc (bytes_index xs sep))"

definition contains :: "string \<Rightarrow> string \<Rightarrow> bool" where
  "contains s sub \<longleftrightarrow> bytes_index s sub \<noteq> None"

fun index_byte :: "string \<Rightarrow> char \<Rightarrow> nat option" where
  "index_byte [] c = None"
| "index_byte (x # xs) c = (if x = c then Some 0 else map_option Suc (index_byte xs c))"

fun split_on :: "char \<Rightarrow> string \<Rightarrow> string list" where
  "split_on c [] = [[]]"
| "split_on c (x # xs) =
     (if x = c then [] # split_on c xs
      else (case split_on c xs of [] \<Rightarrow> [[x]] | l # ls \<Rightarrow> (x # l) # ls))"

fun join_with :: "string \<Rightarrow> string list \<Rightarrow> string" where
  "join_with sep [] = []"
| "join_with sep [l] = l"
| "join_with sep (l # l' # ls) = l @ sep @ join_with sep (l' # ls)"

definition trim_right :: "char list \<Rightarrow> string \<Rightarrow> string" where
  "trim_right cutset s = rev (dropWhile (\<lambda>c. c \<in> set cutset) (rev s))"

definition contains_any :: "string \<Rightarrow> char list \<Rightarrow> bool" where
  "contains_any s cs \<longleftrightarrow> (\<exists>c \<in> set s. c \<in> set cs)"

definition replace_all_empty :: "char \<Rightarrow> string \<Rightarrow> string" where
  "replace_all_empty c s = filter (\<lambda>x. x \<noteq> c) s"

text \<open>\<open>strings.TrimSpace\<close> on bytes: the ASCII white space of the diagnostics it is used on.\<close>

definition is_space :: "char \<Rightarrow> bool" where
  "is_space c \<longleftrightarrow> c \<in> {CHR 0x09, CHR 0x0A, CHR 0x0B, CHR 0x0C, CHR 0x0D, CHR 0x20}"

definition trim_space :: "string \<Rightarrow> string" where
  "trim_space s = rev (dropWhile is_space (rev (dropWhile is_space s)))"

declare has_prefix_def [go_defs] contains_def [go_defs] trim_right_def [go_defs]
  contains_any_def [go_defs] replace_all_empty_def [go_defs]

subsection \<open>Lemmas on prefixes and substring search\<close>

lemma has_prefix_iff: "has_prefix s p \<longleftrightarrow> (\<exists>t. s = p @ t)"
  unfolding has_prefix_def by (metis append_eq_conv_conj append_take_drop_id)

lemma has_prefix_Cons [simp]:
  "has_prefix (x # xs) (y # ys) \<longleftrightarrow> x = y \<and> has_prefix xs ys"
  by (auto simp: has_prefix_def)

lemma has_prefix_Nil [simp]: "has_prefix s []" and has_prefix_Nil_left [simp]: "has_prefix [] p \<longleftrightarrow> p = []"
  by (auto simp: has_prefix_def)

lemma has_prefix_append [simp]: "has_prefix (p @ t) p"
  by (auto simp: has_prefix_iff)

lemma bytes_index_Some:
  "bytes_index s sep = Some i \<Longrightarrow> i \<le> length s \<and> has_prefix (drop i s) sep"
proof (induction s sep arbitrary: i rule: bytes_index.induct)
  case (1 sep)
  then show ?case by (auto split: if_splits)
next
  case (2 x xs sep)
  then show ?case by (cases i) (auto split: if_splits)
qed

lemma bytes_index_Some_split:
  assumes "bytes_index s sep = Some i"
  shows "s = take i s @ sep @ drop (i + length sep) s"
proof -
  from bytes_index_Some [OF assms] obtain t where t: "drop i s = sep @ t"
    by (auto simp: has_prefix_iff)
  then have "drop (i + length sep) s = t"
    by (metis add.commute append_eq_conv_conj drop_drop)
  with t show ?thesis by (metis append_take_drop_id)
qed

lemma bytes_index_least:
  "bytes_index s sep = Some i \<Longrightarrow> j < i \<Longrightarrow> \<not> has_prefix (drop j s) sep"
proof (induction s sep arbitrary: i j rule: bytes_index.induct)
  case (1 sep)
  then show ?case by (auto split: if_splits)
next
  case (2 x xs sep)
  then show ?case by (cases j) (auto split: if_splits)
qed

lemma bytes_index_None:
  "bytes_index s sep = None \<Longrightarrow> \<not> has_prefix (drop j s) sep"
proof (induction s sep arbitrary: j rule: bytes_index.induct)
  case (1 sep)
  then show ?case by (auto split: if_splits)
next
  case (2 x xs sep)
  then show ?case by (cases j) (auto split: if_splits)
qed

lemma bytes_index_None_iff: "bytes_index s sep = None \<longleftrightarrow> (\<forall>pre post. s \<noteq> pre @ sep @ post)"
proof
  assume none: "bytes_index s sep = None"
  show "\<forall>pre post. s \<noteq> pre @ sep @ post"
  proof (intro allI notI)
    fix pre post assume "s = pre @ sep @ post"
    then have "has_prefix (drop (length pre) s) sep" by (simp add: has_prefix_iff)
    with bytes_index_None [OF none] show False by blast
  qed
next
  assume no: "\<forall>pre post. s \<noteq> pre @ sep @ post"
  show "bytes_index s sep = None"
  proof (cases "bytes_index s sep")
    case (Some i)
    have "s = take i s @ sep @ drop (i + length sep) s"
      by (rule bytes_index_Some_split [OF Some])
    moreover have "s \<noteq> take i s @ sep @ drop (i + length sep) s" using no by blast
    ultimately show ?thesis by contradiction
  qed
qed

lemma contains_iff: "contains s sub \<longleftrightarrow> (\<exists>pre post. s = pre @ sub @ post)"
  unfolding contains_def bytes_index_None_iff by simp

lemma index_byte_Some:
  "index_byte s c = Some i \<Longrightarrow> i < length s \<and> s ! i = c \<and> c \<notin> set (take i s)"
  by (induction s c arbitrary: i rule: index_byte.induct) (auto split: if_splits)

lemma index_byte_None [simp]: "index_byte s c = None \<longleftrightarrow> c \<notin> set s"
  by (induction s c rule: index_byte.induct) auto

subsection \<open>Lemmas on splitting and joining\<close>

lemma split_on_not_Nil [simp]: "split_on c s \<noteq> []"
  by (induction s) (auto split: list.splits)

lemma join_with_Cons_Cons [simp]: "join_with sep ((x # l) # ls) = x # join_with sep (l # ls)"
  by (cases ls) auto

lemma join_with_Nil_Cons: "ls \<noteq> [] \<Longrightarrow> join_with sep ([] # ls) = sep @ join_with sep ls"
  by (cases ls) auto

lemma join_split [simp]: "join_with [c] (split_on c s) = s"
proof (induction s)
  case Nil
  then show ?case by simp
next
  case (Cons x xs)
  then show ?case by (cases "split_on c xs") (auto simp: join_with_Nil_Cons)
qed

lemma split_on_no_sep: "l \<in> set (split_on c s) \<Longrightarrow> c \<notin> set l"
proof (induction s arbitrary: l)
  case Nil
  then show ?case by simp
next
  case (Cons x xs)
  then show ?case by (cases "split_on c xs") (auto split: if_splits)
qed

lemma split_on_set: "l \<in> set (split_on c s) \<Longrightarrow> set l \<subseteq> set s"
proof (induction s arbitrary: l)
  case Nil
  then show ?case by simp
next
  case (Cons x xs)
  then show ?case by (cases "split_on c xs") (fastforce split: if_splits)+
qed

lemma split_on_line [simp]: "c \<notin> set l \<Longrightarrow> split_on c l = [l]"
  by (induction l) auto

lemma split_on_append_sep: "c \<notin> set l \<Longrightarrow> split_on c (l @ c # s) = l # split_on c s"
  by (induction l) auto

lemma split_join:
  "ls \<noteq> [] \<Longrightarrow> \<forall>l \<in> set ls. c \<notin> set l \<Longrightarrow> split_on c (join_with [c] ls) = ls"
  by (induction "[c]" ls rule: join_with.induct) (auto simp: split_on_append_sep)

lemma set_join_with: "set (join_with sep ls) \<subseteq> set sep \<union> (\<Union>l \<in> set ls. set l)"
  by (induction sep ls rule: join_with.induct) auto

subsection \<open>Lemmas on trimming\<close>

lemma trim_right_last: "trim_right cs s \<noteq> [] \<Longrightarrow> last (trim_right cs s) \<notin> set cs"
  unfolding trim_right_def
  by (metis (mono_tags, lifting) hd_dropWhile last_rev rev_is_Nil_conv)

lemma trim_right_id: "s = [] \<or> last s \<notin> set cs \<Longrightarrow> trim_right cs s = s"
  unfolding trim_right_def
  by (cases s rule: rev_cases) auto

lemma trim_right_idem [simp]: "trim_right cs (trim_right cs s) = trim_right cs s"
  using trim_right_id trim_right_last by blast

lemma trim_right_decomp: "\<exists>t. s = trim_right cs s @ t \<and> set t \<subseteq> set cs"
proof (intro exI conjI)
  let ?t = "rev (takeWhile (\<lambda>c. c \<in> set cs) (rev s))"
  show "s = trim_right cs s @ ?t"
    unfolding trim_right_def by (metis rev_append rev_rev_ident takeWhile_dropWhile_id)
  show "set ?t \<subseteq> set cs" by (auto dest: set_takeWhileD)
qed

lemma trim_right_set: "set (trim_right cs s) \<subseteq> set s"
  using trim_right_decomp [of s cs] by (metis Un_upper1 set_append)

subsection \<open>Lemmas on list windows\<close>

text \<open>\<open>copy(xs[i:i+len(ys)], ys)\<close> where the target range lies inside \<open>xs\<close>.\<close>

definition copy_at :: "'a list \<Rightarrow> nat \<Rightarrow> 'a list \<Rightarrow> 'a list" where
  "copy_at xs i ys = take i xs @ ys @ drop (i + length ys) xs"

text \<open>\<open>xs[i:j]\<close> where \<open>i <= j <= len(xs)\<close>.\<close>

definition slice :: "'a list \<Rightarrow> nat \<Rightarrow> nat \<Rightarrow> 'a list" where
  "slice xs i j = take (j - i) (drop i xs)"

lemma length_copy_at [simp]: "i + length ys \<le> length xs \<Longrightarrow> length (copy_at xs i ys) = length xs"
  by (simp add: copy_at_def)

lemma nth_copy_at:
  "i + length ys \<le> length xs \<Longrightarrow> k < length xs \<Longrightarrow>
   copy_at xs i ys ! k = (if i \<le> k \<and> k < i + length ys then ys ! (k - i) else xs ! k)"
  by (auto simp: copy_at_def nth_append)

lemma length_slice [simp]: "j \<le> length xs \<Longrightarrow> length (slice xs i j) = j - i"
  by (simp add: slice_def)

lemma nth_slice: "j \<le> length xs \<Longrightarrow> k < j - i \<Longrightarrow> slice xs i j ! k = xs ! (i + k)"
  by (simp add: slice_def)

end
