(* ===== verification/Domain.thy ===== *)
theory Domain
  imports Prelude
begin

section \<open>Domain: response types and error codes (internal/domain)\<close>

text \<open>
  The wire types of \<open>internal/domain/response.go\<close> and the error codes of
  \<open>internal/domain/errors.go\<close>. Optional fields, pointers in the source, are options.
  The Go \<open>error\<close> values that cross package boundaries are one datatype: each sentinel
  error of the packages \<open>store\<close> and \<open>tmuxctl\<close> is a constructor, so that
  \<open>errors.Is\<close> is a test of the constructor and \<open>errors.As\<close> a match on
  \<open>Command\<close>.
\<close>

type_synonym PaneID = string
type_synonym Token = string

subsection \<open>Error codes\<close>

type_synonym ErrorCode = string

definition ErrMissingAfter :: ErrorCode where "ErrMissingAfter = ''MISSING_AFTER''"
definition ErrInvalidAfter :: ErrorCode where "ErrInvalidAfter = ''INVALID_AFTER''"
definition ErrPaneNotFound :: ErrorCode where "ErrPaneNotFound = ''PANE_NOT_FOUND''"
definition ErrPaneClosed :: ErrorCode where "ErrPaneClosed = ''PANE_CLOSED''"
definition ErrTimeout :: ErrorCode where "ErrTimeout = ''TIMEOUT''"
definition ErrInvalidKey :: ErrorCode where "ErrInvalidKey = ''INVALID_KEY''"
definition ErrInvalidArgs :: ErrorCode where "ErrInvalidArgs = ''INVALID_ARGS''"
definition ErrInvalidRegex :: ErrorCode where "ErrInvalidRegex = ''INVALID_REGEX''"

lemmas error_code_defs = ErrMissingAfter_def ErrInvalidAfter_def ErrPaneNotFound_def
  ErrPaneClosed_def ErrTimeout_def ErrInvalidKey_def ErrInvalidArgs_def ErrInvalidRegex_def

lemma error_codes_distinct:
  "distinct [ErrMissingAfter, ErrInvalidAfter, ErrPaneNotFound, ErrPaneClosed, ErrTimeout,
     ErrInvalidKey, ErrInvalidArgs, ErrInvalidRegex]"
  by (simp add: error_code_defs)

lemma error_codes_neq [simp]:
  "ErrPaneClosed \<noteq> ErrPaneNotFound" "ErrPaneNotFound \<noteq> ErrPaneClosed"
  "ErrPaneClosed \<noteq> ErrTimeout" "ErrTimeout \<noteq> ErrPaneClosed"
  "ErrPaneNotFound \<noteq> ErrTimeout" "ErrTimeout \<noteq> ErrPaneNotFound"
  "ErrInvalidAfter \<noteq> ErrTimeout" "ErrTimeout \<noteq> ErrInvalidAfter"
  "ErrInvalidAfter \<noteq> ErrPaneClosed" "ErrPaneClosed \<noteq> ErrInvalidAfter"
  "ErrInvalidAfter \<noteq> ErrPaneNotFound" "ErrPaneNotFound \<noteq> ErrInvalidAfter"
  "ErrInvalidArgs \<noteq> ErrTimeout" "ErrTimeout \<noteq> ErrInvalidArgs"
  "ErrInvalidArgs \<noteq> ErrPaneClosed" "ErrPaneClosed \<noteq> ErrInvalidArgs"
  "ErrInvalidArgs \<noteq> ErrPaneNotFound" "ErrPaneNotFound \<noteq> ErrInvalidArgs"
  "ErrInvalidArgs \<noteq> ErrMissingAfter" "ErrMissingAfter \<noteq> ErrInvalidArgs"
  "ErrMissingAfter \<noteq> ErrTimeout" "ErrTimeout \<noteq> ErrMissingAfter"
  "ErrMissingAfter \<noteq> ErrPaneClosed" "ErrPaneClosed \<noteq> ErrMissingAfter"
  by (simp_all add: error_code_defs)

record ErrorResponse =
  er_pane_id :: string
  er_code :: ErrorCode
  er_message :: string

text \<open>The method \<open>Error\<close> of \<open>*ErrorResponse\<close>.\<close>

definition ErrorResponse_Error :: "ErrorResponse \<Rightarrow> string" where
  "ErrorResponse_Error e =
     (if er_pane_id e \<noteq> []
      then er_code e @ '' ['' @ er_pane_id e @ '']: '' @ er_message e
      else er_code e @ '': '' @ er_message e)"

subsection \<open>Responses\<close>

record ListResponse =
  lr_panes :: "PaneID list"

record SnapshotResponse =
  sr_pane_id :: PaneID
  sr_next :: Token
  sr_scrollback_text :: "string option"
  sr_text :: string

record ReadResponse =
  rr_pane_id :: PaneID
  rr_next :: Token
  rr_text :: string

datatype WaitResult = WaitSentinel | WaitRegex | WaitQuiescence

fun wait_result_string :: "WaitResult \<Rightarrow> string" where
  "wait_result_string WaitSentinel = ''sentinel''"
| "wait_result_string WaitRegex = ''regex''"
| "wait_result_string WaitQuiescence = ''quiescence''"

record WaitResponse =
  wr_pane_id :: PaneID
  wr_next :: Token
  wr_result :: WaitResult
  wr_matched :: "string option"
  wr_exit_code :: "int option"

subsection \<open>Error values\<close>

datatype go_error =
    ErrPaneUnknown
  | ErrTokenMalformed
  | ErrTokenWrongInstance
  | ErrTokenWrongPane
  | ErrTokenEvicted
  | ErrTmuxPaneNotFound
  | ErrTmuxInvalidKey string
  | Command ErrorResponse
  | Runtime string

text \<open>\<open>err.Error()\<close>; \<open>ErrTmuxInvalidKey m\<close> is \<open>fmt.Errorf("%w: %s", ErrInvalidKey, m)\<close>.\<close>

fun error_string :: "go_error \<Rightarrow> string" where
  "error_string ErrPaneUnknown = ''pane not known to store''"
| "error_string ErrTokenMalformed = ''token malformed''"
| "error_string ErrTokenWrongInstance = ''token issued by a different controller instance''"
| "error_string ErrTokenWrongPane = ''token is for a different pane''"
| "error_string ErrTokenEvicted = ''token offset is no longer retained''"
| "error_string ErrTmuxPaneNotFound = ''pane not found''"
| "error_string (ErrTmuxInvalidKey m) = ''invalid key token: '' @ m"
| "error_string (Command e) = ErrorResponse_Error e"
| "error_string (Runtime m) = m"

text \<open>The composite literal \<open>&domain.ErrorResponse{...}\<close>.\<close>

definition error_response :: "string \<Rightarrow> ErrorCode \<Rightarrow> string \<Rightarrow> ErrorResponse" where
  "error_response pane code msg = \<lparr>er_pane_id = pane, er_code = code, er_message = msg\<rparr>"

lemma error_response_sel [simp]:
  "er_pane_id (error_response p c m) = p"
  "er_code (error_response p c m) = c"
  "er_message (error_response p c m) = m"
  by (simp_all add: error_response_def)

end
