(* ===== verification/Buffer.thy ===== *)
theory Buffer
  imports Domain
begin

section \<open>Buffer: the per-pane byte ring (internal/store/buffer.go)\<close>

text \<open>
  A \<open>Buffer\<close> keeps the last \<open>capacity\<close> bytes of a stream in a fixed array; the byte
  at absolute offset \<open>o\<close> lives in cell \<open>o mod capacity\<close>. The abstract value of a
  buffer is the whole stream appended so far, and \<open>ring_of b h\<close> says that \<open>b\<close> is the
  ring of the stream \<open>h\<close>. Offsets (\<open>int64\<close> in the source) are integers: they count
  bytes appended and are far from \<open>2 ^ 63\<close>.
\<close>

record Buffer =
  buf_capacity :: int
  buf_data :: bytes
  buf_start :: int
  buf_end :: int
  buf_lastAppend :: "instant option"

text \<open>\<open>None\<close> is the panic of the capacity check; \<open>make([]byte, capacity)\<close> is zeroed.\<close>

definition NewBuffer :: "int \<Rightarrow> Buffer option" where
  "NewBuffer capacity =
     (if capacity \<le> 0 then None
      else Some \<lparr>buf_capacity = capacity, buf_data = replicate (nat capacity) (CHR 0x00),
                 buf_start = 0, buf_end = 0, buf_lastAppend = None\<rparr>)"

definition Buffer_End :: "Buffer \<Rightarrow> int" where "Buffer_End b = buf_end b"
definition Buffer_Start :: "Buffer \<Rightarrow> int" where "Buffer_Start b = buf_start b"
definition Buffer_Len :: "Buffer \<Rightarrow> int" where "Buffer_Len b = buf_end b - buf_start b"
definition Buffer_LastAppend :: "Buffer \<Rightarrow> instant option" where
  "Buffer_LastAppend b = buf_lastAppend b"

text \<open>The two places of \<open>Append\<close> that move \<open>end\<close> and then clip \<open>start\<close>.\<close>

definition advance_end :: "Buffer \<Rightarrow> int \<Rightarrow> Buffer" where
  "advance_end b n =
     (let e = buf_end b + n
      in if e - buf_start b > buf_capacity b
         then b\<lparr>buf_end := e, buf_start := e - buf_capacity b\<rparr>
         else b\<lparr>buf_end := e\<rparr>)"

text \<open>The write of \<open>p\<close> (at most \<open>capacity\<close> bytes) at the head, wrapping at the array's end.\<close>

definition ring_write :: "bytes \<Rightarrow> nat \<Rightarrow> bytes \<Rightarrow> bytes" where
  "ring_write xs head p =
     (let first = length xs - head
      in if length p \<le> first then copy_at xs head p
         else copy_at (copy_at xs head (take first p)) 0 (drop first p))"

definition Buffer_Append :: "instant \<Rightarrow> bytes \<Rightarrow> Buffer \<Rightarrow> Buffer" where
  "Buffer_Append now p b =
     (if length p = 0 then b
      else
        let b1 = b\<lparr>buf_lastAppend := Some now\<rparr>;
            dropped = int (length p) - buf_capacity b1;
            (b2, p2) = (if int (length p) > buf_capacity b1
                        then (advance_end b1 dropped, drop (nat dropped) p)
                        else (b1, p));
            head = nat (buf_end b2 mod buf_capacity b2)
        in advance_end (b2\<lparr>buf_data := ring_write (buf_data b2) head p2\<rparr>) (int (length p2)))"

text \<open>The bytes, the new end and the flag \<open>ok\<close>.\<close>

definition Buffer_Read :: "Buffer \<Rightarrow> int \<Rightarrow> bytes \<times> int \<times> bool" where
  "Buffer_Read b after =
     (if after < buf_start b \<or> after > buf_end b then ([], buf_end b, False)
      else
        let n = nat (buf_end b - after)
        in if n = 0 then ([], buf_end b, True)
           else
             let beg = nat (after mod buf_capacity b); cap = nat (buf_capacity b)
             in if beg + n \<le> cap
                then (slice (buf_data b) beg (beg + n), buf_end b, True)
                else let first = cap - beg
                     in (slice (buf_data b) beg cap @ slice (buf_data b) 0 (n - first),
                         buf_end b, True))"

subsection \<open>The ring holds the tail of the stream\<close>

definition ring_of :: "Buffer \<Rightarrow> bytes \<Rightarrow> bool" where
  "ring_of b h \<longleftrightarrow>
     0 < buf_capacity b \<and> int (length (buf_data b)) = buf_capacity b \<and>
     buf_end b = int (length h) \<and>
     buf_start b = max 0 (int (length h) - buf_capacity b) \<and>
     (\<forall>i. int i \<ge> buf_start b \<and> i < length h \<longrightarrow>
          buf_data b ! (i mod nat (buf_capacity b)) = h ! i)"

lemma ring_of_new: "NewBuffer cap = Some b \<Longrightarrow> ring_of b []"
  by (auto simp: NewBuffer_def ring_of_def split: if_splits)

lemma length_ring_write:
  "head < length xs \<Longrightarrow> length p \<le> length xs \<Longrightarrow> length (ring_write xs head p) = length xs"
  by (auto simp: ring_write_def Let_def)

text \<open>The cell \<open>k\<close> after a write at \<open>h\<close>: its distance from \<open>h\<close>, around the ring.\<close>

lemma ring_write_cells:
  assumes "h < length xs" and "length p \<le> length xs" and "k < length xs"
  shows "ring_write xs h p ! k =
    (let j = (if h \<le> k then k - h else k + length xs - h)
     in if j < length p then p ! j else xs ! k)"
proof (cases "length p \<le> length xs - h")
  case True
  with assms show ?thesis
    by (auto simp: ring_write_def nth_copy_at Let_def)
next
  case False
  let ?f = "length xs - h"
  have "copy_at xs h (take ?f p) ! k = (if h \<le> k then p ! (k - h) else xs ! k)"
    using assms False by (auto simp: nth_copy_at)
  with assms False show ?thesis
    by (auto simp: ring_write_def nth_copy_at Let_def add.commute [of k])
qed

text \<open>Writing at the cell of offset \<open>e\<close> puts byte \<open>i\<close> of \<open>p\<close> in the cell of \<open>e + i\<close>.\<close>

lemma ring_write_nth:
  assumes "0 < length xs" and "length p \<le> length xs" and "k < length xs"
  defines "c \<equiv> length xs"
  shows "ring_write xs (e mod c) p ! k =
    (if (k + c - e mod c) mod c < length p then p ! ((k + c - e mod c) mod c) else xs ! k)"
proof -
  let ?h = "e mod c"
  have h: "?h < c" using assms(1) by (simp add: c_def)
  have m: "(k + c - ?h) mod c = (if ?h \<le> k then k - ?h else k + c - ?h)"
  proof (cases "?h \<le> k")
    case True
    have lt: "k - ?h < c" using assms(3) by (simp add: c_def less_imp_diff_less)
    from True have e: "(k + c - ?h) = (k - ?h) + c" by simp
    have "(k + c - ?h) mod c = k - ?h" unfolding e using lt by simp
    then show ?thesis using True by (simp only: if_True)
  next
    case False
    then show ?thesis using h by (simp add: mod_less)
  qed
  show ?thesis
    unfolding m using ring_write_cells [of ?h xs p k] h assms by (simp add: c_def Let_def)
qed

lemma mod_shift:
  assumes "0 < c" and "e \<le> i + c"
  shows "(i mod c + c - e mod c) mod c = (i + c - e) mod (c :: nat)"
proof -
  have "e mod c \<le> i mod c + c"
    using mod_less_divisor [OF assms(1), of e] by linarith
  then have "int ((i mod c + c - e mod c) mod c) = (int i mod int c + int c - int e mod int c) mod int c"
    by (simp add: of_nat_mod of_nat_diff)
  also have "\<dots> = (int i mod int c + (int c - int e)) mod int c"
    by (metis add_diff_eq mod_diff_right_eq)
  also have "\<dots> = (int i + (int c - int e)) mod int c"
    by (rule mod_add_left_eq)
  also have "\<dots> = (int i + int c - int e) mod int c"
    by (simp only: add_diff_eq)
  also have "\<dots> = int ((i + c - e) mod c)"
    using assms(2) by (simp add: of_nat_mod of_nat_diff)
  finally show ?thesis by simp
qed

text \<open>A surviving cell is untouched and a written cell holds its byte of \<open>p\<close>.\<close>

lemma ring_write_survives:
  assumes "0 < length xs" and "length p \<le> length xs"
    and "e + length p \<le> i + length xs" and "i < e"
  shows "ring_write xs (e mod length xs) p ! (i mod length xs) = xs ! (i mod length xs)"
proof -
  have "(i mod length xs + length xs - e mod length xs) mod length xs = i + length xs - e"
    using assms mod_shift [of "length xs" e i] by simp
  moreover have "\<not> i + length xs - e < length p" using assms(3) by linarith
  ultimately show ?thesis using assms(1,2) by (simp add: ring_write_nth)
qed

lemma ring_write_written:
  assumes "0 < length xs" and "length p \<le> length xs" and "i < length p"
  shows "ring_write xs (e mod length xs) p ! ((e + i) mod length xs) = p ! i"
proof -
  have "((e + i) mod length xs + length xs - e mod length xs) mod length xs = i"
    using assms mod_shift [of "length xs" e "e + i"] by simp
  with assms show ?thesis by (simp add: ring_write_nth)
qed

lemma advance_end_sel [simp]:
  "buf_capacity (advance_end b n) = buf_capacity b"
  "buf_data (advance_end b n) = buf_data b"
  "buf_end (advance_end b n) = buf_end b + n"
  "buf_lastAppend (advance_end b n) = buf_lastAppend b"
  "buf_start (advance_end b n) = max (buf_start b) (buf_end b + n - buf_capacity b)"
  by (auto simp: advance_end_def Let_def)

text \<open>
  One write of at most \<open>capacity\<close> bytes: enough that the cells that survive the write
  hold their bytes, which is what the dropping of an oversized \<open>p\<close> leaves.
\<close>

lemma write_step:
  assumes cap: "0 < buf_capacity b" "int (length (buf_data b)) = buf_capacity b"
    and e: "buf_end b = int (length h)"
    and s: "buf_start b = max 0 (int (length h) - buf_capacity b)"
    and p: "int (length p) \<le> buf_capacity b"
    and live: "\<And>i. i < length h \<Longrightarrow> length h + length p \<le> i + nat (buf_capacity b) \<Longrightarrow>
                buf_data b ! (i mod nat (buf_capacity b)) = h ! i"
  shows "ring_of (advance_end (b\<lparr>buf_data := ring_write (buf_data b)
            (nat (buf_end b mod buf_capacity b)) p\<rparr>) (int (length p))) (h @ p)"
proof -
  let ?c = "length (buf_data b)"
  have c: "nat (buf_capacity b) = ?c" "0 < ?c" using cap by auto
  have head: "nat (buf_end b mod buf_capacity b) = length h mod ?c"
    using cap e by (metis nat_int zmod_int)
  then have head': "nat (int (length h) mod buf_capacity b) = length h mod ?c"
    using e by simp
  have pc: "length p \<le> ?c" using p cap by linarith
  have len: "length (ring_write (buf_data b) (length h mod ?c) p) = ?c"
    using c pc by (simp add: length_ring_write)
  have cells: "ring_write (buf_data b) (length h mod ?c) p ! (i mod ?c) = (h @ p) ! i"
    if i: "i < length (h @ p)" and w: "length h + length p \<le> i + ?c" for i
  proof (cases "i < length h")
    case True
    then show ?thesis
      using w live [of i] c pc by (simp add: ring_write_survives nth_append)
  next
    case False
    then obtain k where "i = length h + k" using le_Suc_ex not_less by blast
    then show ?thesis using i c pc by (simp add: ring_write_written)
  qed
  show ?thesis
    unfolding ring_of_def
    using cap e s p len cells by (auto simp: head' c)
qed

text \<open>\<open>Append\<close> appends to the stream, whatever the length of \<open>p\<close>.\<close>

lemma ring_of_Append:
  assumes "ring_of b h"
  shows "ring_of (Buffer_Append now p b) (h @ p)"
proof -
  have b: "0 < buf_capacity b" "int (length (buf_data b)) = buf_capacity b"
    "buf_end b = int (length h)" "buf_start b = max 0 (int (length h) - buf_capacity b)"
    "\<And>i. int i \<ge> buf_start b \<Longrightarrow> i < length h \<Longrightarrow>
       buf_data b ! (i mod nat (buf_capacity b)) = h ! i"
    using assms by (auto simp: ring_of_def)
  consider "p = []" | "p \<noteq> []" "int (length p) \<le> buf_capacity b"
    | "int (length p) > buf_capacity b" by linarith
  then show ?thesis
  proof cases
    case 1
    with assms show ?thesis by (simp add: Buffer_Append_def)
  next
    case 2
    have "ring_of (advance_end ((b\<lparr>buf_lastAppend := Some now\<rparr>)\<lparr>buf_data := ring_write (buf_data (b\<lparr>buf_lastAppend := Some now\<rparr>))
            (nat (buf_end (b\<lparr>buf_lastAppend := Some now\<rparr>) mod buf_capacity (b\<lparr>buf_lastAppend := Some now\<rparr>))) p\<rparr>) (int (length p))) (h @ p)"
      by (rule write_step) (use b 2 in auto)
    with 2 show ?thesis by (simp add: Buffer_Append_def Let_def)
  next
    case 3
    define d where "d = nat (int (length p) - buf_capacity b)"
    let ?b = "advance_end (b\<lparr>buf_lastAppend := Some now\<rparr>) (int d)"
    have d: "int d = int (length p) - buf_capacity b" using 3 by (simp add: d_def)
    have "ring_of (advance_end (?b\<lparr>buf_data := ring_write (buf_data ?b)
            (nat (buf_end ?b mod buf_capacity ?b)) (drop d p)\<rparr>) (int (length (drop d p))))
            ((h @ take d p) @ drop d p)"
      by (rule write_step) (use b d 3 in auto)
    moreover have "p \<noteq> []" using 3 b(1) by auto
    ultimately show ?thesis
      using 3 by (simp add: Buffer_Append_def Let_def d_def [symmetric] d)
  qed
qed

text \<open>\<open>Read\<close> returns what the stream holds from \<open>after\<close> on, or refuses the offset.\<close>

lemma ring_slice:
  assumes "ring_of b h" and "buf_start b \<le> int a" and "a + n \<le> length h"
    and "a mod nat (buf_capacity b) + n \<le> nat (buf_capacity b)"
  shows "slice (buf_data b) (a mod nat (buf_capacity b)) (a mod nat (buf_capacity b) + n)
           = take n (drop a h)"
proof (rule nth_equalityI)
  let ?c = "nat (buf_capacity b)"
  have len: "length (buf_data b) = ?c" using assms(1) by (auto simp: ring_of_def)
  with assms show "length (slice (buf_data b) (a mod ?c) (a mod ?c + n)) = length (take n (drop a h))"
    by simp
  fix i assume "i < length (slice (buf_data b) (a mod ?c) (a mod ?c + n))"
  with len assms(4) have i: "i < n" by simp
  have "(a + i) mod ?c = (a mod ?c + i) mod ?c" by (simp only: mod_add_left_eq)
  also have "\<dots> = a mod ?c + i" using i assms(4) by (intro mod_less) linarith
  finally have "a mod ?c + i = (a + i) mod ?c" ..
  moreover have "buf_data b ! ((a + i) mod ?c) = h ! (a + i)"
    using assms i by (auto simp: ring_of_def)
  ultimately show "slice (buf_data b) (a mod ?c) (a mod ?c + n) ! i = take n (drop a h) ! i"
    using i len assms(3,4) by (simp add: nth_slice)
qed

lemma ring_of_Read:
  assumes r: "ring_of b h"
  shows "Buffer_Read b after =
    (if buf_start b \<le> after \<and> after \<le> buf_end b
     then (drop (nat after) h, int (length h), True) else ([], int (length h), False))"
proof (cases "buf_start b \<le> after \<and> after \<le> buf_end b")
  case False
  with r show ?thesis by (auto simp: Buffer_Read_def ring_of_def)
next
  case True
  define a where "a = nat after"
  let ?c = "nat (buf_capacity b)" and ?n = "length h - a"
  have b: "0 < buf_capacity b" "buf_end b = int (length h)" "buf_start b \<ge> 0"
    "length h \<le> a + ?c"
    using r True by (auto simp: ring_of_def a_def)
  have a: "after = int a" "a \<le> length h" using True b by (auto simp: a_def)
  have beg: "nat (after mod buf_capacity b) = a mod ?c"
    using a b(1) by (metis int_nat_eq nat_int order_less_le zmod_int)
  have n: "nat (buf_end b - after) = ?n" using a b by simp
  consider "a = length h" | "a < length h" "a mod ?c + ?n \<le> ?c"
    | "a < length h" "?c < a mod ?c + ?n" by (metis a(2) le_neq_implies_less not_less)
  then show ?thesis
  proof cases
    case 1
    with True a b show ?thesis by (auto simp: Buffer_Read_def Let_def)
  next
    case 2
    have "slice (buf_data b) (a mod ?c) (a mod ?c + ?n) = drop a h"
      using ring_slice [OF r _ _ 2(2)] True a by simp
    with 2 True a b beg n show ?thesis by (simp add: Buffer_Read_def Let_def)
  next
    case 3
    define f where "f = ?c - a mod ?c"
    have am: "a mod ?c < ?c" using b(1) by simp
    have f: "0 < f" "f < ?n" "?n - f \<le> ?c" "(a + f) mod ?c = 0"
    proof -
      show "0 < f" "f < ?n" using am 3 by (auto simp: f_def)
      show "?n - f \<le> ?c" using b(4) by linarith
      have "a + f = ?c * (a div ?c) + (a mod ?c + f)"
        using mult_div_mod_eq [of ?c a] by linarith
      also have "\<dots> = ?c * (a div ?c) + ?c" using am by (simp add: f_def)
      finally show "(a + f) mod ?c = 0" by simp
    qed
    have ce: "a mod ?c + f = ?c" using am by (simp add: f_def)
    have "a + f \<le> length h" using f(2) by linarith
    then have s1: "slice (buf_data b) (a mod ?c) ?c = take f (drop a h)"
      using ring_slice [OF r, of a f] True a ce by simp
    have s2: "slice (buf_data b) 0 (?n - f) = take (?n - f) (drop (a + f) h)"
      using ring_slice [OF r, of "a + f" "?n - f"] True a f by simp
    have "take f (drop a h) @ take (?n - f) (drop (a + f) h) = drop a h"
      by (metis add.commute append_take_drop_id drop_drop length_drop order_refl take_all diff_diff_left)
    with s1 s2 3 True a b beg n show ?thesis
      by (simp add: Buffer_Read_def Let_def f_def [symmetric])
  qed
qed

lemma ring_of_bounds:
  assumes "ring_of b h"
  shows "0 \<le> buf_start b" "buf_start b \<le> buf_end b" "buf_end b - buf_start b \<le> buf_capacity b"
  using assms by (auto simp: ring_of_def)

lemma Buffer_Append_sel [simp]:
  "buf_capacity (Buffer_Append now p b) = buf_capacity b"
  "buf_lastAppend (Buffer_Append now p b) = (if p = [] then buf_lastAppend b else Some now)"
  "Buffer_Append now [] b = b"
  by (auto simp: Buffer_Append_def Let_def)

subsection \<open>The interface the store relies on\<close>

text \<open>
  The contract of a retained stream: what its client may assume of \<open>Append\<close>,
  \<open>Read\<close>, \<open>Start\<close> and \<open>End\<close>, with \<open>holds b h\<close> relating a buffer to
  everything ever appended to it.
\<close>

locale retained_stream =
  fixes app :: "instant \<Rightarrow> bytes \<Rightarrow> 'b \<Rightarrow> 'b"
    and rd :: "'b \<Rightarrow> int \<Rightarrow> bytes \<times> int \<times> bool"
    and last_off :: "'b \<Rightarrow> int"
    and first_off :: "'b \<Rightarrow> int"
    and budget :: "'b \<Rightarrow> int"
    and holds :: "'b \<Rightarrow> bytes \<Rightarrow> bool"
  assumes holds_app: "holds b h \<Longrightarrow> holds (app now p b) (h @ p)"
    and budget_app: "budget (app now p b) = budget b"
    and budget_pos: "holds b h \<Longrightarrow> 0 < budget b"
    and last_off: "holds b h \<Longrightarrow> last_off b = int (length h)"
    and first_off: "holds b h \<Longrightarrow> first_off b = max 0 (int (length h) - budget b)"
    and rd_inside: "holds b h \<Longrightarrow> first_off b \<le> off \<Longrightarrow> off \<le> last_off b \<Longrightarrow>
          rd b off = (drop (nat off) h, last_off b, True)"
    and rd_outside: "holds b h \<Longrightarrow> off < first_off b \<or> last_off b < off \<Longrightarrow>
          rd b off = ([], last_off b, False)"
begin

lemma holds_apps:
  "holds b h \<Longrightarrow> holds (fold (\<lambda>(t, p). app t p) ps b) (h @ concat (map snd ps))"
proof (induction ps arbitrary: b h)
  case Nil
  then show ?case by simp
next
  case (Cons tp ps)
  from holds_app [OF Cons.prems] have "holds (app (fst tp) (snd tp) b) (h @ snd tp)" .
  from Cons.IH [OF this] show ?case by (simp add: case_prod_beta)
qed

lemma budget_apps: "budget (fold (\<lambda>(t, p). app t p) ps b) = budget b"
  by (induction ps arbitrary: b) (auto simp: budget_app)

text \<open>Reading from an old head returns exactly what was appended since, or reports eviction.\<close>

lemma rd_since:
  assumes "holds b h" and "int (length (concat (map snd ps))) \<le> budget b"
  shows "rd (fold (\<lambda>(t, p). app t p) ps b) (last_off b) =
    (concat (map snd ps), last_off b + int (length (concat (map snd ps))), True)"
proof -
  let ?b = "fold (\<lambda>(t, p). app t p) ps b"
  have h: "holds ?b (h @ concat (map snd ps))" by (rule holds_apps [OF assms(1)])
  have "first_off ?b \<le> last_off b" "last_off b \<le> last_off ?b"
    using assms(2) first_off [OF h] last_off [OF h] last_off [OF assms(1)]
    by (auto simp: budget_apps)
  from rd_inside [OF h this] show ?thesis
    using last_off [OF h] last_off [OF assms(1)] by simp
qed

lemma rd_since_evicted:
  assumes "holds b h" and "budget b < int (length (concat (map snd ps)))"
  shows "snd (snd (rd (fold (\<lambda>(t, p). app t p) ps b) (last_off b))) = False"
proof -
  let ?b = "fold (\<lambda>(t, p). app t p) ps b"
  have h: "holds ?b (h @ concat (map snd ps))" by (rule holds_apps [OF assms(1)])
  have "last_off b < first_off ?b"
    using assms(2) first_off [OF h] last_off [OF assms(1)] by (auto simp: budget_apps)
  with rd_outside [OF h] show ?thesis by simp
qed

text \<open>What a read returns does not depend on how the stream was cut into appends.\<close>

lemma rd_retained:
  assumes "holds b h" and "snd (snd (rd b off)) = True"
  shows "rd b off = (drop (nat off) h, last_off b, True)"
  using assms rd_inside rd_outside by (metis linorder_not_less snd_conv)

lemma rd_flag:
  "holds b h \<Longrightarrow> snd (snd (rd b off)) \<longleftrightarrow> first_off b \<le> off \<and> off \<le> last_off b"
  using rd_inside rd_outside by (metis linorder_not_less snd_conv)

end

interpretation ring: retained_stream Buffer_Append Buffer_Read Buffer_End Buffer_Start
  buf_capacity ring_of
proof unfold_locales
  fix b h now p
  assume "ring_of b h"
  then show "ring_of (Buffer_Append now p b) (h @ p)" by (rule ring_of_Append)
next
  fix b h off
  assume "ring_of b h" and "Buffer_Start b \<le> off" and "off \<le> Buffer_End b"
  then show "Buffer_Read b off = (drop (nat off) h, Buffer_End b, True)"
    by (simp add: ring_of_Read Buffer_Start_def Buffer_End_def) (simp add: ring_of_def)
next
  fix b h off
  assume "ring_of b h" and "off < Buffer_Start b \<or> Buffer_End b < off"
  then show "Buffer_Read b off = ([], Buffer_End b, False)"
    by (auto simp: Buffer_Read_def Buffer_Start_def Buffer_End_def)
qed (auto simp: ring_of_def Buffer_Start_def Buffer_End_def)

end
