(* ===== verification/Base64.thy ===== *)
theory Base64
  imports Prelude
begin

section \<open>Base64: \<open>base64.RawURLEncoding\<close>\<close>

text \<open>
  The URL-safe alphabet without padding, as \<open>encoding/base64\<close> implements it. Decoding
  skips carriage returns and newlines, refuses any other byte outside the alphabet and a
  last group of one character, and ignores the unused low bits of the last character.
\<close>

definition b64_alphabet :: string where
  "b64_alphabet = ''ABCDEFGHIJKLMNOPQRSTUVWXYZabcdefghijklmnopqrstuvwxyz0123456789-_''"

definition b64_char :: "nat \<Rightarrow> char" where
  "b64_char n = b64_alphabet ! n"

definition b64_value :: "char \<Rightarrow> nat option" where
  "b64_value c = index_byte b64_alphabet c"

fun b64_encode :: "bytes \<Rightarrow> string" where
  "b64_encode [] = []"
| "b64_encode [a] =
     (let x = of_char a in [b64_char (x div 4), b64_char (x mod 4 * 16)])"
| "b64_encode [a, b] =
     (let x = of_char a; y = of_char b
      in [b64_char (x div 4), b64_char (x mod 4 * 16 + y div 16), b64_char (y mod 16 * 4)])"
| "b64_encode (a # b # c # r) =
     (let x = of_char a; y = of_char b; z = of_char c
      in [b64_char (x div 4), b64_char (x mod 4 * 16 + y div 16),
          b64_char (y mod 16 * 4 + z div 64), b64_char (z mod 64)] @ b64_encode r)"

fun b64_quanta :: "nat list \<Rightarrow> bytes option" where
  "b64_quanta [] = Some []"
| "b64_quanta [u] = None"
| "b64_quanta [u, v] = Some [char_of (u * 4 + v div 16)]"
| "b64_quanta [u, v, w] = Some [char_of (u * 4 + v div 16), char_of (v mod 16 * 16 + w div 4)]"
| "b64_quanta (u # v # w # x # r) =
     map_option (\<lambda>t. [char_of (u * 4 + v div 16), char_of (v mod 16 * 16 + w div 4),
                       char_of (w mod 4 * 64 + x)] @ t)
       (b64_quanta r)"

definition b64_decode :: "string \<Rightarrow> bytes option" where
  "b64_decode s =
     (case those (map b64_value (filter (\<lambda>c. c \<noteq> CHR 0x0D \<and> c \<noteq> CHR 0x0A) s)) of
        None \<Rightarrow> None
      | Some vs \<Rightarrow> b64_quanta vs)"

subsection \<open>Decoding inverts encoding\<close>

lemma b64_char_table:
  "list_all (\<lambda>n. b64_value (b64_char n) = Some n \<and> b64_char n \<noteq> CHR 0x0D \<and> b64_char n \<noteq> CHR 0x0A)
     [0..<64]"
  by code_simp

lemma b64_value_char [simp]: "n < 64 \<Longrightarrow> b64_value (b64_char n) = Some n"
  and b64_char_not_nl [simp]: "n < 64 \<Longrightarrow> b64_char n \<noteq> CHR 0x0D \<and> b64_char n \<noteq> CHR 0x0A"
  using b64_char_table by (auto simp: list_all_iff)

text \<open>The sextets of a byte string.\<close>

fun sextets :: "bytes \<Rightarrow> nat list" where
  "sextets [] = []"
| "sextets [a] = (let x = of_char a in [x div 4, x mod 4 * 16])"
| "sextets [a, b] =
     (let x = of_char a; y = of_char b in [x div 4, x mod 4 * 16 + y div 16, y mod 16 * 4])"
| "sextets (a # b # c # r) =
     (let x = of_char a; y = of_char b; z = of_char c
      in [x div 4, x mod 4 * 16 + y div 16, y mod 16 * 4 + z div 64, z mod 64] @ sextets r)"

lemma b64_encode_sextets: "b64_encode s = map b64_char (sextets s)"
  by (induction s rule: sextets.induct) (auto simp: Let_def)

lemma sextet_bounds:
  assumes "x < 256" "y < 256" "z < (256 :: nat)"
  shows "x div 4 < 64" "x mod 4 * 16 < 64" "x mod 4 * 16 + y div 16 < 64" "y mod 16 * 4 < 64"
    "y mod 16 * 4 + z div 64 < 64"
proof -
  have "x mod 4 < 4" "y mod 16 < 16" "y div 16 < 16" "z div 64 < 4"
    using assms by (auto simp: less_mult_imp_div_less)
  then show "x div 4 < 64" "x mod 4 * 16 < 64" "x mod 4 * 16 + y div 16 < 64" "y mod 16 * 4 < 64"
    "y mod 16 * 4 + z div 64 < 64"
    using assms by linarith+
qed

lemma sextets_less: "n \<in> set (sextets s) \<Longrightarrow> n < 64"
  using sextet_bounds [OF of_char_less of_char_less of_char_less]
  by (induction s rule: sextets.induct) (auto simp: Let_def)

lemma b64_quanta_sextets: "b64_quanta (sextets s) = Some s"
proof (induction s rule: sextets.induct)
  case 1
  then show ?case by simp
next
  case (2 a)
  then show ?case by (simp add: Let_def)
next
  case (3 a b)
  have "of_char a div 4 * 4 + (of_char a mod 4 * 16 + of_char b div 16) div 16 = (of_char a :: nat)"
    using of_char_less [of b] by (simp add: less_mult_imp_div_less)
  moreover have "(of_char a mod 4 * 16 + of_char b div 16) mod 16 * 16 + of_char b mod 16 * 4 div 4 = (of_char b :: nat)"
    using of_char_less [of b] by (simp add: less_mult_imp_div_less mult.commute)
  ultimately show ?case by (simp add: Let_def)
next
  case (4 a b c r)
  have "of_char a div 4 * 4 + (of_char a mod 4 * 16 + of_char b div 16) div 16 = (of_char a :: nat)"
    using of_char_less [of b] by (simp add: less_mult_imp_div_less)
  moreover have "(of_char a mod 4 * 16 + of_char b div 16) mod 16 * 16 +
      (of_char b mod 16 * 4 + of_char c div 64) div 4 = (of_char b :: nat)"
    using of_char_less [of b] of_char_less [of c] by (simp add: less_mult_imp_div_less mult.commute)
  moreover have "(of_char b mod 16 * 4 + of_char c div 64) mod 4 * 64 + of_char c mod 64 = (of_char c :: nat)"
    using of_char_less [of c] by (simp add: less_mult_imp_div_less)
  ultimately show ?case using 4 by (simp add: Let_def)
qed

lemma those_map_Some: "those (map Some xs) = Some xs"
  by (induction xs) auto

lemma b64_decode_encode [simp]: "b64_decode (b64_encode s) = Some s"
proof -
  have "filter (\<lambda>c. c \<noteq> CHR 0x0D \<and> c \<noteq> CHR 0x0A) (map b64_char (sextets s)) = map b64_char (sextets s)"
    using sextets_less by (auto simp: filter_id_conv)
  moreover have "map b64_value (map b64_char (sextets s)) = map Some (sextets s)"
    using sextets_less by simp
  ultimately show ?thesis
    by (simp add: b64_decode_def b64_encode_sextets those_map_Some b64_quanta_sextets
        del: map_map)
qed

end
