(* ===== verification/Strconv.thy ===== *)
theory Strconv
  imports Prelude
begin

section \<open>Strconv: decimal integers (\<open>strconv\<close>, \<open>fmt\<close>'s percent-d)\<close>

definition is_digit :: "char \<Rightarrow> bool" where
  "is_digit c \<longleftrightarrow> byte_in 48 57 c"

definition digit_val :: "char \<Rightarrow> nat" where
  "digit_val c = of_char c - 48"

definition digit_char :: "nat \<Rightarrow> char" where
  "digit_char n = char_of (48 + n)"

definition nat_of_digits :: "string \<Rightarrow> nat" where
  "nat_of_digits s = foldl (\<lambda>n c. 10 * n + digit_val c) 0 s"

text \<open>The decimal numeral of a natural number and of an integer.\<close>

fun nat_digits :: "nat \<Rightarrow> string" where
  "nat_digits n = (if n < 10 then [digit_char n] else nat_digits (n div 10) @ [digit_char (n mod 10)])"

declare nat_digits.simps [simp del]

definition itoa :: "int \<Rightarrow> string" where
  "itoa z = (if z < 0 then CHR ''-'' # nat_digits (nat (- z)) else nat_digits (nat z))"

text \<open>
  \<open>strconv.ParseInt(s, 10, 64)\<close>: an optional sign, decimal digits, and a value that fits.
  A plus sign is accepted too.
\<close>

definition parse_int64 :: "string \<Rightarrow> int option" where
  "parse_int64 s =
     (let (neg, ds) = (case s of [] \<Rightarrow> (False, [])
                       | c # r \<Rightarrow> if c = CHR ''-'' then (True, r)
                                  else if c = CHR ''+'' then (False, r) else (False, s));
          v = (if neg then - int (nat_of_digits ds) else int (nat_of_digits ds))
      in if ds \<noteq> [] \<and> list_all is_digit ds \<and> in_int64 v then Some v else None)"

text \<open>\<open>strconv.Atoi\<close> on a 64-bit platform is \<open>ParseInt(s, 10, 0)\<close>.\<close>

definition atoi :: "string \<Rightarrow> int option" where
  "atoi s = parse_int64 s"

subsection \<open>Lemmas\<close>

lemma is_digit_char [simp]: "n < 10 \<Longrightarrow> is_digit (digit_char n)"
  by (simp add: is_digit_def byte_in_def digit_char_def of_char_of)

lemma digit_val_char [simp]: "n < 10 \<Longrightarrow> digit_val (digit_char n) = n"
  by (simp add: digit_val_def digit_char_def of_char_of)

lemma nat_of_digits_append_one:
  "nat_of_digits (s @ [c]) = 10 * nat_of_digits s + digit_val c"
  by (simp add: nat_of_digits_def)

lemma nat_digits_not_Nil [simp]: "nat_digits n \<noteq> []"
  by (subst nat_digits.simps) simp

lemma nat_digits_all [simp]: "list_all is_digit (nat_digits n)"
proof (induction n rule: nat_digits.induct)
  case (1 n)
  then show ?case by (subst nat_digits.simps) auto
qed

lemma nat_of_digits_nat_digits [simp]: "nat_of_digits (nat_digits n) = n"
proof (induction n rule: nat_digits.induct)
  case (1 n)
  show ?case
  proof (cases "n < 10")
    case True
    then show ?thesis by (subst nat_digits.simps) (simp add: nat_of_digits_def)
  next
    case False
    then show ?thesis
      using 1 by (subst nat_digits.simps) (simp add: nat_of_digits_append_one)
  qed
qed

lemma digit_not_sign: "is_digit c \<Longrightarrow> c \<noteq> CHR ''-'' \<and> c \<noteq> CHR ''+''"
  by (auto simp: is_digit_def byte_in_def)

lemma nat_digits_Cons:
  "\<exists>c r. nat_digits n = c # r \<and> is_digit c"
  using nat_digits_all [of n] by (cases "nat_digits n") auto

lemma parse_int64_digits:
  "ds \<noteq> [] \<Longrightarrow> list_all is_digit ds \<Longrightarrow>
   parse_int64 ds = (if in_int64 (int (nat_of_digits ds)) then Some (int (nat_of_digits ds)) else None)"
  using digit_not_sign by (cases ds) (auto simp: parse_int64_def Let_def)

lemma parse_int64_itoa [simp]: "in_int64 z \<Longrightarrow> parse_int64 (itoa z) = Some z"
  by (cases "z < 0") (auto simp: itoa_def parse_int64_digits, auto simp: parse_int64_def)

lemma itoa_chars: "c \<in> set (itoa z) \<Longrightarrow> is_digit c \<or> c = CHR ''-''"
  using nat_digits_all by (auto simp: itoa_def list_all_iff split: if_splits)

end
