(* ===== verification/Json.thy ===== *)
theory Json
  imports Strconv
begin

section \<open>Json: the part of \<open>encoding/json\<close> the program uses\<close>

text \<open>
  Three layers of \<open>encoding/json\<close>: UTF-8 sequences as \<open>unicode/utf8\<close> decodes them,
  the string literals of \<open>Marshal\<close> (HTML-safe escaping, ill-formed bytes replaced by
  U+FFFD) with their inverse in \<open>Unmarshal\<close>, and a reader for whole values that
  accepts what the scanner of \<open>encoding/json\<close> accepts. A value keeps the literal text
  of a number and the unquoted text of a string.
\<close>

subsection \<open>UTF-8\<close>

text \<open>
  The rune and the width of the well-formed sequence a byte string starts with; \<open>None\<close>
  where \<open>utf8.DecodeRune\<close> returns \<open>(RuneError, 1)\<close>.
\<close>

fun utf8_seq :: "bytes \<Rightarrow> (nat \<times> nat) option" where
  "utf8_seq [] = None"
| "utf8_seq (a # r) =
     (let x = of_char a in
      if x < 0x80 then Some (x, 1)
      else if x < 0xC2 then None
      else if x < 0xE0 then
        (case r of b # _ \<Rightarrow>
           if byte_in 0x80 0xBF b
           then Some ((x - 0xC0) * 64 + (of_char b - 0x80), 2) else None
         | _ \<Rightarrow> None)
      else if x < 0xF0 then
        (case r of b # c # _ \<Rightarrow>
           if byte_in (if x = 0xE0 then 0xA0 else 0x80) (if x = 0xED then 0x9F else 0xBF) b
              \<and> byte_in 0x80 0xBF c
           then Some ((x - 0xE0) * 4096 + (of_char b - 0x80) * 64 + (of_char c - 0x80), 3)
           else None
         | _ \<Rightarrow> None)
      else if x < 0xF5 then
        (case r of b # c # d # _ \<Rightarrow>
           if byte_in (if x = 0xF0 then 0x90 else 0x80) (if x = 0xF4 then 0x8F else 0xBF) b
              \<and> byte_in 0x80 0xBF c \<and> byte_in 0x80 0xBF d
           then Some ((x - 0xF0) * 262144 + (of_char b - 0x80) * 4096
                        + (of_char c - 0x80) * 64 + (of_char d - 0x80), 4)
           else None
         | _ \<Rightarrow> None)
      else None)"

text \<open>\<open>utf8.AppendRune\<close>.\<close>

definition encode_rune :: "nat \<Rightarrow> bytes" where
  "encode_rune r =
     (if r < 0x80 then [char_of r]
      else if r < 0x800 then [char_of (0xC0 + r div 64), char_of (0x80 + r mod 64)]
      else if 0xD800 \<le> r \<and> r < 0xE000 \<or> 0x10FFFF < r
        then [CHR 0xEF, CHR 0xBF, CHR 0xBD]
      else if r < 0x10000
        then [char_of (0xE0 + r div 4096), char_of (0x80 + r div 64 mod 64), char_of (0x80 + r mod 64)]
      else [char_of (0xF0 + r div 262144), char_of (0x80 + r div 4096 mod 64),
            char_of (0x80 + r div 64 mod 64), char_of (0x80 + r mod 64)])"

subsection \<open>String literals\<close>

definition hex_digit :: "nat \<Rightarrow> char" where
  "hex_digit n = ''0123456789abcdef'' ! n"

text \<open>One ASCII byte as \<open>appendString\<close> writes it with HTML escaping on.\<close>

definition escape_ascii :: "char \<Rightarrow> string" where
  "escape_ascii c =
     (if c = CHR 0x5C \<or> c = CHR 0x22 then [CHR 0x5C, c]
      else if c = CHR 0x08 then [CHR 0x5C, CHR ''b'']
      else if c = CHR 0x0C then [CHR 0x5C, CHR ''f'']
      else if c = CHR 0x0A then [CHR 0x5C, CHR ''n'']
      else if c = CHR 0x0D then [CHR 0x5C, CHR ''r'']
      else if c = CHR 0x09 then [CHR 0x5C, CHR ''t'']
      else if (of_char c :: nat) < 0x20 \<or> c = CHR ''<'' \<or> c = CHR ''>'' \<or> c = CHR 0x26
        then [CHR 0x5C, CHR ''u'', CHR ''0'', CHR ''0'',
              hex_digit (of_char c div 16), hex_digit (of_char c mod 16)]
      else [c])"

fun json_escape :: "bytes \<Rightarrow> string" where
  "json_escape [] = []"
| "json_escape (c # cs) =
     (if (of_char c :: nat) < 0x80 then escape_ascii c @ json_escape cs
      else case utf8_seq (c # cs) of
        None \<Rightarrow> [CHR 0x5C, CHR ''u'', CHR ''f'', CHR ''f'', CHR ''f'', CHR ''d''] @ json_escape cs
      | Some (r, n) \<Rightarrow>
          (if r = 0x2028 \<or> r = 0x2029
           then [CHR 0x5C, CHR ''u'', CHR ''2'', CHR ''0'', CHR ''2'', hex_digit (r mod 16)]
           else take n (c # cs)) @ json_escape (drop (n - 1) cs))"

definition json_quote :: "bytes \<Rightarrow> string" where
  "json_quote s = [CHR 0x22] @ json_escape s @ [CHR 0x22]"

definition hex_val :: "char \<Rightarrow> nat option" where
  "hex_val c =
     (if byte_in 48 57 c then Some (of_char c - 48)
      else if byte_in 97 102 c then Some (of_char c - 87)
      else if byte_in 65 70 c then Some (of_char c - 55)
      else None)"

fun hex4 :: "string \<Rightarrow> nat option" where
  "hex4 (a # b # c # d # r) =
     (case (hex_val a, hex_val b, hex_val c, hex_val d) of
        (Some w, Some x, Some y, Some z) \<Rightarrow> Some (w * 4096 + x * 256 + y * 16 + z)
      | _ \<Rightarrow> None)"
| "hex4 _ = None"

text \<open>\<open>getu4\<close>: the value of a \<open>u\<close> escape at the head.\<close>

definition getu4 :: "string \<Rightarrow> nat option" where
  "getu4 s = (if take 2 s = [CHR 0x5C, CHR ''u''] then hex4 (drop 2 s) else None)"

definition unescape_char :: "char \<Rightarrow> char" where
  "unescape_char e =
     (if e = CHR ''b'' then CHR 0x08 else if e = CHR ''f'' then CHR 0x0C
      else if e = CHR ''n'' then CHR 0x0A else if e = CHR ''r'' then CHR 0x0D
      else if e = CHR ''t'' then CHR 0x09 else e)"

text \<open>
  \<open>unquote\<close> on the body of a literal the scanner accepted: escapes are resolved, a pair
  of surrogates is one rune, a lone surrogate and an ill-formed byte become U+FFFD.
\<close>

fun json_unquote :: "string \<Rightarrow> bytes" where
  "json_unquote [] = []"
| "json_unquote (c # cs) =
     (if c = CHR 0x5C then
        (case cs of
           [] \<Rightarrow> []
         | e # r \<Rightarrow>
             if e = CHR ''u'' then
               (let rr = (case hex4 r of Some v \<Rightarrow> v | None \<Rightarrow> 0); r' = drop 4 r in
                if 0xD800 \<le> rr \<and> rr < 0xE000 then
                  (case getu4 r' of
                     Some rr1 \<Rightarrow>
                       if rr < 0xDC00 \<and> 0xDC00 \<le> rr1 \<and> rr1 < 0xE000
                       then encode_rune ((rr - 0xD800) * 1024 + (rr1 - 0xDC00) + 0x10000)
                              @ json_unquote (drop 6 r')
                       else encode_rune 0xFFFD @ json_unquote r'
                   | None \<Rightarrow> encode_rune 0xFFFD @ json_unquote r')
                else encode_rune rr @ json_unquote r')
             else unescape_char e # json_unquote r)
      else if (of_char c :: nat) < 0x80 then c # json_unquote cs
      else (case utf8_seq (c # cs) of
              None \<Rightarrow> encode_rune 0xFFFD @ json_unquote cs
            | Some (r, n) \<Rightarrow> encode_rune r @ json_unquote (drop (n - 1) cs)))"

subsection \<open>Values\<close>

datatype json =
    JNull
  | JBool bool
  | JNum string
  | JStr bytes
  | JArr "json list"
  | JObj "(bytes \<times> json) list"

type_synonym 'a scan = "string \<Rightarrow> ('a \<times> string) option"

definition is_ws :: "char \<Rightarrow> bool" where
  "is_ws c \<longleftrightarrow> c = CHR 0x20 \<or> c = CHR 0x09 \<or> c = CHR 0x0D \<or> c = CHR 0x0A"

definition skip_ws :: "string \<Rightarrow> string" where
  "skip_ws s = dropWhile is_ws s"

text \<open>The body of a string literal, after its opening quote, and what follows the closing one.\<close>

fun scan_string :: "string scan" where
  "scan_string [] = None"
| "scan_string (c # cs) =
     (if c = CHR 0x22 then Some ([], cs)
      else if (of_char c :: nat) < 0x20 then None
      else if c = CHR 0x5C then
        (case cs of
           e # r \<Rightarrow>
             if e = CHR ''u'' then
               (if hex4 r = None then None
                else map_option (\<lambda>(b, t). (c # e # take 4 r @ b, t)) (scan_string (drop 4 r)))
             else if e \<in> set ''bfnrt/'' \<or> e = CHR 0x5C \<or> e = CHR 0x22
               then map_option (\<lambda>(b, t). (c # e # b, t)) (scan_string r)
             else None
         | [] \<Rightarrow> None)
      else map_option (\<lambda>(b, t). (c # b, t)) (scan_string cs))"

definition scan_digits :: "string scan" where
  "scan_digits s =
     (let ds = takeWhile is_digit s
      in if ds = [] then None else Some (ds, dropWhile is_digit s))"

definition scan_int_part :: "string scan" where
  "scan_int_part s =
     (case s of
        [] \<Rightarrow> None
      | c # r \<Rightarrow> if c = CHR ''0'' then Some ([c], r) else scan_digits s)"

definition scan_fraction :: "string scan" where
  "scan_fraction s =
     (case s of
        c # r \<Rightarrow> if c = CHR ''.'' then map_option (\<lambda>(ds, t). (c # ds, t)) (scan_digits r)
                  else Some ([], s)
      | [] \<Rightarrow> Some ([], s))"

definition scan_exponent :: "string scan" where
  "scan_exponent s =
     (case s of
        c # r \<Rightarrow>
          if c = CHR ''e'' \<or> c = CHR ''E'' then
            (let (sg, r') = (case r of d # q \<Rightarrow> if d = CHR ''+'' \<or> d = CHR ''-'' then ([d], q) else ([], r)
                             | [] \<Rightarrow> ([], r))
             in map_option (\<lambda>(ds, t). (c # sg @ ds, t)) (scan_digits r'))
          else Some ([], s)
      | [] \<Rightarrow> Some ([], s))"

definition scan_number :: "string scan" where
  "scan_number s =
     (let (sg, s1) = (case s of c # r \<Rightarrow> if c = CHR ''-'' then ([c], r) else ([], s) | [] \<Rightarrow> ([], s))
      in case scan_int_part s1 of
           None \<Rightarrow> None
         | Some (ip, s2) \<Rightarrow>
             (case scan_fraction s2 of
                None \<Rightarrow> None
              | Some (fp, s3) \<Rightarrow>
                  (case scan_exponent s3 of
                     None \<Rightarrow> None
                   | Some (ep, s4) \<Rightarrow> Some (sg @ ip @ fp @ ep, s4))))"

text \<open>
  A value, the members of an object and the elements of an array. The first argument is
  fuel; \<open>json_parse\<close> gives more of it than any input can use. The second counts the
  open containers: the scanner refuses the 10001st.
\<close>

definition max_nesting :: nat where "max_nesting = 10000"

fun parse_value :: "nat \<Rightarrow> nat \<Rightarrow> json scan"
  and parse_members :: "nat \<Rightarrow> nat \<Rightarrow> (bytes \<times> json) list scan"
  and parse_elems :: "nat \<Rightarrow> nat \<Rightarrow> json list scan" where
  "parse_value 0 d s = None"
| "parse_value (Suc n) d s =
     (case skip_ws s of
        [] \<Rightarrow> None
      | c # r \<Rightarrow>
          if c = CHR 0x22 then map_option (\<lambda>(b, t). (JStr (json_unquote b), t)) (scan_string r)
          else if c = CHR 0x7B then
            (if max_nesting \<le> d then None
             else case skip_ws r of
               [] \<Rightarrow> None
             | c' # r' \<Rightarrow> if c' = CHR 0x7D then Some (JObj [], r')
                          else map_option (\<lambda>(kvs, t). (JObj kvs, t)) (parse_members n (Suc d) r))
          else if c = CHR 0x5B then
            (if max_nesting \<le> d then None
             else case skip_ws r of
               [] \<Rightarrow> None
             | c' # r' \<Rightarrow> if c' = CHR 0x5D then Some (JArr [], r')
                          else map_option (\<lambda>(vs, t). (JArr vs, t)) (parse_elems n (Suc d) r))
          else if has_prefix (c # r) ''true'' then Some (JBool True, drop 4 (c # r))
          else if has_prefix (c # r) ''false'' then Some (JBool False, drop 5 (c # r))
          else if has_prefix (c # r) ''null'' then Some (JNull, drop 4 (c # r))
          else map_option (\<lambda>(b, t). (JNum b, t)) (scan_number (c # r)))"
| "parse_members 0 d s = None"
| "parse_members (Suc n) d s =
     (case skip_ws s of
        [] \<Rightarrow> None
      | c # r \<Rightarrow>
          if c \<noteq> CHR 0x22 then None
          else case scan_string r of
            None \<Rightarrow> None
          | Some (k, r1) \<Rightarrow>
              (case skip_ws r1 of
                 [] \<Rightarrow> None
               | c1 # r2 \<Rightarrow>
                   if c1 \<noteq> CHR '':'' then None
                   else case parse_value n d r2 of
                     None \<Rightarrow> None
                   | Some (v, r3) \<Rightarrow>
                       (case skip_ws r3 of
                          [] \<Rightarrow> None
                        | c3 # r4 \<Rightarrow>
                            if c3 = CHR 0x7D then Some ([(json_unquote k, v)], r4)
                            else if c3 = CHR '','' then
                              map_option (\<lambda>(kvs, t). ((json_unquote k, v) # kvs, t)) (parse_members n d r4)
                            else None)))"
| "parse_elems 0 d s = None"
| "parse_elems (Suc n) d s =
     (case parse_value n d s of
        None \<Rightarrow> None
      | Some (v, r3) \<Rightarrow>
          (case skip_ws r3 of
             [] \<Rightarrow> None
           | c3 # r4 \<Rightarrow>
               if c3 = CHR 0x5D then Some ([v], r4)
               else if c3 = CHR '','' then
                 map_option (\<lambda>(vs, t). (v # vs, t)) (parse_elems n d r4)
               else None))"

definition json_parse :: "string \<Rightarrow> json option" where
  "json_parse s =
     (case parse_value (2 * length s + 2) 0 s of
        None \<Rightarrow> None
      | Some (v, r) \<Rightarrow> if skip_ws r = [] then Some v else None)"

subsection \<open>Well-formed UTF-8\<close>

text \<open>Replacing every ill-formed byte by U+FFFD; a well-formed string is unchanged.\<close>

fun utf8_sanitize :: "bytes \<Rightarrow> bytes" where
  "utf8_sanitize [] = []"
| "utf8_sanitize (c # cs) =
     (case utf8_seq (c # cs) of
        None \<Rightarrow> encode_rune 0xFFFD @ utf8_sanitize cs
      | Some (r, n) \<Rightarrow> take n (c # cs) @ utf8_sanitize (drop (n - 1) cs))"

fun utf8_valid :: "bytes \<Rightarrow> bool" where
  "utf8_valid [] = True"
| "utf8_valid (c # cs) =
     (case utf8_seq (c # cs) of None \<Rightarrow> False | Some (r, n) \<Rightarrow> utf8_valid (drop (n - 1) cs))"

subsection \<open>Printing values\<close>

text \<open>
  \<open>json.Marshal\<close> of a value tree: compact, members in the order of the struct's fields.
\<close>

fun json_print :: "json \<Rightarrow> string" where
  "json_print JNull = ''null''"
| "json_print (JBool b) = (if b then ''true'' else ''false'')"
| "json_print (JNum l) = l"
| "json_print (JStr s) = json_quote s"
| "json_print (JArr vs) = [CHR 0x5B] @ join_with '','' (map json_print vs) @ [CHR 0x5D]"
| "json_print (JObj kvs) =
     [CHR 0x7B] @ join_with '','' (map (\<lambda>(k, v). json_quote k @ '':'' @ json_print v) kvs) @ [CHR 0x7D]"

text \<open>What reading a printed tree gives back: the same tree with its strings made valid UTF-8.\<close>

fun json_norm :: "json \<Rightarrow> json" where
  "json_norm (JStr s) = JStr (utf8_sanitize s)"
| "json_norm (JArr vs) = JArr (map json_norm vs)"
| "json_norm (JObj kvs) = JObj (map (\<lambda>(k, v). (utf8_sanitize k, json_norm v)) kvs)"
| "json_norm v = v"

text \<open>Trees whose numbers are integer literals, with the nesting the scanner accepts.\<close>

fun json_depth :: "json \<Rightarrow> nat" where
  "json_depth (JArr vs) = Suc (foldr (\<lambda>v m. max (json_depth v) m) vs 0)"
| "json_depth (JObj kvs) = Suc (foldr (\<lambda>(k, v) m. max (json_depth v) m) kvs 0)"
| "json_depth _ = 0"

fun json_ints :: "json \<Rightarrow> bool" where
  "json_ints (JNum l) \<longleftrightarrow> (\<exists>z. l = itoa z)"
| "json_ints (JArr vs) \<longleftrightarrow> (\<forall>v \<in> set vs. json_ints v)"
| "json_ints (JObj kvs) \<longleftrightarrow> (\<forall>(k, v) \<in> set kvs. json_ints v)"
| "json_ints _ \<longleftrightarrow> True"

subsection \<open>Structs\<close>

text \<open>
  The key a member is matched under: ASCII letters in upper case, the two runes outside
  ASCII that fold to an ASCII letter (the Kelvin sign and the long s) as that letter. The
  field names of the program are ASCII and distinct under this folding.
\<close>

definition to_upper :: "char \<Rightarrow> char" where
  "to_upper c = (if byte_in 97 122 c then char_of (of_char c - 32 :: nat) else c)"

fun fold_name :: "bytes \<Rightarrow> bytes" where
  "fold_name [] = []"
| "fold_name (c # cs) =
     (if has_prefix (c # cs) [CHR 0xE2, CHR 0x84, CHR 0xAA] then CHR ''K'' # fold_name (drop 2 cs)
      else if has_prefix (c # cs) [CHR 0xC5, CHR 0xBF] then CHR ''S'' # fold_name (drop 1 cs)
      else to_upper c # fold_name cs)"

text \<open>
  Storing one value into a field: \<open>null\<close> leaves it as it is, a value of the wrong kind
  leaves it as it is and is an error. The flag tells that no error was recorded.
\<close>

fun store_string :: "string \<Rightarrow> json \<Rightarrow> string \<times> bool" where
  "store_string cur (JStr s) = (s, True)"
| "store_string cur JNull = (cur, True)"
| "store_string cur _ = (cur, False)"

fun store_int :: "int \<Rightarrow> json \<Rightarrow> int \<times> bool" where
  "store_int cur (JNum l) = (case parse_int64 l of Some z \<Rightarrow> (z, True) | None \<Rightarrow> (cur, False))"
| "store_int cur JNull = (cur, True)"
| "store_int cur _ = (cur, False)"

fun store_bool :: "bool \<Rightarrow> json \<Rightarrow> bool \<times> bool" where
  "store_bool cur (JBool b) = (b, True)"
| "store_bool cur JNull = (cur, True)"
| "store_bool cur _ = (cur, False)"

text \<open>
  \<open>Unmarshal\<close> into a struct: the members in order, each handed to the field its name
  folds to; an error in one member does not stop the others but fails the whole.
\<close>

fun set_members :: "('s \<Rightarrow> bytes \<Rightarrow> json \<Rightarrow> 's \<times> bool) \<Rightarrow> (bytes \<times> json) list \<Rightarrow> 's \<Rightarrow> 's \<times> bool" where
  "set_members f [] s = (s, True)"
| "set_members f ((k, v) # kvs) s =
     (let (s1, ok1) = f s (fold_name k) v; (s2, ok2) = set_members f kvs s1
      in (s2, ok1 \<and> ok2))"

fun unmarshal_struct :: "('s \<Rightarrow> bytes \<Rightarrow> json \<Rightarrow> 's \<times> bool) \<Rightarrow> 's \<Rightarrow> json \<Rightarrow> 's option" where
  "unmarshal_struct f zero JNull = Some zero"
| "unmarshal_struct f zero (JObj kvs) =
     (let (s, ok) = set_members f kvs zero in if ok then Some s else None)"
| "unmarshal_struct f zero _ = None"

definition json_unmarshal :: "('s \<Rightarrow> bytes \<Rightarrow> json \<Rightarrow> 's \<times> bool) \<Rightarrow> 's \<Rightarrow> string \<Rightarrow> 's option" where
  "json_unmarshal f zero raw = Option.bind (json_parse raw) (unmarshal_struct f zero)"

subsection \<open>UTF-8 lemmas\<close>


lemma pack64: "c < 64 \<Longrightarrow> (n * 64 + c) div 64 = n" "c < 64 \<Longrightarrow> (n * 64 + c) mod 64 = (c :: nat)"
  by auto

lemma pack64_2:
  fixes a b c :: nat
  assumes "b < 64" "c < 64"
  shows "(a * 4096 + b * 64 + c) div 4096 = a" "(a * 4096 + b * 64 + c) div 64 = a * 64 + b"
    "(a * 4096 + b * 64 + c) mod 64 = c"
proof -
  have e: "a * 4096 + b * 64 + c = (a * 64 + b) * 64 + c" by simp
  show d: "(a * 4096 + b * 64 + c) div 64 = a * 64 + b" "(a * 4096 + b * 64 + c) mod 64 = c"
    unfolding e using assms by (simp_all only: pack64)
  have "(a * 4096 + b * 64 + c) div (64 * 64) = a"
    unfolding div_mult2_eq d using assms by (simp only: pack64)
  then show "(a * 4096 + b * 64 + c) div 4096 = a" by simp
qed

lemma pack64_3:
  fixes a b c d :: nat
  assumes "b < 64" "c < 64" "d < 64"
  shows "(a * 262144 + b * 4096 + c * 64 + d) div 262144 = a"
    "(a * 262144 + b * 4096 + c * 64 + d) div 4096 mod 64 = b"
    "(a * 262144 + b * 4096 + c * 64 + d) div 64 mod 64 = c"
    "(a * 262144 + b * 4096 + c * 64 + d) mod 64 = d"
proof -
  have e: "a * 262144 + b * 4096 + c * 64 + d = (a * 4096 + b * 64 + c) * 64 + d" by simp
  have d: "(a * 262144 + b * 4096 + c * 64 + d) div 64 = a * 4096 + b * 64 + c"
    unfolding e using assms by (simp only: pack64)
  show "(a * 262144 + b * 4096 + c * 64 + d) mod 64 = d"
    unfolding e using assms by (simp only: pack64)
  show "(a * 262144 + b * 4096 + c * 64 + d) div 64 mod 64 = c"
    unfolding d using assms by (simp only: pack64_2)
  have d2: "(a * 262144 + b * 4096 + c * 64 + d) div (64 * 64) = a * 64 + b"
    unfolding div_mult2_eq d using assms by (simp only: pack64_2)
  then show "(a * 262144 + b * 4096 + c * 64 + d) div 4096 mod 64 = b"
    using assms by (simp add: pack64)
  have "(a * 262144 + b * 4096 + c * 64 + d) div (64 * 64 * 64) = a"
    unfolding div_mult2_eq [of _ "64 * 64"] d2 using assms by (simp only: pack64)
  then show "(a * 262144 + b * 4096 + c * 64 + d) div 262144 = a" by simp
qed

lemma encode_rune_seq2:
  assumes "0xC2 \<le> x" "x < 0xE0" "0x80 \<le> y" "y \<le> (0xBF :: nat)"
  shows "encode_rune ((x - 0xC0) * 64 + (y - 0x80)) = [char_of x, char_of y]"
proof -
  define a b where "a = x - 0xC0" and "b = y - 0x80"
  have ab: "x = 0xC0 + a" "y = 0x80 + b" "2 \<le> a" "a < 32" "b < 64" using assms by (auto simp: a_def b_def)
  then have "(a * 64 + b) div 64 = a" "(a * 64 + b) mod 64 = b" "0x80 \<le> a * 64 + b" "a * 64 + b < 0x800"
    by auto
  then show ?thesis by (simp add: ab encode_rune_def)
qed

lemma encode_rune_seq3:
  assumes "0xE0 \<le> x" "x < 0xF0" "(if x = 0xE0 then 0xA0 else 0x80) \<le> y"
    "y \<le> (if x = 0xED then 0x9F else 0xBF)" "0x80 \<le> z" "z \<le> (0xBF :: nat)"
  shows "encode_rune ((x - 0xE0) * 4096 + (y - 0x80) * 64 + (z - 0x80)) = [char_of x, char_of y, char_of z]"
proof -
  define a b c where "a = x - 0xE0" and "b = y - 0x80" and "c = z - 0x80"
  have abc: "x = 0xE0 + a" "y = 0x80 + b" "z = 0x80 + c" "a < 16" "b < 64" "c < 64"
    "a = 0 \<longrightarrow> 32 \<le> b" "a = 13 \<longrightarrow> b < 32"
    using assms by (auto simp: a_def b_def c_def split: if_splits)
  let ?r = "a * 4096 + b * 64 + c"
  have "0x800 \<le> ?r" using abc(4-8) by (cases "a = 0") linarith+
  moreover have "?r < 0x10000" using abc(4-8) by linarith
  moreover have "\<not> (0xD800 \<le> ?r \<and> ?r < 0xE000)"
  proof -
    consider "a \<le> 12" | "a = 13" | "14 \<le> a" by linarith
    then show ?thesis using abc(5-8) by cases auto
  qed
  moreover have "?r div 4096 = a" "?r div 64 mod 64 = b" "?r mod 64 = c"
    using abc(5,6) by (simp_all only: pack64_2 pack64)
  ultimately show ?thesis by (auto simp: abc(1-3) encode_rune_def)
qed

lemma encode_rune_seq4:
  assumes "0xF0 \<le> x" "x < 0xF5" "(if x = 0xF0 then 0x90 else 0x80) \<le> y"
    "y \<le> (if x = 0xF4 then 0x8F else 0xBF)" "0x80 \<le> z" "z \<le> 0xBF" "0x80 \<le> w" "w \<le> (0xBF :: nat)"
  shows "encode_rune ((x - 0xF0) * 262144 + (y - 0x80) * 4096 + (z - 0x80) * 64 + (w - 0x80))
    = [char_of x, char_of y, char_of z, char_of w]"
proof -
  define a b c d where "a = x - 0xF0" and "b = y - 0x80" and "c = z - 0x80" and "d = w - 0x80"
  have abc: "x = 0xF0 + a" "y = 0x80 + b" "z = 0x80 + c" "w = 0x80 + d" "a < 5" "b < 64" "c < 64" "d < 64"
    "a = 0 \<longrightarrow> 16 \<le> b" "a = 4 \<longrightarrow> b < 16"
    using assms by (auto simp: a_def b_def c_def d_def split: if_splits)
  let ?r = "a * 262144 + b * 4096 + c * 64 + d"
  have "0x10000 \<le> ?r" "?r \<le> 0x10FFFF"
    using abc(5-10) by (cases "a = 0"; cases "a = 4"; auto)+
  moreover have "?r div 262144 = a" "?r div 4096 mod 64 = b" "?r div 64 mod 64 = c" "?r mod 64 = d"
    using abc(6-8) by (simp_all only: pack64_3)
  ultimately show ?thesis by (simp add: abc(1-4) encode_rune_def)
qed

lemma byte_in_of_char: "byte_in lo hi c \<Longrightarrow> lo \<le> of_char c \<and> of_char c \<le> hi"
  by (simp add: byte_in_def)

text \<open>What a well-formed head looks like.\<close>

lemma utf8_seq_cases:
  assumes "utf8_seq (c # cs) = Some (r, n)"
  obtains (one) "(of_char c :: nat) < 0x80" "r = of_char c" "n = 1"
  | (two) b t where "cs = b # t" "n = 2" "0xC2 \<le> (of_char c :: nat)" "(of_char c :: nat) < 0xE0"
      "byte_in 0x80 0xBF b" "r = (of_char c - 0xC0) * 64 + (of_char b - 0x80)"
  | (three) b d t where "cs = b # d # t" "n = 3" "0xE0 \<le> (of_char c :: nat)" "(of_char c :: nat) < 0xF0"
      "byte_in (if (of_char c :: nat) = 0xE0 then 0xA0 else 0x80)
         (if (of_char c :: nat) = 0xED then 0x9F else 0xBF) b" "byte_in 0x80 0xBF d"
      "r = (of_char c - 0xE0) * 4096 + (of_char b - 0x80) * 64 + (of_char d - 0x80)"
  | (four) b d e t where "cs = b # d # e # t" "n = 4" "0xF0 \<le> (of_char c :: nat)" "(of_char c :: nat) < 0xF5"
      "byte_in (if (of_char c :: nat) = 0xF0 then 0x90 else 0x80)
         (if (of_char c :: nat) = 0xF4 then 0x8F else 0xBF) b" "byte_in 0x80 0xBF d" "byte_in 0x80 0xBF e"
      "r = (of_char c - 0xF0) * 262144 + (of_char b - 0x80) * 4096 + (of_char d - 0x80) * 64
             + (of_char e - 0x80)"
  using assms by (auto simp: Let_def not_less split: if_splits list.splits)

lemma byte_in_high: "byte_in lo hi c \<Longrightarrow> 0x80 \<le> lo \<Longrightarrow> 0x80 \<le> (of_char c :: nat)"
  by (auto simp: byte_in_def)

lemma utf8_seq_encode:
  assumes "utf8_seq (c # cs) = Some (r, n)"
  shows "encode_rune r = take n (c # cs)"
  using assms
proof (cases rule: utf8_seq_cases)
  case one
  then show ?thesis by (simp add: encode_rune_def)
next
  case two
  then show ?thesis
    using encode_rune_seq2 [of "of_char c" "of_char b" for b] by (auto simp: byte_in_def)
next
  case (three b d t)
  then show ?thesis
    using encode_rune_seq3 [of "of_char c" "of_char b" "of_char d"] by (simp add: byte_in_def)
next
  case (four b d e t)
  then show ?thesis
    using encode_rune_seq4 [of "of_char c" "of_char b" "of_char d" "of_char e"] by (simp add: byte_in_def)
qed

lemma utf8_seq_width:
  "utf8_seq (c # cs) = Some (r, n) \<Longrightarrow> 1 \<le> n \<and> n \<le> Suc (length cs)"
  by (erule utf8_seq_cases) auto

lemma utf8_seq_take:
  assumes "utf8_seq (c # cs) = Some (r, n)"
  shows "utf8_seq (take n (c # cs) @ t) = Some (r, n)"
  using assms
proof (cases rule: utf8_seq_cases)
  case (three b d t)
  then show ?thesis using assms by (simp add: Let_def)
next
  case (four b d e t)
  then show ?thesis using assms by (simp add: Let_def)
qed (use assms in \<open>auto simp: Let_def\<close>)

lemma utf8_seq_high:
  assumes "utf8_seq (c # cs) = Some (r, n)" and "\<not> (of_char c :: nat) < 0x80"
  shows "\<forall>x \<in> set (take n (c # cs)). 0x80 \<le> (of_char x :: nat)"
  using assms(1)
proof (cases rule: utf8_seq_cases)
  case (three b d t)
  then show ?thesis using byte_in_high [of _ _ b] byte_in_high [of _ _ d] by (auto split: if_splits)
next
  case (four b d e t)
  then show ?thesis
    using byte_in_high [of _ _ b] byte_in_high [of _ _ d] byte_in_high [of _ _ e] by (auto split: if_splits)
qed (use assms in \<open>auto dest: byte_in_high\<close>)

lemma utf8_sanitize_valid: "utf8_valid s \<Longrightarrow> utf8_sanitize s = s"
proof (induction s rule: utf8_valid.induct)
  case (2 c cs)
  then obtain r n where n: "utf8_seq (c # cs) = Some (r, n)" "utf8_valid (drop (n - 1) cs)"
    by (auto simp del: utf8_seq.simps split: option.splits)
  with 2 have "utf8_sanitize (drop (n - 1) cs) = drop (n - 1) cs" by simp
  moreover have "take n (c # cs) @ drop (n - 1) cs = c # cs"
    using utf8_seq_width [OF n(1)] by (cases n) auto
  ultimately show ?case using n(1) by (simp del: utf8_seq.simps)
qed simp

lemma utf8_valid_ascii: "\<forall>c \<in> set s. (of_char c :: nat) < 0x80 \<Longrightarrow> utf8_valid s"
  by (induction s) (auto simp: Let_def)

declare utf8_seq.simps [simp del]

subsection \<open>A literal reads back\<close>


lemma hex_table: "list_all (\<lambda>k. hex_val (hex_digit k) = Some k) [0..<16]"
  by code_simp

lemma hex_val_digit [simp]: "k < 16 \<Longrightarrow> hex_val (hex_digit k) = Some k"
  using hex_table by (auto simp: list_all_iff)

lemma hex_val_0 [simp]: "hex_val (CHR ''0'') = Some 0"
  by (simp add: hex_val_def byte_in_def)

lemma hex4_Cons4 [simp del]: "hex4 (a # b # c # d # w) = hex4 [a, b, c, d]"
  by simp

lemma unquote_u:
  assumes "hex4 [a, b, c, d] = Some rr" and "\<not> (0xD800 \<le> rr \<and> rr < 0xE000)"
  shows "json_unquote (CHR 0x5C # CHR ''u'' # a # b # c # d # w) = encode_rune rr @ json_unquote w"
  using assms hex4_Cons4 [of a b c d w] by (auto simp: Let_def simp del: hex4.simps)

lemma hex_digit_8_9: "hex_digit 8 = CHR ''8''" "hex_digit 9 = CHR ''9''"
  by (simp_all add: hex_digit_def)

lemma hex4_lits:
  "hex4 [CHR ''f'', CHR ''f'', CHR ''f'', CHR ''d''] = Some 0xFFFD"
  "hex4 [CHR ''2'', CHR ''0'', CHR ''2'', CHR ''8''] = Some 0x2028"
  "hex4 [CHR ''2'', CHR ''0'', CHR ''2'', CHR ''9''] = Some 0x2029"
  by (simp_all add: hex_val_def byte_in_def)

lemma unquote_escape_ascii:
  assumes "(of_char c :: nat) < 0x80"
  shows "json_unquote (escape_ascii c @ w) = c # json_unquote w"
proof -
  have e: "encode_rune (of_char c) = [c]" using assms by (simp add: encode_rune_def)
  have h: "(of_char c div 16 :: nat) < 16" "(of_char c mod 16 :: nat) < 16" using assms by auto
  have "hex4 (CHR ''0'' # CHR ''0'' # hex_digit (of_char c div 16) # hex_digit (of_char c mod 16) # w)
      = Some (of_char c)"
    using h by simp
  then show ?thesis
    using assms e by (auto simp: escape_ascii_def unescape_char_def Let_def simp del: hex4.simps)
qed

lemma unquote_seq:
  assumes "utf8_seq (c # cs) = Some (r, n)" and "\<not> (of_char c :: nat) < 0x80"
  shows "json_unquote (take n (c # cs) @ w) = take n (c # cs) @ json_unquote w"
proof -
  from utf8_seq_width [OF assms(1)] obtain m where m: "n = Suc m" "m \<le> length cs"
    by (cases n) auto
  have "utf8_seq (c # take m cs @ w) = Some (r, n)"
    using utf8_seq_take [OF assms(1), of w] m by simp
  moreover have "c \<noteq> CHR 0x5C" using assms(2) by auto
  ultimately show ?thesis
    using assms(2) m utf8_seq_encode [OF assms(1)] by simp
qed

lemma unquote_escape: "json_unquote (json_escape s) = utf8_sanitize s"
proof (induction s rule: json_escape.induct)
  case 1
  then show ?case by simp
next
  case (2 c cs)
  show ?case
  proof (cases "(of_char c :: nat) < 0x80")
    case True
    then have "utf8_seq (c # cs) = Some (of_char c, 1)" by (simp add: utf8_seq.simps)
    with True 2 show ?thesis by (simp add: unquote_escape_ascii)
  next
    case high: False
    show ?thesis
    proof (cases "utf8_seq (c # cs)")
      case None
      have "json_unquote ([CHR 0x5C, CHR ''u'', CHR ''f'', CHR ''f'', CHR ''f'', CHR ''d''] @ w)
          = encode_rune 0xFFFD @ json_unquote w" for w
        using unquote_u [OF hex4_lits(1), of w] by (simp del: json_unquote.simps hex4.simps)
      note r = this
      from None high 2 have IH: "json_unquote (json_escape cs) = utf8_sanitize cs" by simp
      have "json_escape (c # cs) =
          [CHR 0x5C, CHR ''u'', CHR ''f'', CHR ''f'', CHR ''f'', CHR ''d''] @ json_escape cs"
        using None high by simp
      then have "json_unquote (json_escape (c # cs)) = encode_rune 0xFFFD @ utf8_sanitize cs"
        by (simp only: r IH)
      with None show ?thesis by simp
    next
      case (Some rn)
      obtain r n where rn: "rn = (r, n)" by (cases rn)
      with Some have seq: "utf8_seq (c # cs) = Some (r, n)" by simp
      have IH: "json_unquote (json_escape (drop (n - 1) cs)) = utf8_sanitize (drop (n - 1) cs)"
        using 2 high seq by simp
      show ?thesis
      proof (cases "r = 0x2028 \<or> r = 0x2029")
        case True
        have "json_unquote ([CHR 0x5C, CHR ''u'', CHR ''2'', CHR ''0'', CHR ''2'', hex_digit (r mod 16)] @ w)
          = encode_rune r @ json_unquote w" for w
          using True unquote_u [OF hex4_lits(2), of w] unquote_u [OF hex4_lits(3), of w]
          by (elim disjE) (simp_all add: hex_digit_8_9 del: json_unquote.simps hex4.simps)
        note r = this
        have "json_escape (c # cs) =
            [CHR 0x5C, CHR ''u'', CHR ''2'', CHR ''0'', CHR ''2'', hex_digit (r mod 16)]
              @ json_escape (drop (n - 1) cs)"
          using True high seq by auto
        then have "json_unquote (json_escape (c # cs)) = encode_rune r @ utf8_sanitize (drop (n - 1) cs)"
          by (simp only: r IH)
        with seq utf8_seq_encode [OF seq] show ?thesis by simp
      next
        case False
        with high seq IH unquote_seq [OF seq high] show ?thesis by simp
      qed
    qed
  qed
qed

lemma scan_string_high:
  "\<forall>x \<in> set u. 0x80 \<le> (of_char x :: nat) \<Longrightarrow>
   scan_string (u @ w) = map_option (\<lambda>(b, t). (u @ b, t)) (scan_string w)"
proof (induction u)
  case Nil
  then show ?case by (simp add: option.map_ident case_prod_beta)
next
  case (Cons x u)
  then have "x \<noteq> CHR 0x22" "x \<noteq> CHR 0x5C" "\<not> (of_char x :: nat) < 0x20" by auto
  with Cons show ?case by (simp add: option.map_comp comp_def case_prod_beta)
qed

lemma scan_escape_ascii:
  assumes "(of_char c :: nat) < 0x80"
  shows "scan_string (escape_ascii c @ w) = map_option (\<lambda>(b, t). (escape_ascii c @ b, t)) (scan_string w)"
proof -
  have h: "(of_char c div 16 :: nat) < 16" "(of_char c mod 16 :: nat) < 16" using assms by auto
  then show ?thesis
    by (auto simp: escape_ascii_def option.map_comp comp_def case_prod_beta)
qed

lemma scan_string_u:
  assumes "hex4 (take 4 h) \<noteq> None" and "length h = 4"
  shows "scan_string (CHR 0x5C # CHR ''u'' # h @ w) =
    map_option (\<lambda>(b, t). (CHR 0x5C # CHR ''u'' # h @ b, t)) (scan_string w)"
proof -
  from assms(2) obtain a b c d where h: "h = [a, b, c, d]"
    by (auto simp: length_Suc_conv numeral_eq_Suc)
  with assms(1) show ?thesis
    using hex4_Cons4 [of a b c d w] by (auto simp del: hex4.simps)
qed

lemma scan_escape_gen:
  "scan_string (json_escape s @ w) = map_option (\<lambda>(b, t). (json_escape s @ b, t)) (scan_string w)"
proof (induction s arbitrary: w rule: json_escape.induct)
  case 1
  then show ?case by (simp add: option.map_ident case_prod_beta)
next
  case (2 c cs)
  show ?case
  proof (cases "(of_char c :: nat) < 0x80")
    case True
    with 2 show ?thesis by (simp add: scan_escape_ascii option.map_comp comp_def case_prod_beta)
  next
    case high: False
    show ?thesis
    proof (cases "utf8_seq (c # cs)")
      case None
      with high have e: "json_escape (c # cs) =
          CHR 0x5C # CHR ''u'' # ''fffd'' @ json_escape cs" by simp
      have "scan_string (CHR 0x5C # CHR ''u'' # ''fffd'' @ u) =
          map_option (\<lambda>(b, t). (CHR 0x5C # CHR ''u'' # ''fffd'' @ b, t)) (scan_string u)" for u
        by (rule scan_string_u) (simp_all add: hex4_lits del: hex4.simps)
      with None high 2 show ?thesis unfolding e append_Cons append_assoc
        by (simp add: option.map_comp comp_def case_prod_beta del: scan_string.simps)
    next
      case (Some rn)
      obtain r n where rn: "rn = (r, n)" by (cases rn)
      with Some have seq: "utf8_seq (c # cs) = Some (r, n)" by simp
      note IH = 2(3) [OF high seq refl]
      show ?thesis
      proof (cases "r = 0x2028 \<or> r = 0x2029")
        case True
        then have e: "json_escape (c # cs) =
            CHR 0x5C # CHR ''u'' # [CHR ''2'', CHR ''0'', CHR ''2'', hex_digit (r mod 16)]
              @ json_escape (drop (n - 1) cs)"
          using high seq by auto
        have "scan_string (CHR 0x5C # CHR ''u'' # [CHR ''2'', CHR ''0'', CHR ''2'', hex_digit (r mod 16)] @ u) =
            map_option (\<lambda>(b, t). (CHR 0x5C # CHR ''u'' #
              [CHR ''2'', CHR ''0'', CHR ''2'', hex_digit (r mod 16)] @ b, t)) (scan_string u)" for u
          by (rule scan_string_u) (use True in \<open>auto simp: hex_digit_8_9 hex4_lits simp del: hex4.simps\<close>)
        with IH show ?thesis unfolding e append_Cons append_assoc
          by (simp add: option.map_comp comp_def case_prod_beta del: scan_string.simps)
      next
        case False
        with high seq 2 scan_string_high [OF utf8_seq_high [OF seq high]] show ?thesis
          by (simp add: option.map_comp comp_def case_prod_beta)
      qed
    qed
  qed
qed

lemma scan_escape [simp]: "scan_string (json_escape s @ CHR 0x22 # t) = Some (json_escape s, t)"
  by (simp add: scan_escape_gen)

subsection \<open>The fuel is enough\<close>

lemma length_skip_ws: "length (skip_ws s) \<le> length s"
  by (simp add: skip_ws_def length_dropWhile_le)

lemma skip_ws_ConsD: "skip_ws s = c # r \<Longrightarrow> length r < length s"
  using length_skip_ws [of s] by simp

lemma scan_string_length: "scan_string s = Some (b, t) \<Longrightarrow> length t < length s"
proof (induction s arbitrary: b t rule: scan_string.induct)
  case (2 c cs)
  then show ?case
    by (auto split: if_splits list.splits simp del: hex4.simps) fastforce+
qed simp

lemma scan_digits_length: "scan_digits s = Some (b, t) \<Longrightarrow> length t \<le> length s"
  by (auto simp: scan_digits_def Let_def length_dropWhile_le split: if_splits)

lemma scan_int_part_length: "scan_int_part s = Some (b, t) \<Longrightarrow> length t \<le> length s"
  by (auto simp: scan_int_part_def dest: scan_digits_length split: list.splits if_splits)

lemma scan_fraction_length: "scan_fraction s = Some (b, t) \<Longrightarrow> length t \<le> length s"
  by (auto simp: scan_fraction_def dest: scan_digits_length split: list.splits if_splits)

lemma scan_exponent_length: "scan_exponent s = Some (b, t) \<Longrightarrow> length t \<le> length s"
  by (auto simp: scan_exponent_def Let_def dest: scan_digits_length split: list.splits if_splits)

lemma scan_number_length: "scan_number s = Some (b, t) \<Longrightarrow> length t \<le> length s"
  by (auto simp: scan_number_def Let_def split: list.splits if_splits option.splits
      dest!: scan_int_part_length scan_fraction_length scan_exponent_length)

lemma parse_length:
  "parse_value n d s = Some (v, t) \<Longrightarrow> length t \<le> length s"
  "parse_members n d s = Some (kvs, t) \<Longrightarrow> length t \<le> length s"
  "parse_elems n d s = Some (vs, t) \<Longrightarrow> length t \<le> length s"
proof (induction n d s and n d s and n d s arbitrary: v t and kvs t and vs t
    rule: parse_value_parse_members_parse_elems.induct)
  case (2 n d s)
  then show ?case
    by (auto split: list.splits if_splits simp del: scan_string.simps
        dest!: skip_ws_ConsD scan_string_length scan_number_length) fastforce+
next
  case (4 n d s)
  then show ?case
    by (auto split: list.splits if_splits option.splits simp del: scan_string.simps
        dest!: skip_ws_ConsD scan_string_length) fastforce+
next
  case (6 n d s)
  then show ?case
    by (auto split: list.splits if_splits option.splits simp del: scan_string.simps
        dest!: skip_ws_ConsD) fastforce+
qed auto

lemma parse_fuel:
  "2 * length s < n \<Longrightarrow> n \<le> m \<Longrightarrow> parse_value m d s = parse_value n d s"
  "2 * length s + 1 < n \<Longrightarrow> n \<le> m \<Longrightarrow> parse_members m d s = parse_members n d s"
  "2 * length s + 1 < n \<Longrightarrow> n \<le> m \<Longrightarrow> parse_elems m d s = parse_elems n d s"
proof (induction n arbitrary: m d s)
  case (Suc n)
  {
    case 1
    then obtain m' where m: "m = Suc m'" "n \<le> m'" by (cases m) auto
    show ?case
    proof (cases "skip_ws s")
      case (Cons c r)
      from skip_ws_ConsD [OF this] 1 have r: "2 * length r + 1 < n" by simp
      have e: "parse_members m' (Suc d) r = parse_members n (Suc d) r"
        "parse_elems m' (Suc d) r = parse_elems n (Suc d) r"
        using Suc.IH r m by blast+
      show ?thesis unfolding m(1) parse_value.simps Cons list.case e ..
    qed (use m in simp)
  next
    case 2
    then obtain m' where m: "m = Suc m'" "n \<le> m'" by (cases m) auto
    have v: "parse_value m' d r2 = parse_value n d r2" if "length r2 < length s" for r2
      using Suc.IH(1) [of r2 m' d] that m 2 by simp
    have k: "parse_members m' d r4 = parse_members n d r4" if "length r4 < length s" for r4
      using Suc.IH(2) [of r4 m' d] that m 2 by simp
    show ?case unfolding m(1) parse_members.simps
      by (intro list.case_cong if_cong option.case_cong prod.case_cong refl arg_cong [of _ _ "map_option _"])
         (auto dest!: skip_ws_ConsD scan_string_length parse_length simp: v k)
  next
    case 3
    then obtain m' where m: "m = Suc m'" "n \<le> m'" by (cases m) auto
    have v: "parse_value m' d s = parse_value n d s"
      using Suc.IH(1) [of s m' d] m 3 by simp
    have k: "parse_elems m' d r4 = parse_elems n d r4" if "length r4 < length s" for r4
      using Suc.IH(3) [of r4 m' d] that m 3 by simp
    show ?case unfolding m(1) parse_elems.simps v
      by (intro list.case_cong if_cong option.case_cong prod.case_cong refl arg_cong [of _ _ "map_option _"])
         (auto dest!: skip_ws_ConsD parse_length simp: k)
  }
qed auto

subsection \<open>A value reads back\<close>

text \<open>What may follow a number without becoming part of it.\<close>

definition ends_token :: "string \<Rightarrow> bool" where
  "ends_token t \<longleftrightarrow> (case t of [] \<Rightarrow> True
     | c # _ \<Rightarrow> \<not> is_digit c \<and> c \<noteq> CHR ''.'' \<and> c \<noteq> CHR ''e'' \<and> c \<noteq> CHR ''E'')"


lemma digit_not_ws: "is_digit c \<Longrightarrow> \<not> is_ws c"
  by (auto simp: is_digit_def is_ws_def byte_in_def)

lemma nat_digits_head:
  "\<exists>c r. nat_digits n = c # r \<and> is_digit c \<and> (c = CHR ''0'' \<longleftrightarrow> n = 0) \<and> (n = 0 \<longrightarrow> r = [])"
proof (induction n rule: nat_digits.induct)
  case (1 n)
  show ?case
  proof (cases "n < 10")
    case True
    have z: "digit_char 0 = CHR ''0''" by code_simp
    have "digit_char n = CHR ''0'' \<longleftrightarrow> n = 0"
      using digit_val_char [OF True] digit_val_char [of 0] z by force
    with True show ?thesis by (subst nat_digits.simps) simp
  next
    case False
    with 1 obtain c r where "nat_digits (n div 10) = c # r" "is_digit c" "c \<noteq> CHR ''0''"
      by (auto simp: div_eq_0_iff)
    with False show ?thesis by (subst nat_digits.simps) simp
  qed
qed

lemma take_drop_digits:
  "list_all is_digit ds \<Longrightarrow> ends_token t \<Longrightarrow>
   takeWhile is_digit (ds @ t) = ds \<and> dropWhile is_digit (ds @ t) = t"
  by (induction ds) (auto simp: ends_token_def split: list.splits)

lemma scan_int_part_digits:
  assumes "ends_token t"
  shows "scan_int_part (nat_digits n @ t) = Some (nat_digits n, t)"
proof -
  obtain c r where c: "nat_digits n = c # r" "is_digit c" "c = CHR ''0'' \<longleftrightarrow> n = 0" "n = 0 \<longrightarrow> r = []"
    using nat_digits_head by blast
  then show ?thesis
    using take_drop_digits [OF nat_digits_all assms, of n]
    by (auto simp: scan_int_part_def scan_digits_def Let_def)
qed

lemma scan_tail: "ends_token t \<Longrightarrow> scan_fraction t = Some ([], t) \<and> scan_exponent t = Some ([], t)"
  by (auto simp: scan_fraction_def scan_exponent_def ends_token_def split: list.splits)

lemma scan_number_nat:
  assumes "ends_token t"
  shows "scan_number (nat_digits n @ t) = Some (nat_digits n, t)"
proof -
  obtain c r where c: "nat_digits n = c # r" "is_digit c" using nat_digits_head by blast
  then have "c \<noteq> CHR ''-''" using digit_not_sign by blast
  with c scan_int_part_digits [OF assms, of n] scan_tail [OF assms] show ?thesis
    by (simp add: scan_number_def)
qed

lemma scan_number_itoa:
  assumes "ends_token t"
  shows "scan_number (itoa z @ t) = Some (itoa z, t)"
proof (cases "z < 0")
  case True
  then show ?thesis
    using scan_int_part_digits [OF assms] scan_tail [OF assms] by (simp add: itoa_def scan_number_def)
qed (simp add: itoa_def scan_number_nat [OF assms])

lemma itoa_head: "\<exists>c r. itoa z = c # r \<and> (is_digit c \<or> c = CHR ''-'')"
  using nat_digits_Cons [of "nat z"] by (auto simp: itoa_def)

lemma parse_value_num:
  assumes "ends_token t"
  shows "parse_value (Suc n) d (itoa z @ t) = Some (JNum (itoa z), t)"
proof -
  obtain c r where c: "itoa z = c # r" "is_digit c \<or> c = CHR ''-''" using itoa_head by blast
  then have "\<not> is_ws c" "c \<notin> {CHR 0x22, CHR 0x7B, CHR 0x5B, CHR ''t'', CHR ''f'', CHR ''n''}"
    using digit_not_ws by (auto simp: is_ws_def is_digit_def byte_in_def)
  with c(1) scan_number_itoa [OF assms, of z] show ?thesis by (simp add: skip_ws_def)
qed

lemma parse_value_str: "parse_value (Suc n) d (json_quote s @ t) = Some (JStr (utf8_sanitize s), t)"
  by (simp add: json_quote_def skip_ws_def is_ws_def unquote_escape del: scan_string.simps)

lemma ends_token_close: "ends_token (CHR '','' # t)" "ends_token (CHR 0x7D # t)" "ends_token (CHR 0x5D # t)"
    "ends_token []"
  by (auto simp: ends_token_def is_digit_def byte_in_def)

text \<open>Elements and members, given that each value reads back.\<close>

definition reads :: "json \<Rightarrow> bool" where
  "reads v \<longleftrightarrow> (\<forall>d t. d + json_depth v \<le> max_nesting \<longrightarrow> ends_token t \<longrightarrow>
     (\<exists>N. \<forall>n \<ge> N. parse_value n d (json_print v @ t) = Some (json_norm v, t)))"

lemma readsD:
  "reads v \<Longrightarrow> d + json_depth v \<le> max_nesting \<Longrightarrow> ends_token t \<Longrightarrow>
   \<exists>N. \<forall>n \<ge> N. parse_value n d (json_print v @ t) = Some (json_norm v, t)"
  by (simp add: reads_def)

lemma depth_max: "d + max a b \<le> (m :: nat) \<longleftrightarrow> d + a \<le> m \<and> d + b \<le> m"
  by (simp add: nat_add_max_right)

lemma parse_elems_print:
  assumes "vs \<noteq> []" and "\<forall>v \<in> set vs. reads v"
    and "d + foldr (\<lambda>v m. max (json_depth v) m) vs 0 \<le> max_nesting"
  shows "\<exists>N. \<forall>n \<ge> N. parse_elems n d (join_with '','' (map json_print vs) @ [CHR 0x5D] @ t)
    = Some (map json_norm vs, t)"
  using assms
proof (induction vs)
  case (Cons v vs)
  show ?case
  proof (cases vs)
    case Nil
    from Cons.prems obtain N where N:
      "\<forall>n \<ge> N. parse_value n d (json_print v @ CHR 0x5D # t) = Some (json_norm v, CHR 0x5D # t)"
      using readsD [of v d "CHR 0x5D # t"] by (auto simp: ends_token_close depth_max)
    have "parse_elems n d (json_print v @ CHR 0x5D # t) = Some ([json_norm v], t)" if "Suc N \<le> n" for n
      using that N by (cases n) (auto simp: skip_ws_def is_ws_def)
    with Nil show ?thesis by auto
  next
    case (Cons w ws)
    let ?u = "join_with '','' (map json_print vs) @ [CHR 0x5D] @ t"
    from Cons.prems Cons.IH Cons obtain M where M:
      "\<forall>n \<ge> M. parse_elems n d ?u = Some (map json_norm vs, t)" by (auto simp: depth_max)
    from Cons.prems obtain N where N:
      "\<forall>n \<ge> N. parse_value n d (json_print v @ CHR '','' # ?u) = Some (json_norm v, CHR '','' # ?u)"
      using readsD [of v d "CHR '','' # ?u"] by (auto simp: ends_token_close depth_max)
    have "parse_elems n d (json_print v @ CHR '','' # ?u) = Some (map json_norm (v # vs), t)"
      if "Suc (max N M) \<le> n" for n
      using that N M by (cases n) (auto simp: skip_ws_def is_ws_def)
    with Cons show ?thesis by (intro exI [of _ "Suc (max N M)"]) simp
  qed
qed simp

lemma parse_members_print:
  assumes "kvs \<noteq> []" and "\<forall>(k, v) \<in> set kvs. reads v"
    and "d + foldr (\<lambda>(k, v) m. max (json_depth v) m) kvs 0 \<le> max_nesting"
  shows "\<exists>N. \<forall>n \<ge> N. parse_members n d
      (join_with '','' (map (\<lambda>(k, v). json_quote k @ '':'' @ json_print v) kvs) @ [CHR 0x7D] @ t)
    = Some (map (\<lambda>(k, v). (utf8_sanitize k, json_norm v)) kvs, t)"
  using assms
proof (induction kvs)
  case (Cons kv kvs)
  obtain k v where kv: "kv = (k, v)" by (cases kv)
  have step: "parse_members (Suc n) d (json_quote k @ '':'' @ json_print v @ c # u) =
      (if c = CHR 0x7D then Some ([(utf8_sanitize k, json_norm v)], u)
       else if c = CHR '','' then
         map_option (\<lambda>(kvs, t). ((utf8_sanitize k, json_norm v) # kvs, t)) (parse_members n d u)
       else None)"
    if "parse_value n d (json_print v @ c # u) = Some (json_norm v, c # u)"
      and "\<not> is_ws c" for n c u
    using that by (simp add: json_quote_def skip_ws_def is_ws_def [of "CHR 0x22"]
        is_ws_def [of "CHR '':''"] unquote_escape del: scan_string.simps)
  have d: "d + json_depth v \<le> max_nesting"
    "d + foldr (\<lambda>(k, v) m. max (json_depth v) m) kvs 0 \<le> max_nesting"
    using Cons.prems(3) kv by (auto simp: depth_max)
  have rv: "reads v" using Cons.prems(2) kv by simp
  show ?case
  proof (cases kvs)
    case Nil
    from readsD [OF rv d(1) ends_token_close(2)] obtain N where N:
      "\<forall>n \<ge> N. parse_value n d (json_print v @ CHR 0x7D # t) = Some (json_norm v, CHR 0x7D # t)"
      by blast
    have "parse_members n d (json_quote k @ '':'' @ json_print v @ CHR 0x7D # t)
        = Some ([(utf8_sanitize k, json_norm v)], t)" if "Suc N \<le> n" for n
      using that N step [of "n - 1" "CHR 0x7D" t] by (cases n) (auto simp: is_ws_def)
    with Nil kv show ?thesis by auto
  next
    case (Cons w ws)
    let ?u = "join_with '','' (map (\<lambda>(k, v). json_quote k @ '':'' @ json_print v) kvs) @ [CHR 0x7D] @ t"
    from Cons.prems Cons.IH d Cons obtain M where M:
      "\<forall>n \<ge> M. parse_members n d ?u = Some (map (\<lambda>(k, v). (utf8_sanitize k, json_norm v)) kvs, t)"
      by auto
    from readsD [OF rv d(1) ends_token_close(1)] obtain N where N:
      "\<forall>n \<ge> N. parse_value n d (json_print v @ CHR '','' # ?u) = Some (json_norm v, CHR '','' # ?u)"
      by blast
    have "parse_members n d (json_quote k @ '':'' @ json_print v @ CHR '','' # ?u)
        = Some (map (\<lambda>(k, v). (utf8_sanitize k, json_norm v)) (kv # kvs), t)"
      if "Suc (max N M) \<le> n" for n
      using that N M step [of "n - 1" "CHR '',''" ?u] kv by (cases n) (auto simp: is_ws_def)
    with Cons kv show ?thesis by (intro exI [of _ "Suc (max N M)"]) simp
  qed
qed simp

lemma parse_literals:
  "parse_value (Suc n) d (''null'' @ t) = Some (JNull, t)"
  "parse_value (Suc n) d (''true'' @ t) = Some (JBool True, t)"
  "parse_value (Suc n) d (''false'' @ t) = Some (JBool False, t)"
  by (simp_all add: skip_ws_def is_ws_def)

lemma from_one: "(\<And>n. P (Suc n)) \<Longrightarrow> \<exists>N. \<forall>n \<ge> N. P n"
  by (rule exI [of _ 1]) (auto simp: Suc_le_eq gr0_conv_Suc)

lemma readsI:
  "(\<And>n d t. ends_token t \<Longrightarrow> parse_value (Suc n) d (json_print v @ t) = Some (json_norm v, t)) \<Longrightarrow> reads v"
  unfolding reads_def by (intro allI impI from_one)

lemma parse_value_close: "skip_ws s = CHR 0x5D # r \<Longrightarrow> parse_value n d s = None"
  by (cases n) (simp_all add: scan_number_def scan_int_part_def scan_digits_def is_digit_def byte_in_def)

lemma parse_value_Nil: "skip_ws s = [] \<Longrightarrow> parse_value n d s = None"
  by (cases n) simp_all

lemma parse_elems_head:
  assumes "parse_elems n d s = Some x"
  shows "\<exists>c r. skip_ws s = c # r \<and> c \<noteq> CHR 0x5D"
proof (rule ccontr)
  assume "\<nexists>c r. skip_ws s = c # r \<and> c \<noteq> CHR 0x5D"
  then have "parse_value (n - 1) d s = None"
    using parse_value_close parse_value_Nil by (metis neq_Nil_conv)
  with assms show False by (cases n) simp_all
qed

lemma parse_members_head:
  assumes "parse_members n d s = Some x"
  shows "\<exists>c r. skip_ws s = c # r \<and> c \<noteq> CHR 0x7D"
  using assms by (cases n) (auto split: list.splits if_splits)

lemma parse_arr:
  assumes "parse_elems n (Suc d) u = Some (vs, t)" and "d < max_nesting"
  shows "parse_value (Suc n) d (CHR 0x5B # u) = Some (JArr vs, t)"
proof -
  from parse_elems_head [OF assms(1)] obtain c r where "skip_ws u = c # r" "c \<noteq> CHR 0x5D" by blast
  moreover have "skip_ws (CHR 0x5B # u) = CHR 0x5B # u" by (simp add: skip_ws_def is_ws_def)
  ultimately show ?thesis using assms by simp
qed

lemma parse_obj:
  assumes "parse_members n (Suc d) u = Some (kvs, t)" and "d < max_nesting"
  shows "parse_value (Suc n) d (CHR 0x7B # u) = Some (JObj kvs, t)"
proof -
  from parse_members_head [OF assms(1)] obtain c r where "skip_ws u = c # r" "c \<noteq> CHR 0x7D" by blast
  moreover have "skip_ws (CHR 0x7B # u) = CHR 0x7B # u" by (simp add: skip_ws_def is_ws_def)
  ultimately show ?thesis using assms by simp
qed

lemma json_ints_reads: "json_ints v \<Longrightarrow> reads v"
proof (induction v)
  case JNull
  show ?case by (rule readsI) (simp only: json_print.simps json_norm.simps parse_literals)
next
  case (JBool b)
  show ?case by (rule readsI, cases b) (simp_all only: json_print.simps json_norm.simps parse_literals if_True if_False)
next
  case (JNum l)
  then obtain z where "l = itoa z" by auto
  then show ?case by (intro readsI) (simp add: parse_value_num del: parse_value.simps)
next
  case (JStr s)
  show ?case by (rule readsI) (simp add: parse_value_str del: parse_value.simps)
next
  case (JArr vs)
  show ?case unfolding reads_def
  proof (intro allI impI)
    fix d t assume d: "d + json_depth (JArr vs) \<le> max_nesting" and t: "ends_token t"
    show "\<exists>N. \<forall>n \<ge> N. parse_value n d (json_print (JArr vs) @ t) = Some (json_norm (JArr vs), t)"
    proof (cases "vs = []")
      case True
      with d show ?thesis
        by (intro from_one) (simp add: skip_ws_def is_ws_def)
    next
      case False
      from d have "Suc d + foldr (\<lambda>v m. max (json_depth v) m) vs 0 \<le> max_nesting" by simp
      with parse_elems_print [OF False, of "Suc d" t] JArr obtain N where N:
        "\<forall>n \<ge> N. parse_elems n (Suc d) (join_with '','' (map json_print vs) @ [CHR 0x5D] @ t)
           = Some (map json_norm vs, t)" by auto
      show ?thesis
      proof (intro exI [of _ "Suc N"] allI impI)
        fix n assume "Suc N \<le> n"
        then obtain k where k: "n = Suc k" "N \<le> k" by (cases n) auto
        with N d show "parse_value n d (json_print (JArr vs) @ t) = Some (json_norm (JArr vs), t)"
          using parse_arr [of k d "join_with '','' (map json_print vs) @ [CHR 0x5D] @ t"]
          by (simp del: parse_value.simps)
      qed
    qed
  qed
next
  case (JObj kvs)
  show ?case unfolding reads_def
  proof (intro allI impI)
    fix d t assume d: "d + json_depth (JObj kvs) \<le> max_nesting" and t: "ends_token t"
    have rv: "\<forall>(k, v) \<in> set kvs. reads v"
      using JObj by (fastforce simp: snds.simps)
    let ?p = "\<lambda>(k, v). json_quote k @ '':'' @ json_print v"
    show "\<exists>N. \<forall>n \<ge> N. parse_value n d (json_print (JObj kvs) @ t) = Some (json_norm (JObj kvs), t)"
    proof (cases "kvs = []")
      case True
      with d show ?thesis
        by (intro from_one) (simp add: skip_ws_def is_ws_def)
    next
      case False
      from d have "Suc d + foldr (\<lambda>(k, v) m. max (json_depth v) m) kvs 0 \<le> max_nesting" by simp
      with parse_members_print [OF False rv, of "Suc d" t] obtain N where N:
        "\<forall>n \<ge> N. parse_members n (Suc d) (join_with '','' (map ?p kvs) @ [CHR 0x7D] @ t)
           = Some (map (\<lambda>(k, v). (utf8_sanitize k, json_norm v)) kvs, t)" by auto
      show ?thesis
      proof (intro exI [of _ "Suc N"] allI impI)
        fix n assume "Suc N \<le> n"
        then obtain k where k: "n = Suc k" "N \<le> k" by (cases n) auto
        with N d show "parse_value n d (json_print (JObj kvs) @ t) = Some (json_norm (JObj kvs), t)"
          using parse_obj [of k d "join_with '','' (map ?p kvs) @ [CHR 0x7D] @ t"]
          by (simp del: parse_value.simps)
      qed
    qed
  qed
qed

text \<open>Reading a printed tree gives the tree back.\<close>

lemma json_parse_print:
  assumes "json_ints v" and "json_depth v \<le> max_nesting"
  shows "json_parse (json_print v) = Some (json_norm v)"
proof -
  let ?s = "json_print v"
  from readsD [OF json_ints_reads [OF assms(1)], of 0 "[]"] assms(2) obtain N where N:
    "\<forall>n \<ge> N. parse_value n 0 ?s = Some (json_norm v, [])" by (auto simp: ends_token_close)
  let ?f = "2 * length ?s + 2"
  have "parse_value (max N ?f) 0 ?s = parse_value ?f 0 ?s"
    by (rule parse_fuel) auto
  with N have "parse_value ?f 0 ?s = Some (json_norm v, [])" by (metis max.cobounded1)
  then show ?thesis by (simp add: json_parse_def skip_ws_def)
qed

text \<open>Reading a struct printed as an object.\<close>

lemma json_unmarshal_print:
  assumes "json_ints (JObj kvs)" and "json_depth (JObj kvs) \<le> max_nesting"
  shows "json_unmarshal f zero (json_print (JObj kvs)) =
    unmarshal_struct f zero (JObj (map (\<lambda>(k, v). (utf8_sanitize k, json_norm v)) kvs))"
  using json_parse_print [OF assms] by (simp add: json_unmarshal_def)

end
