(* ===== verification/Tokens.thy ===== *)
theory Tokens
  imports Base64 Json Domain
begin

section \<open>Tokens: checkpoint tokens (internal/store/token.go)\<close>

text \<open>
  A token is base64url-encoded JSON of the controller instance, the pane, the stream
  offset and the mint time. Decoding accepts whatever \<open>encoding/json\<close> accepts, so keys
  in any letter case, unknown members and missing members pass.
\<close>

record tokenPayload =
  tp_I :: string
  tp_P :: string
  tp_O :: int
  tp_T :: int

definition zero_payload :: tokenPayload where
  "zero_payload = \<lparr>tp_I = [], tp_P = [], tp_O = 0, tp_T = 0\<rparr>"

definition payload_json :: "tokenPayload \<Rightarrow> json" where
  "payload_json tp = JObj
     [(''i'', JStr (tp_I tp)), (''p'', JStr (tp_P tp)),
      (''o'', JNum (itoa (tp_O tp))), (''t'', JNum (itoa (tp_T tp)))]"

definition encodeToken :: "string \<Rightarrow> PaneID \<Rightarrow> int \<Rightarrow> instant \<Rightarrow> Token" where
  "encodeToken inst pane offset mintedAt =
     b64_encode (json_print (payload_json
       \<lparr>tp_I = inst, tp_P = pane, tp_O = offset, tp_T = mintedAt\<rparr>))"

definition set_payload_field :: "tokenPayload \<Rightarrow> bytes \<Rightarrow> json \<Rightarrow> tokenPayload \<times> bool" where
  "set_payload_field tp key v =
     (if key = ''I'' then (let (x, ok) = store_string (tp_I tp) v in (tp\<lparr>tp_I := x\<rparr>, ok))
      else if key = ''P'' then (let (x, ok) = store_string (tp_P tp) v in (tp\<lparr>tp_P := x\<rparr>, ok))
      else if key = ''O'' then (let (x, ok) = store_int (tp_O tp) v in (tp\<lparr>tp_O := x\<rparr>, ok))
      else if key = ''T'' then (let (x, ok) = store_int (tp_T tp) v in (tp\<lparr>tp_T := x\<rparr>, ok))
      else (tp, True))"

definition decodeToken :: "Token \<Rightarrow> go_error + tokenPayload" where
  "decodeToken t =
     (case b64_decode t of
        None \<Rightarrow> Inl ErrTokenMalformed
      | Some raw \<Rightarrow>
          (case json_unmarshal set_payload_field zero_payload raw of
             None \<Rightarrow> Inl ErrTokenMalformed
           | Some tp \<Rightarrow> Inr tp))"

subsection \<open>Decoding inverts encoding\<close>

lemma fold_names: "fold_name ''i'' = ''I''" "fold_name ''p'' = ''P''" "fold_name ''o'' = ''O''"
    "fold_name ''t'' = ''T''"
  by code_simp+

lemma utf8_sanitize_ascii [simp]:
  "\<forall>c \<in> set s. (of_char c :: nat) < 0x80 \<Longrightarrow> utf8_sanitize s = s"
  by (rule utf8_sanitize_valid) (rule utf8_valid_ascii)

lemma key_names: "utf8_sanitize ''i'' = ''i''" "utf8_sanitize ''p'' = ''p''"
    "utf8_sanitize ''o'' = ''o''" "utf8_sanitize ''t'' = ''t''"
  by code_simp+

lemma payload_json_wf: "json_ints (payload_json tp)" "json_depth (payload_json tp) \<le> max_nesting"
  by (auto simp: payload_json_def max_nesting_def)

lemma set_payload:
  "set_payload_field tp ''I'' (JStr s) = (tp\<lparr>tp_I := s\<rparr>, True)"
  "set_payload_field tp ''P'' (JStr s) = (tp\<lparr>tp_P := s\<rparr>, True)"
  "in_int64 z \<Longrightarrow> set_payload_field tp ''O'' (JNum (itoa z)) = (tp\<lparr>tp_O := z\<rparr>, True)"
  "in_int64 z \<Longrightarrow> set_payload_field tp ''T'' (JNum (itoa z)) = (tp\<lparr>tp_T := z\<rparr>, True)"
  by (simp_all add: set_payload_field_def)

lemma decode_encode_sanitize:
  assumes "in_int64 offset" and "in_int64 mintedAt"
  shows "decodeToken (encodeToken inst pane offset mintedAt) =
    Inr \<lparr>tp_I = utf8_sanitize inst, tp_P = utf8_sanitize pane, tp_O = offset, tp_T = mintedAt\<rparr>"
proof -
  let ?tp = "\<lparr>tp_I = inst, tp_P = pane, tp_O = offset, tp_T = mintedAt\<rparr>"
  have "json_unmarshal set_payload_field zero_payload (json_print (payload_json ?tp)) =
      unmarshal_struct set_payload_field zero_payload (JObj
       [(''i'', JStr (utf8_sanitize inst)), (''p'', JStr (utf8_sanitize pane)),
        (''o'', JNum (itoa offset)), (''t'', JNum (itoa mintedAt))])"
    using json_unmarshal_print [OF payload_json_wf(1) [of ?tp, unfolded payload_json_def]
        payload_json_wf(2) [of ?tp, unfolded payload_json_def], of set_payload_field zero_payload]
    by (simp only: payload_json_def list.map prod.case json_norm.simps key_names tokenPayload.simps)
  also have "\<dots> = Some \<lparr>tp_I = utf8_sanitize inst, tp_P = utf8_sanitize pane, tp_O = offset, tp_T = mintedAt\<rparr>"
    by (simp only: unmarshal_struct.simps set_members.simps fold_names set_payload
        set_payload(3) [OF assms(1)] set_payload(4) [OF assms(2)] Let_def prod.case)
      (simp add: zero_payload_def)
  finally show ?thesis by (simp add: decodeToken_def encodeToken_def)
qed

lemma decode_encode:
  assumes "utf8_valid inst" "utf8_valid pane" "in_int64 offset" "in_int64 mintedAt"
  shows "decodeToken (encodeToken inst pane offset mintedAt) =
    Inr \<lparr>tp_I = inst, tp_P = pane, tp_O = offset, tp_T = mintedAt\<rparr>"
  using decode_encode_sanitize [OF assms(3,4)] utf8_sanitize_valid assms(1,2) by simp

subsection \<open>The interface the store relies on\<close>

text \<open>
  All the store needs of the codec: a token decodes to the four fields it was made from,
  where the strings are text the codec can carry and the integers fit the wire type.
\<close>

locale token_codec =
  fixes enc :: "string \<Rightarrow> PaneID \<Rightarrow> int \<Rightarrow> instant \<Rightarrow> Token"
    and dec :: "Token \<Rightarrow> go_error + tokenPayload"
    and carries :: "string \<Rightarrow> bool"
  assumes dec_enc: "carries inst \<Longrightarrow> carries pane \<Longrightarrow> in_int64 off \<Longrightarrow> in_int64 t \<Longrightarrow>
     dec (enc inst pane off t) = Inr \<lparr>tp_I = inst, tp_P = pane, tp_O = off, tp_T = t\<rparr>"
begin

lemma enc_inject:
  assumes "carries inst" "carries pane" "in_int64 off" "in_int64 t"
    and "carries inst'" "carries pane'" "in_int64 off'" "in_int64 t'"
  shows "enc inst pane off t = enc inst' pane' off' t' \<longleftrightarrow>
    inst = inst' \<and> pane = pane' \<and> off = off' \<and> t = t'"
proof
  assume e: "enc inst pane off t = enc inst' pane' off' t'"
  have "Inr \<lparr>tp_I = inst, tp_P = pane, tp_O = off, tp_T = t\<rparr> = dec (enc inst pane off t)"
    by (rule dec_enc [symmetric]) (use assms in auto)
  also have "\<dots> = dec (enc inst' pane' off' t')" by (simp only: e)
  also have "\<dots> = Inr \<lparr>tp_I = inst', tp_P = pane', tp_O = off', tp_T = t'\<rparr>"
    by (rule dec_enc) (use assms in auto)
  finally show "inst = inst' \<and> pane = pane' \<and> off = off' \<and> t = t'" by auto
qed auto

end

interpretation wire: token_codec encodeToken decodeToken utf8_valid
  by unfold_locales (rule decode_encode)

end
