(* ===== verification/Store.thy ===== *)
theory Store
  imports Buffer Tokens
begin

section \<open>Store: the output store (internal/store/store.go)\<close>

text \<open>
  A \<open>Store\<close> maps panes to rings and keeps the registered watchers. Every method is one
  critical section, hence one function on the state, except \<open>Read\<close>, which locks twice:
  its model takes the state at each section. A panic (\<open>NewBuffer\<close> on a capacity that is
  not positive) is \<open>None\<close>. A watcher's channel has one slot, \<open>w_pending\<close>; its
  identity (the pointer in the source) is a number. The clock reading of \<open>time.Now()\<close> is
  an argument.
\<close>

definition DefaultCapacity :: int where "DefaultCapacity = 2 ^ 20"

record paneWatcher =
  w_id :: nat
  w_pane :: PaneID
  w_pending :: bool

record Store =
  st_capacity :: int
  st_instance :: string
  st_bufs :: "PaneID \<Rightarrow> Buffer option"
  st_watchers :: "paneWatcher list"
  st_next :: nat

text \<open>\<open>New\<close>, given the eight random bytes.\<close>

definition hex_encode :: "bytes \<Rightarrow> string" where
  "hex_encode b = concat (map (\<lambda>c. [hex_digit (of_char c div 16), hex_digit (of_char c mod 16)]) b)"

definition Store_New :: "bytes \<Rightarrow> int \<Rightarrow> Store" where
  "Store_New rnd capacity =
     \<lparr>st_capacity = capacity, st_instance = hex_encode rnd, st_bufs = Map.empty,
      st_watchers = [], st_next = 0\<rparr>"

definition Store_Instance :: "Store \<Rightarrow> string" where "Store_Instance s = st_instance s"

definition bufferLocked :: "PaneID \<Rightarrow> Store \<Rightarrow> (Buffer \<times> Store) option" where
  "bufferLocked pid s =
     (case st_bufs s pid of
        Some b \<Rightarrow> Some (b, s)
      | None \<Rightarrow>
          (case NewBuffer (st_capacity s) of
             None \<Rightarrow> None
           | Some b \<Rightarrow> Some (b, s\<lparr>st_bufs := (st_bufs s)(pid \<mapsto> b)\<rparr>)))"

definition Store_Ensure :: "PaneID \<Rightarrow> Store \<Rightarrow> Store option" where
  "Store_Ensure pid s = map_option snd (bufferLocked pid s)"

definition Store_HasPane :: "PaneID \<Rightarrow> Store \<Rightarrow> bool" where
  "Store_HasPane pid s \<longleftrightarrow> st_bufs s pid \<noteq> None"

text \<open>The loop that does a non-blocking send to every watcher of the pane.\<close>

definition signal_watchers :: "PaneID \<Rightarrow> paneWatcher list \<Rightarrow> paneWatcher list" where
  "signal_watchers pid ws = map (\<lambda>w. if w_pane w \<noteq> pid then w else w\<lparr>w_pending := True\<rparr>) ws"

definition Store_Forget :: "PaneID \<Rightarrow> Store \<Rightarrow> Store" where
  "Store_Forget pid s =
     s\<lparr>st_bufs := (st_bufs s)(pid := None), st_watchers := signal_watchers pid (st_watchers s)\<rparr>"

definition Store_Append :: "instant \<Rightarrow> PaneID \<Rightarrow> bytes \<Rightarrow> Store \<Rightarrow> Store option" where
  "Store_Append now pid p s =
     (if length p = 0 then Some s
      else case bufferLocked pid s of
        None \<Rightarrow> None
      | Some (b, s1) \<Rightarrow>
          Some (s1\<lparr>st_bufs := (st_bufs s1)(pid \<mapsto> Buffer_Append now p b),
                   st_watchers := signal_watchers pid (st_watchers s1)\<rparr>))"

text \<open>The channel (its watcher's number) and the store with the watcher registered.\<close>

definition Store_Watch :: "PaneID \<Rightarrow> Store \<Rightarrow> nat \<times> Store" where
  "Store_Watch pid s =
     (st_next s,
      s\<lparr>st_watchers := st_watchers s @ [\<lparr>w_id = st_next s, w_pane = pid, w_pending = False\<rparr>],
        st_next := Suc (st_next s)\<rparr>)"

fun remove_watcher :: "nat \<Rightarrow> paneWatcher list \<Rightarrow> paneWatcher list" where
  "remove_watcher w [] = []"
| "remove_watcher w (x # xs) = (if w_id x = w then xs else x # remove_watcher w xs)"

definition Store_cancel :: "nat \<Rightarrow> Store \<Rightarrow> Store" where
  "Store_cancel w s = s\<lparr>st_watchers := remove_watcher w (st_watchers s)\<rparr>"

text \<open>Receiving from a watcher's channel: possible when a signal is pending, and empties the slot.\<close>

definition watch_ready :: "nat \<Rightarrow> Store \<Rightarrow> bool" where
  "watch_ready w s \<longleftrightarrow> (\<exists>x \<in> set (st_watchers s). w_id x = w \<and> w_pending x)"

definition watch_recv :: "nat \<Rightarrow> Store \<Rightarrow> Store" where
  "watch_recv w s = s\<lparr>st_watchers :=
     map (\<lambda>x. if w_id x = w then x\<lparr>w_pending := False\<rparr> else x) (st_watchers s)\<rparr>"

definition Store_NewToken :: "instant \<Rightarrow> PaneID \<Rightarrow> Store \<Rightarrow> (Token \<times> Store) option" where
  "Store_NewToken now pid s =
     (case bufferLocked pid s of
        None \<Rightarrow> None
      | Some (b, s1) \<Rightarrow> Some (encodeToken (st_instance s1) pid (Buffer_End b) now, s1))"

definition Store_TokenTime :: "Token \<Rightarrow> go_error + instant" where
  "Store_TokenTime after =
     (case decodeToken after of Inl e \<Rightarrow> Inl e | Inr tp \<Rightarrow> Inr (tp_T tp))"

definition Store_LastAppend :: "PaneID \<Rightarrow> Store \<Rightarrow> instant option" where
  "Store_LastAppend pid s =
     (case st_bufs s pid of None \<Rightarrow> None | Some b \<Rightarrow> Buffer_LastAppend b)"

text \<open>\<open>Read\<close>: \<open>s1\<close> is the store at the first critical section, \<open>s2\<close> at the second.\<close>

definition Store_Read :: "instant \<Rightarrow> PaneID \<Rightarrow> Token \<Rightarrow> Store \<Rightarrow> Store \<Rightarrow> go_error + bytes \<times> Token" where
  "Store_Read now pid after s1 s2 =
     (if st_bufs s1 pid = None then Inl ErrPaneUnknown
      else case decodeToken after of
        Inl e \<Rightarrow> Inl e
      | Inr tp \<Rightarrow>
          if tp_I tp \<noteq> st_instance s1 then Inl ErrTokenWrongInstance
          else if tp_P tp \<noteq> pid then Inl ErrTokenWrongPane
          else case st_bufs s2 pid of
            None \<Rightarrow> Inl ErrPaneUnknown
          | Some b \<Rightarrow>
              (case Buffer_Read b (tp_O tp) of
                 (out, e, ok) \<Rightarrow>
                   if \<not> ok then Inl ErrTokenEvicted
                   else Inr (out, encodeToken (st_instance s2) pid e now)))"

subsection \<open>What a store promises: one stream of bytes per known pane\<close>

type_synonym streams = "PaneID \<Rightarrow> bytes option"

definition known_stream :: "streams \<Rightarrow> PaneID \<Rightarrow> bytes" where
  "known_stream H pid = (case H pid of None \<Rightarrow> [] | Some h \<Rightarrow> h)"

lemma known_stream_simps [simp]:
  "H pid = None \<Longrightarrow> known_stream H pid = []"
  "H pid = Some h \<Longrightarrow> known_stream H pid = h"
  by (simp_all add: known_stream_def)

text \<open>Ensuring a stream, as every operation but \<open>Read\<close>, \<open>HasPane\<close> and \<open>Forget\<close> does.\<close>

definition touched :: "PaneID \<Rightarrow> streams \<Rightarrow> streams" where
  "touched pid H = H(pid \<mapsto> known_stream H pid)"

lemma touched_simps [simp]:
  "touched pid H pid = Some (known_stream H pid)"
  "q \<noteq> pid \<Longrightarrow> touched pid H q = H q"
  "H pid = Some h \<Longrightarrow> touched pid H = H"
  "known_stream (touched pid H) q = known_stream H q"
  by (auto simp: touched_def known_stream_def)

definition buf_rep :: "int \<Rightarrow> Buffer option \<Rightarrow> bytes option \<Rightarrow> bool" where
  "buf_rep cap ob oh \<longleftrightarrow>
     (case (ob, oh) of
        (None, None) \<Rightarrow> True
      | (Some b, Some h) \<Rightarrow> ring_of b h \<and> buf_capacity b = cap
      | _ \<Rightarrow> False)"

lemma buf_rep_simps [simp]:
  "buf_rep cap None oh \<longleftrightarrow> oh = None"
  "buf_rep cap (Some b) oh \<longleftrightarrow> (\<exists>h. oh = Some h \<and> ring_of b h \<and> buf_capacity b = cap)"
  "buf_rep cap ob None \<longleftrightarrow> ob = None"
  by (auto simp: buf_rep_def split: option.splits)

definition watchers_ok :: "Store \<Rightarrow> bool" where
  "watchers_ok s \<longleftrightarrow> distinct (map w_id (st_watchers s)) \<and> (\<forall>w \<in> set (st_watchers s). w_id w < st_next s)"

definition store_rep :: "Store \<Rightarrow> streams \<Rightarrow> bool" where
  "store_rep s H \<longleftrightarrow>
     0 < st_capacity s \<and> (\<forall>pid. buf_rep (st_capacity s) (st_bufs s pid) (H pid)) \<and> watchers_ok s"

lemma store_rep_new: "0 < capacity \<Longrightarrow> store_rep (Store_New rnd capacity) Map.empty"
  by (simp add: store_rep_def Store_New_def watchers_ok_def)

lemma store_rep_dom: "store_rep s H \<Longrightarrow> st_bufs s pid = None \<longleftrightarrow> H pid = None"
  by (cases "st_bufs s pid"; cases "H pid") (auto simp: store_rep_def dest: spec [of _ pid])

lemma store_rep_Some:
  assumes "store_rep s H" and "st_bufs s pid = Some b"
  obtains h where "H pid = Some h" "ring_of b h" "buf_capacity b = st_capacity s"
proof -
  have "buf_rep (st_capacity s) (st_bufs s pid) (H pid)" using assms(1) by (simp add: store_rep_def)
  with assms(2) that show ?thesis by auto
qed

lemma store_rep_upd:
  assumes "store_rep s H" and "ring_of b h" and "buf_capacity b = st_capacity s"
  shows "store_rep (s\<lparr>st_bufs := (st_bufs s)(pid \<mapsto> b)\<rparr>) (H(pid \<mapsto> h))"
  using assms by (auto simp: store_rep_def watchers_ok_def)

lemma bufferLocked_rep:
  assumes "store_rep s H"
  obtains b s' where "bufferLocked pid s = Some (b, s')" "store_rep s' (touched pid H)"
    "st_bufs s' pid = Some b" "ring_of b (known_stream H pid)" "buf_capacity b = st_capacity s"
    "st_instance s' = st_instance s" "st_capacity s' = st_capacity s" "st_watchers s' = st_watchers s"
proof (cases "st_bufs s pid")
  case None
  have pos: "0 < st_capacity s" using assms by (simp add: store_rep_def)
  then obtain b where b: "NewBuffer (st_capacity s) = Some b" "buf_capacity b = st_capacity s"
    by (auto simp: NewBuffer_def)
  from None assms have "H pid = None" using store_rep_dom by blast
  then have k: "known_stream H pid = []" by simp
  have r: "ring_of b []" by (rule ring_of_new [OF b(1)])
  from store_rep_upd [OF assms r b(2), of pid]
  have "store_rep (s\<lparr>st_bufs := (st_bufs s)(pid \<mapsto> b)\<rparr>) (touched pid H)"
    by (simp add: touched_def k)
  then show ?thesis
    by (intro that [of b "s\<lparr>st_bufs := (st_bufs s)(pid \<mapsto> b)\<rparr>"])
      (simp_all add: None b k r bufferLocked_def)
next
  case (Some b)
  from store_rep_Some [OF assms Some] obtain h where
    h: "H pid = Some h" "ring_of b h" "buf_capacity b = st_capacity s" .
  show ?thesis
    by (rule that [of b s]) (simp_all add: Some h assms bufferLocked_def)
qed

lemma signal_watchers_ids [simp]: "map w_id (signal_watchers pid ws) = map w_id ws"
  by (induction ws) (auto simp: signal_watchers_def)

lemma w_ids_image: "(\<forall>w \<in> set ws. w_id w < n) \<longleftrightarrow> (\<forall>i \<in> set (map w_id ws). i < n)"
  by auto

lemma watchers_ok_cong:
  "map w_id (st_watchers s') = map w_id (st_watchers s) \<Longrightarrow> st_next s' = st_next s \<Longrightarrow>
   watchers_ok s' = watchers_ok s"
  by (simp only: watchers_ok_def w_ids_image)

lemma store_rep_watchers:
  assumes "store_rep s H" and "map w_id ws = map w_id (st_watchers s)"
  shows "store_rep (s\<lparr>st_watchers := ws\<rparr>) H"
  using assms watchers_ok_cong [of "s\<lparr>st_watchers := ws\<rparr>" s] by (simp add: store_rep_def)

subsection \<open>Every operation keeps the representation\<close>

lemma Store_Append_rep:
  assumes "store_rep s H"
  obtains s' where "Store_Append now pid p s = Some s'"
    "store_rep s' (if p = [] then H else H(pid \<mapsto> known_stream H pid @ p))"
    "st_instance s' = st_instance s" "st_capacity s' = st_capacity s"
    "st_watchers s' = (if p = [] then st_watchers s else signal_watchers pid (st_watchers s))"
proof (cases "p = []")
  case True
  with assms show ?thesis by (intro that [of s]) (simp_all add: Store_Append_def)
next
  case False
  from bufferLocked_rep [OF assms, of pid] obtain b s1 where b: "bufferLocked pid s = Some (b, s1)"
    "store_rep s1 (touched pid H)" "ring_of b (known_stream H pid)" "buf_capacity b = st_capacity s"
    "st_instance s1 = st_instance s" "st_capacity s1 = st_capacity s" "st_watchers s1 = st_watchers s" .
  let ?s2 = "s1\<lparr>st_bufs := (st_bufs s1)(pid \<mapsto> Buffer_Append now p b)\<rparr>"
  have "store_rep ?s2 ((touched pid H)(pid \<mapsto> known_stream H pid @ p))"
    by (rule store_rep_upd [OF b(2) ring_of_Append [OF b(3)]]) (simp add: b)
  then have "store_rep ?s2 (H(pid \<mapsto> known_stream H pid @ p))" by (simp add: touched_def)
  from store_rep_watchers [OF this, of "signal_watchers pid (st_watchers s1)"]
  have "store_rep (?s2\<lparr>st_watchers := signal_watchers pid (st_watchers s1)\<rparr>)
      (H(pid \<mapsto> known_stream H pid @ p))" by simp
  with b False show ?thesis
    by (intro that [of "?s2\<lparr>st_watchers := signal_watchers pid (st_watchers s1)\<rparr>"])
      (simp_all add: Store_Append_def)
qed

lemma Store_Ensure_rep:
  assumes "store_rep s H"
  obtains s' where "Store_Ensure pid s = Some s'" "store_rep s' (touched pid H)"
    "st_instance s' = st_instance s" "st_capacity s' = st_capacity s" "st_watchers s' = st_watchers s"
proof -
  from bufferLocked_rep [OF assms, of pid] obtain b s' where b: "bufferLocked pid s = Some (b, s')"
    "store_rep s' (touched pid H)"
    "st_instance s' = st_instance s" "st_capacity s' = st_capacity s" "st_watchers s' = st_watchers s" .
  then show ?thesis by (intro that [of s']) (simp_all add: Store_Ensure_def)
qed

lemma Store_NewToken_rep:
  assumes "store_rep s H"
  obtains s' where "Store_NewToken now pid s =
      Some (encodeToken (st_instance s) pid (int (length (known_stream H pid))) now, s')"
    "store_rep s' (touched pid H)"
    "st_instance s' = st_instance s" "st_capacity s' = st_capacity s" "st_watchers s' = st_watchers s"
proof -
  from bufferLocked_rep [OF assms, of pid] obtain b s' where b: "bufferLocked pid s = Some (b, s')"
    "store_rep s' (touched pid H)" "ring_of b (known_stream H pid)"
    "st_instance s' = st_instance s" "st_capacity s' = st_capacity s" "st_watchers s' = st_watchers s" .
  have "Buffer_End b = int (length (known_stream H pid))" by (rule ring.last_off [OF b(3)])
  with b show ?thesis by (intro that [of s']) (simp_all add: Store_NewToken_def)
qed

lemma Store_Forget_rep:
  assumes "store_rep s H"
  shows "store_rep (Store_Forget pid s) (H(pid := None))"
proof -
  have "store_rep (s\<lparr>st_bufs := (st_bufs s)(pid := None)\<rparr>) (H(pid := None))"
    using assms by (simp add: store_rep_def watchers_ok_def)
  from store_rep_watchers [OF this, of "signal_watchers pid (st_watchers s)"] show ?thesis
    by (simp add: Store_Forget_def)
qed

lemma Store_Watch_rep:
  assumes "store_rep s H"
  shows "store_rep (snd (Store_Watch pid s)) H"
  using assms by (fastforce simp: store_rep_def watchers_ok_def Store_Watch_def)

lemma remove_watcher_subset: "set (remove_watcher w ws) \<subseteq> set ws"
  by (induction ws) auto

lemma remove_watcher_distinct: "distinct (map w_id ws) \<Longrightarrow> distinct (map w_id (remove_watcher w ws))"
proof (induction ws)
  case (Cons x xs)
  have "w_id x \<notin> w_id ` set (remove_watcher w xs)"
    using Cons.prems remove_watcher_subset [of w xs] by auto
  with Cons show ?case by simp
qed simp

lemma remove_watcher_set:
  "distinct (map w_id ws) \<Longrightarrow> set (remove_watcher w ws) = {x \<in> set ws. w_id x \<noteq> w}"
proof (induction ws)
  case (Cons x xs)
  have "y \<in> set xs \<Longrightarrow> w_id y \<noteq> w_id x" for y
    using Cons.prems by (metis distinct.simps(2) imageI list.set_map list.simps(9))
  with Cons show ?case by auto
qed simp

lemma Store_cancel_rep:
  assumes "store_rep s H"
  shows "store_rep (Store_cancel w s) H"
  using assms remove_watcher_subset [of w "st_watchers s"] remove_watcher_distinct [of "st_watchers s" w]
  by (auto simp: store_rep_def watchers_ok_def Store_cancel_def)

lemma watch_recv_rep:
  assumes "store_rep s H"
  shows "store_rep (watch_recv w s) H"
proof -
  have "map w_id (map (\<lambda>x. if w_id x = w then x\<lparr>w_pending := False\<rparr> else x) (st_watchers s))
      = map w_id (st_watchers s)" by simp
  from store_rep_watchers [OF assms this] show ?thesis by (simp add: watch_recv_def)
qed

lemma Store_frame [simp]:
  "st_instance (Store_Forget pid s) = st_instance s" "st_capacity (Store_Forget pid s) = st_capacity s"
  "st_instance (snd (Store_Watch pid s)) = st_instance s" "st_capacity (snd (Store_Watch pid s)) = st_capacity s"
  "st_instance (Store_cancel w s) = st_instance s" "st_capacity (Store_cancel w s) = st_capacity s"
  "st_instance (watch_recv w s) = st_instance s" "st_capacity (watch_recv w s) = st_capacity s"
  "st_bufs (snd (Store_Watch pid s)) = st_bufs s" "st_bufs (Store_cancel w s) = st_bufs s"
  "st_bufs (watch_recv w s) = st_bufs s" "st_bufs (Store_Forget pid s) = (st_bufs s)(pid := None)"
  by (simp_all add: Store_Forget_def Store_Watch_def Store_cancel_def watch_recv_def)

subsection \<open>Reading\<close>

text \<open>The outcome of \<open>Read\<close> on a stream, given the decoded token.\<close>

definition stream_read ::
  "string \<Rightarrow> int \<Rightarrow> instant \<Rightarrow> PaneID \<Rightarrow> go_error + tokenPayload \<Rightarrow> bytes option \<Rightarrow> bytes option
    \<Rightarrow> go_error + bytes \<times> Token" where
  "stream_read inst cap now pid dt oh1 oh2 =
     (if oh1 = None then Inl ErrPaneUnknown
      else case dt of
        Inl e \<Rightarrow> Inl e
      | Inr tp \<Rightarrow>
          if tp_I tp \<noteq> inst then Inl ErrTokenWrongInstance
          else if tp_P tp \<noteq> pid then Inl ErrTokenWrongPane
          else case oh2 of
            None \<Rightarrow> Inl ErrPaneUnknown
          | Some h \<Rightarrow>
              if tp_O tp < 0 \<or> tp_O tp < int (length h) - cap \<or> int (length h) < tp_O tp
              then Inl ErrTokenEvicted
              else Inr (drop (nat (tp_O tp)) h, encodeToken inst pid (int (length h)) now))"

lemma Store_Read_rep:
  assumes "store_rep s1 H1" "store_rep s2 H2"
    and "st_instance s2 = st_instance s1"
  shows "Store_Read now pid after s1 s2 =
    stream_read (st_instance s1) (st_capacity s2) now pid (decodeToken after) (H1 pid) (H2 pid)"
proof -
  have none: "st_bufs s1 pid = None \<longleftrightarrow> H1 pid = None" using store_rep_dom [OF assms(1)] .
  show ?thesis
  proof (cases "st_bufs s2 pid")
    case None
    then have "H2 pid = None" using store_rep_dom [OF assms(2)] by blast
    with None none show ?thesis
      by (simp add: Store_Read_def stream_read_def split: sum.split)
  next
    case (Some b)
    from store_rep_Some [OF assms(2) Some] obtain h where
      h: "H2 pid = Some h" "ring_of b h" "buf_capacity b = st_capacity s2" .
    have "Buffer_Read b off = (if off < 0 \<or> off < int (length h) - st_capacity s2 \<or> int (length h) < off
        then ([], int (length h), False) else (drop (nat off) h, int (length h), True))" for off
      using h(2,3) by (auto simp: ring_of_Read [OF h(2)]) (auto simp: ring_of_def)
    with Some none h(1) assms(3) show ?thesis
      by (simp add: Store_Read_def stream_read_def split: sum.split)
  qed
qed

subsection \<open>Any sequence of operations\<close>

datatype store_op =
    OpEnsure PaneID
  | OpAppend instant PaneID bytes
  | OpForget PaneID
  | OpWatch PaneID
  | OpCancel nat
  | OpRecv nat
  | OpMint instant PaneID

fun store_step :: "store_op \<Rightarrow> Store \<Rightarrow> Store option" where
  "store_step (OpEnsure pid) s = Store_Ensure pid s"
| "store_step (OpAppend now pid p) s = Store_Append now pid p s"
| "store_step (OpForget pid) s = Some (Store_Forget pid s)"
| "store_step (OpWatch pid) s = Some (snd (Store_Watch pid s))"
| "store_step (OpCancel w) s = Some (Store_cancel w s)"
| "store_step (OpRecv w) s = Some (watch_recv w s)"
| "store_step (OpMint now pid) s = map_option snd (Store_NewToken now pid s)"

fun store_run :: "store_op list \<Rightarrow> Store \<Rightarrow> Store option" where
  "store_run [] s = Some s"
| "store_run (x # xs) s = Option.bind (store_step x s) (store_run xs)"

fun abs_step :: "store_op \<Rightarrow> streams \<Rightarrow> streams" where
  "abs_step (OpEnsure pid) H = touched pid H"
| "abs_step (OpAppend now pid p) H = (if p = [] then H else H(pid \<mapsto> known_stream H pid @ p))"
| "abs_step (OpForget pid) H = H(pid := None)"
| "abs_step (OpMint now pid) H = touched pid H"
| "abs_step _ H = H"

fun abs_run :: "store_op list \<Rightarrow> streams \<Rightarrow> streams" where
  "abs_run [] H = H"
| "abs_run (x # xs) H = abs_run xs (abs_step x H)"

lemma store_step_rep:
  assumes "store_rep s H"
  obtains s' where "store_step x s = Some s'" "store_rep s' (abs_step x H)"
    "st_instance s' = st_instance s" "st_capacity s' = st_capacity s"
proof (cases x)
  case (OpEnsure pid)
  with that Store_Ensure_rep [OF assms, of pid] show ?thesis by auto
next
  case (OpAppend now pid p)
  with that Store_Append_rep [OF assms, of now pid p] show ?thesis by auto
next
  case (OpMint now pid)
  from Store_NewToken_rep [OF assms, of now pid] obtain s' where
    "Store_NewToken now pid s =
      Some (encodeToken (st_instance s) pid (int (length (known_stream H pid))) now, s')"
    "store_rep s' (touched pid H)" "st_instance s' = st_instance s" "st_capacity s' = st_capacity s" .
  with that OpMint show ?thesis by auto
qed (use that assms Store_Forget_rep Store_Watch_rep Store_cancel_rep watch_recv_rep in auto)

lemma store_run_rep:
  assumes "store_rep s H"
  obtains s' where "store_run xs s = Some s'" "store_rep s' (abs_run xs H)"
    "st_instance s' = st_instance s" "st_capacity s' = st_capacity s"
  using assms
proof (induction xs arbitrary: s H thesis)
  case (Cons x xs)
  from store_step_rep [OF Cons.prems(2), of x] obtain s1 where
    s1: "store_step x s = Some s1" "store_rep s1 (abs_step x H)"
    "st_instance s1 = st_instance s" "st_capacity s1 = st_capacity s" .
  from Cons.IH [OF _ s1(2)] obtain s2 where
    "store_run xs s1 = Some s2" "store_rep s2 (abs_run xs (abs_step x H))"
    "st_instance s2 = st_instance s1" "st_capacity s2 = st_capacity s1" by blast
  with Cons.prems(1) [of s2] s1 show ?case by simp
qed auto

text \<open>The bytes a sequence of operations appends to one pane.\<close>

fun appended :: "PaneID \<Rightarrow> store_op list \<Rightarrow> bytes" where
  "appended pid [] = []"
| "appended pid (OpAppend now q p # xs) = (if q = pid then p else []) @ appended pid xs"
| "appended pid (x # xs) = appended pid xs"

lemma appended_append [simp]: "appended pid (xs @ ys) = appended pid xs @ appended pid ys"
proof (induction xs)
  case (Cons x xs)
  then show ?case by (cases x) auto
qed simp

lemma appended_concat: "appended pid (concat xss) = concat (map (appended pid) xss)"
  by (induction xss) auto

lemma abs_run_appended:
  assumes "OpForget pid \<notin> set xs" and "H pid = Some h"
  shows "abs_run xs H pid = Some (h @ appended pid xs)"
  using assms
proof (induction xs arbitrary: H h)
  case (Cons x xs)
  then have nf: "OpForget pid \<notin> set xs" by simp
  have "abs_step x H pid = Some (h @ appended pid [x])"
  proof (cases x)
    case (OpForget q)
    with Cons.prems show ?thesis by auto
  qed (use Cons.prems in \<open>auto simp: touched_def\<close>)
  then have "abs_run xs (abs_step x H) pid = Some ((h @ appended pid [x]) @ appended pid xs)"
    by (rule Cons.IH [OF nf])
  moreover have "appended pid (x # xs) = appended pid [x] @ appended pid xs" by (cases x) auto
  ultimately show ?case by (simp del: appended.simps)
qed simp

text \<open>What a checkpoint is good for, over any interleaving of the store's operations.\<close>

locale checkpoint_store =
  fixes rep :: "'s \<Rightarrow> streams \<Rightarrow> bool"
    and inst :: "'s \<Rightarrow> string"
    and budget :: "'s \<Rightarrow> int"
    and step :: "store_op \<Rightarrow> 's \<Rightarrow> 's option"
    and run :: "store_op list \<Rightarrow> 's \<Rightarrow> 's option"
    and mint :: "instant \<Rightarrow> PaneID \<Rightarrow> 's \<Rightarrow> (Token \<times> 's) option"
    and rd :: "instant \<Rightarrow> PaneID \<Rightarrow> Token \<Rightarrow> 's \<Rightarrow> 's \<Rightarrow> go_error + bytes \<times> Token"
    and tok :: "string \<Rightarrow> PaneID \<Rightarrow> int \<Rightarrow> instant \<Rightarrow> Token"
    and dec :: "Token \<Rightarrow> go_error + tokenPayload"
    and carries :: "string \<Rightarrow> bool"
  assumes run_rep: "rep s H \<Longrightarrow> \<exists>s'. run xs s = Some s' \<and> rep s' (abs_run xs H) \<and>
        inst s' = inst s \<and> budget s' = budget s"
    and mint_rep: "rep s H \<Longrightarrow> \<exists>s'. mint now pid s =
        Some (tok (inst s) pid (int (length (known_stream H pid))) now, s') \<and>
        rep s' (touched pid H) \<and> inst s' = inst s \<and> budget s' = budget s"
    and rd_rep: "rep s1 H1 \<Longrightarrow> rep s2 H2 \<Longrightarrow> inst s2 = inst s1 \<Longrightarrow> rd now pid after s1 s2 =
        (case stream_read (inst s1) (budget s2) now pid (dec after) (H1 pid) (H2 pid) of
           Inl e \<Rightarrow> Inl e
         | Inr (out, _) \<Rightarrow> Inr (out, tok (inst s1) pid (int (length (the (H2 pid)))) now))"
    and dec_tok: "carries i \<Longrightarrow> carries pid \<Longrightarrow> in_int64 off \<Longrightarrow> in_int64 t \<Longrightarrow>
        dec (tok i pid off t) = Inr \<lparr>tp_I = i, tp_P = pid, tp_O = off, tp_T = t\<rparr>"
begin

text \<open>A token at offset \<open>length h0\<close>, whoever minted it, reads what came after.\<close>

lemma rd_at:
  assumes "rep s H" and "H pid = Some (h0 @ h1)" and "int (length h1) \<le> budget s"
    and "carries (inst s)" "carries pid" "in_int64 (int (length h0))" "in_int64 t"
  shows "rd now pid (tok (inst s) pid (int (length h0)) t) s s =
    Inr (h1, tok (inst s) pid (int (length h0 + length h1)) now)"
  using assms by (simp add: rd_rep [OF assms(1,1)] dec_tok stream_read_def)

text \<open>Mint, then anything but a \<open>Forget\<close> of the pane, then read: exactly what was appended.\<close>

lemma mint_run_rd:
  assumes r: "rep s H" and w: "carries (inst s)" "carries pid" "in_int64 t0"
      "in_int64 (int (length (known_stream H pid)))"
    and nf: "OpForget pid \<notin> set xs" and fits: "int (length (appended pid xs)) \<le> budget s"
  shows "\<exists>t s1 s2. mint t0 pid s = Some (t, s1) \<and> run xs s1 = Some s2 \<and>
    rd now pid t s2 s2 = Inr (appended pid xs,
      tok (inst s) pid (int (length (known_stream H pid) + length (appended pid xs))) now)"
proof -
  from mint_rep [OF r, of t0 pid] obtain s1 where
    s1: "mint t0 pid s = Some (tok (inst s) pid (int (length (known_stream H pid))) t0, s1)"
    "rep s1 (touched pid H)" "inst s1 = inst s" "budget s1 = budget s" by blast
  from run_rep [OF s1(2), of xs] obtain s2 where
    s2: "run xs s1 = Some s2" "rep s2 (abs_run xs (touched pid H))" "inst s2 = inst s" "budget s2 = budget s"
    using s1(3,4) by auto
  have "abs_run xs (touched pid H) pid = Some (known_stream H pid @ appended pid xs)"
    by (rule abs_run_appended [OF nf]) simp
  from rd_at [OF s2(2) this, of t0 now] w fits s1 s2 show ?thesis by auto
qed

lemma mint_run_rd_evicted:
  assumes r: "rep s H" and w: "carries (inst s)" "carries pid" "in_int64 t0"
      "in_int64 (int (length (known_stream H pid)))"
    and nf: "OpForget pid \<notin> set xs" and over: "budget s < int (length (appended pid xs))"
  shows "\<exists>t s1 s2. mint t0 pid s = Some (t, s1) \<and> run xs s1 = Some s2 \<and>
    rd now pid t s2 s2 = Inl ErrTokenEvicted"
proof -
  from mint_rep [OF r, of t0 pid] obtain s1 where
    s1: "mint t0 pid s = Some (tok (inst s) pid (int (length (known_stream H pid))) t0, s1)"
    "rep s1 (touched pid H)" "inst s1 = inst s" "budget s1 = budget s" by blast
  from run_rep [OF s1(2), of xs] obtain s2 where
    s2: "run xs s1 = Some s2" "rep s2 (abs_run xs (touched pid H))" "inst s2 = inst s" "budget s2 = budget s"
    using s1(3,4) by auto
  have "abs_run xs (touched pid H) pid = Some (known_stream H pid @ appended pid xs)"
    by (rule abs_run_appended [OF nf]) simp
  with over w s1 s2 show ?thesis
    by (auto simp: rd_rep [OF s2(2,2)] dec_tok stream_read_def)
qed

end

interpretation log: checkpoint_store store_rep st_instance st_capacity store_step store_run
  Store_NewToken Store_Read encodeToken decodeToken utf8_valid
proof unfold_locales
  fix s H xs assume r: "store_rep s H"
  show "\<exists>s'. store_run xs s = Some s' \<and> store_rep s' (abs_run xs H) \<and>
      st_instance s' = st_instance s \<and> st_capacity s' = st_capacity s"
    by (rule store_run_rep [OF r, of xs]) blast
next
  fix s H now pid assume r: "store_rep s H"
  show "\<exists>s'. Store_NewToken now pid s =
        Some (encodeToken (st_instance s) pid (int (length (known_stream H pid))) now, s') \<and>
      store_rep s' (touched pid H) \<and> st_instance s' = st_instance s \<and> st_capacity s' = st_capacity s"
    by (rule Store_NewToken_rep [OF r, of now pid]) blast
next
  fix s1 H1 s2 H2 now pid after
  assume r: "store_rep s1 H1" "store_rep s2 H2" "st_instance s2 = st_instance s1"
  show "Store_Read now pid after s1 s2 =
      (case stream_read (st_instance s1) (st_capacity s2) now pid (decodeToken after) (H1 pid) (H2 pid) of
         Inl e \<Rightarrow> Inl e
       | Inr (out, _) \<Rightarrow> Inr (out, encodeToken (st_instance s1) pid (int (length (the (H2 pid)))) now))"
    unfolding Store_Read_rep [OF r] by (auto simp: stream_read_def split: sum.split option.split)
qed (rule wire.dec_enc)

subsection \<open>Reading in a loop\<close>

text \<open>
  A client that polls: before each read any operations \<open>xs\<close> of the store happen; each
  read passes the token the one before returned. \<open>None\<close> when a read fails.
\<close>

fun poll :: "instant \<Rightarrow> PaneID \<Rightarrow> Token \<Rightarrow> store_op list list \<Rightarrow> Store \<Rightarrow> bytes list option" where
  "poll now pid t [] s = Some []"
| "poll now pid t (xs # xss) s =
     (case store_run xs s of
        None \<Rightarrow> None
      | Some s' \<Rightarrow>
          (case Store_Read now pid t s' s' of
             Inl e \<Rightarrow> None
           | Inr (out, t') \<Rightarrow> map_option ((#) out) (poll now pid t' xss s')))"

lemma poll_outputs:
  assumes "store_rep s H" and "H pid = Some h" and "utf8_valid (st_instance s)" "utf8_valid pid"
    and "in_int64 t0" "in_int64 now"
    and "in_int64 (int (length h + length (appended pid (concat xss))))"
    and "\<forall>xs \<in> set xss. OpForget pid \<notin> set xs \<and> int (length (appended pid xs)) \<le> st_capacity s"
  shows "poll now pid (encodeToken (st_instance s) pid (int (length h)) t0) xss s =
    Some (map (appended pid) xss)"
  using assms
proof (induction xss arbitrary: s H h t0)
  case (Cons xs xss)
  from store_run_rep [OF Cons.prems(1), of xs] obtain s' where
    s': "store_run xs s = Some s'" "store_rep s' (abs_run xs H)"
    "st_instance s' = st_instance s" "st_capacity s' = st_capacity s" .
  have h': "abs_run xs H pid = Some (h @ appended pid xs)"
    by (rule abs_run_appended) (use Cons.prems in auto)
  let ?t' = "encodeToken (st_instance s) pid (int (length h + length (appended pid xs))) now"
  have "Store_Read now pid (encodeToken (st_instance s) pid (int (length h)) t0) s' s' =
      Inr (appended pid xs, ?t')"
    using log.rd_at [OF s'(2) h', of t0 now] Cons.prems s'(3,4)
    by (auto simp: in_int64_def int64_min_def)
  moreover have "poll now pid ?t' xss s' = Some (map (appended pid) xss)"
    using Cons.IH [OF s'(2) h', of now] Cons.prems s'(3,4) by (auto simp: add.assoc)
  ultimately show ?case by (simp add: s'(1))
qed simp

subsection \<open>Watchers\<close>

lemma signal_ready:
  "(\<exists>x \<in> set (signal_watchers pid ws). w_id x = w \<and> w_pending x) \<longleftrightarrow>
   (\<exists>x \<in> set ws. w_id x = w \<and> (w_pending x \<or> w_pane x = pid))"
  by (induction ws) (auto simp: signal_watchers_def)

definition watching :: "nat \<Rightarrow> PaneID \<Rightarrow> Store \<Rightarrow> bool" where
  "watching w pid s \<longleftrightarrow> (\<exists>x \<in> set (st_watchers s). w_id x = w \<and> w_pane x = pid)"

lemma watch_ready_signal:
  assumes "store_rep s H" and "st_watchers s' = signal_watchers pid (st_watchers s)"
  shows "watch_ready w s' \<longleftrightarrow> watch_ready w s \<or> watching w pid s"
  using assms(2) by (auto simp: watch_ready_def watching_def signal_ready)

subsection \<open>Properties\<close>

text \<open>C1: mint a token for a pane, let any operations of the store happen except the
  destruction of that pane, then read with the token. If what was appended to the pane
  fits the retention budget, the read returns exactly those bytes, none lost and none
  twice, and a token for the new head; if it does not fit, the read reports the eviction.\<close>

theorem read_since_token:
  assumes "store_rep s H" and "utf8_valid (st_instance s)" "utf8_valid pid" and "in_int64 t0"
    and "in_int64 (int (length (known_stream H pid)))" and "OpForget pid \<notin> set xs"
  shows "\<exists>t s1 s2. Store_NewToken t0 pid s = Some (t, s1) \<and> store_run xs s1 = Some s2 \<and>
    Store_Read now pid t s2 s2 =
      (if int (length (appended pid xs)) \<le> st_capacity s
       then Inr (appended pid xs, encodeToken (st_instance s) pid
              (int (length (known_stream H pid) + length (appended pid xs))) now)
       else Inl ErrTokenEvicted)"
proof (cases "int (length (appended pid xs)) \<le> st_capacity s")
  case True
  with log.mint_run_rd [OF assms True, of now] show ?thesis by simp
next
  case False
  then have "st_capacity s < int (length (appended pid xs))" by simp
  from log.mint_run_rd_evicted [OF assms this, of now] False show ?thesis by simp
qed

theorem read_since_token_witness:
  "\<exists>t s1 s2. Store_NewToken 5 ''%1'' (Store_New ''AB'' 3) = Some (t, s1) \<and>
     store_run [OpAppend 6 ''%1'' ''ab'', OpAppend 7 ''%2'' ''zzzz'', OpAppend 8 ''%1'' ''c''] s1 = Some s2 \<and>
     Store_Read 9 ''%1'' t s2 s2 = Inr (''abc'', encodeToken ''4142'' ''%1'' 3 9)"
proof -
  have inst: "st_instance (Store_New ''AB'' 3) = ''4142''" "utf8_valid ''4142''" "utf8_valid ''%1''"
    by code_simp+
  show ?thesis
    using read_since_token [OF store_rep_new [of 3 "''AB''"], of "''%1''" 5
        "[OpAppend 6 ''%1'' ''ab'', OpAppend 7 ''%2'' ''zzzz'', OpAppend 8 ''%1'' ''c'']" 9] inst
    by (simp add: in_int64_def int64_min_def int64_max_def Store_New_def)
qed

text \<open>C4: a client that reads in a loop, passing each time the token of the read before,
  gets every byte appended to the pane exactly once and in order, whatever the store does
  between its reads, provided that the pane is not destroyed and that what is appended to
  it between two reads fits the retention budget.\<close>

theorem poll_exactly_once:
  assumes "store_rep s H" and "utf8_valid (st_instance s)" "utf8_valid pid"
    and "in_int64 t0" "in_int64 now"
    and "in_int64 (int (length (known_stream H pid) + length (appended pid (concat xss))))"
    and "\<forall>xs \<in> set xss. OpForget pid \<notin> set xs \<and> int (length (appended pid xs)) \<le> st_capacity s"
  shows "\<exists>t s1 outs. Store_NewToken t0 pid s = Some (t, s1) \<and> poll now pid t xss s1 = Some outs \<and>
    concat outs = appended pid (concat xss)"
proof -
  from Store_NewToken_rep [OF assms(1), of t0 pid] obtain s1 where s1: "Store_NewToken t0 pid s =
      Some (encodeToken (st_instance s) pid (int (length (known_stream H pid))) t0, s1)"
    "store_rep s1 (touched pid H)" "st_instance s1 = st_instance s" "st_capacity s1 = st_capacity s" .
  have "poll now pid (encodeToken (st_instance s1) pid (int (length (known_stream H pid))) t0) xss s1
      = Some (map (appended pid) xss)"
    by (rule poll_outputs [OF s1(2)]) (use assms s1 in auto)
  then show ?thesis using s1 by (auto simp: appended_concat)
qed

theorem poll_exactly_once_witness:
  "\<exists>t s1 outs. Store_NewToken 5 ''%1'' (Store_New ''AB'' 3) = Some (t, s1) \<and>
     poll 9 ''%1'' t [[OpAppend 6 ''%1'' ''ab''], [], [OpForget ''%2'', OpAppend 7 ''%1'' ''cde'']] s1
       = Some outs \<and> concat outs = ''abcde''"
proof -
  have inst: "st_instance (Store_New ''AB'' 3) = ''4142''" "utf8_valid ''4142''" "utf8_valid ''%1''"
    by code_simp+
  show ?thesis
    using poll_exactly_once [OF store_rep_new [of 3 "''AB''"], of "''%1''" 5 9
        "[[OpAppend 6 ''%1'' ''ab''], [], [OpForget ''%2'', OpAppend 7 ''%1'' ''cde'']]"] inst
    by (simp add: in_int64_def int64_min_def int64_max_def Store_New_def)
qed

text \<open>C5: the store is a map from panes to byte streams. After any sequence of operations
  on a new store nothing has panicked, and every read, with any token whatever, gives the
  outcome the streams determine: the unknown pane first, then the malformed token, the
  foreign instance, the foreign pane, the offset outside the retained window, and
  otherwise the stream from the offset on.\<close>

theorem store_refines_streams:
  assumes "0 < capacity"
  shows "\<exists>s. store_run xs (Store_New rnd capacity) = Some s \<and>
    (\<forall>now pid after. Store_Read now pid after s s =
       stream_read (hex_encode rnd) capacity now pid (decodeToken after)
         (abs_run xs Map.empty pid) (abs_run xs Map.empty pid)) \<and>
    (\<forall>pid. Store_HasPane pid s \<longleftrightarrow> abs_run xs Map.empty pid \<noteq> None)"
proof -
  from store_run_rep [OF store_rep_new [OF assms, of rnd], of xs] obtain s where
    s: "store_run xs (Store_New rnd capacity) = Some s" "store_rep s (abs_run xs Map.empty)"
    "st_instance s = st_instance (Store_New rnd capacity)"
    "st_capacity s = st_capacity (Store_New rnd capacity)" .
  have "Store_HasPane pid s \<longleftrightarrow> abs_run xs Map.empty pid \<noteq> None" for pid
    using store_rep_dom [OF s(2)] by (simp add: Store_HasPane_def)
  with Store_Read_rep [OF s(2,2)] s show ?thesis by (simp add: Store_New_def)
qed

theorem store_refines_streams_witness:
  "\<exists>s. store_run [OpAppend 1 ''%1'' ''abcde'', OpForget ''%2'', OpAppend 2 ''%3'' ''x''] (Store_New ''AB'' 2) = Some s \<and>
     Store_Read 9 ''%2'' ''junk'' s s = Inl ErrPaneUnknown \<and>
     Store_Read 9 ''%1'' ''j'' s s = Inl ErrTokenMalformed"
proof -
  have "decodeToken ''j'' = Inl ErrTokenMalformed" by code_simp
  then show ?thesis
    using store_refines_streams [of 2 "[OpAppend 1 ''%1'' ''abcde'', OpForget ''%2'', OpAppend 2 ''%3'' ''x'']" "''AB''"]
    by (auto simp: stream_read_def)
qed

text \<open>C31: tokens are scoped. A token minted by any store for any pane, at any offset, read
  for a pane the reading store knows, is refused as foreign when the instances differ and
  as belonging to another pane when the panes differ, and the streams are never consulted.\<close>

theorem foreign_token_refused:
  assumes "utf8_valid inst" "utf8_valid p" "in_int64 off" "in_int64 t"
    and "st_bufs s1 q \<noteq> None" and "inst \<noteq> st_instance s1 \<or> p \<noteq> q"
  shows "Store_Read now q (encodeToken inst p off t) s1 s2 =
    Inl (if inst \<noteq> st_instance s1 then ErrTokenWrongInstance else ErrTokenWrongPane)"
  using assms wire.dec_enc [OF assms(1-4)] by (auto simp: Store_Read_def)

theorem foreign_token_refused_witness:
  "let s = Store_New ''AB'' 3; s1 = the (Store_Ensure ''%1'' s) in
   Store_Read 9 ''%1'' (encodeToken ''4142'' ''%2'' 0 5) s1 s = Inl ErrTokenWrongPane"
proof -
  have v: "utf8_valid ''4142''" "utf8_valid ''%2''" "hex_encode ''AB'' = ''4142''" by code_simp+
  have "st_bufs (the (Store_Ensure ''%1'' (Store_New ''AB'' 3))) ''%1'' \<noteq> None"
    "st_instance (the (Store_Ensure ''%1'' (Store_New ''AB'' 3))) = ''4142''"
    using v(3) by (simp_all add: Store_Ensure_def bufferLocked_def Store_New_def NewBuffer_def)
  with foreign_token_refused [OF v(1,2), of 0 5 "the (Store_Ensure ''%1'' (Store_New ''AB'' 3))" "''%1''" 9
      "Store_New ''AB'' 3"] show ?thesis
    by (simp add: in_int64_def int64_min_def int64_max_def)
qed

text \<open>C30: no lost wake-up. After an append of at least one byte or the destruction of a pane
  every channel registered for that pane is ready to receive, whether or not a signal was
  already pending, and no other channel's readiness changes.\<close>

theorem watchers_signalled:
  assumes "store_rep s H" and "p \<noteq> []"
  shows "\<exists>s'. Store_Append now pid p s = Some s' \<and>
    (\<forall>w. watch_ready w s' \<longleftrightarrow> watch_ready w s \<or> watching w pid s) \<and>
    (\<forall>w. watch_ready w (Store_Forget pid s) \<longleftrightarrow> watch_ready w s \<or> watching w pid s)"
proof -
  from Store_Append_rep [OF assms(1), of now pid p] assms(2) obtain s' where
    s': "Store_Append now pid p s = Some s'" "st_watchers s' = signal_watchers pid (st_watchers s)"
    by auto
  have "st_watchers (Store_Forget pid s) = signal_watchers pid (st_watchers s)"
    by (simp add: Store_Forget_def)
  with s' watch_ready_signal [OF assms(1)] show ?thesis by blast
qed

theorem watchers_signalled_witness:
  "let s = snd (Store_Watch ''%2'' (snd (Store_Watch ''%1'' (Store_New ''AB'' 3)))) in
   \<exists>s'. Store_Append 4 ''%1'' ''x'' s = Some s' \<and> watch_ready 0 s' \<and> \<not> watch_ready 1 s'"
proof -
  let ?s = "snd (Store_Watch ''%2'' (snd (Store_Watch ''%1'' (Store_New ''AB'' 3))))"
  have w: "watching 0 ''%1'' ?s" "\<not> watching 1 ''%1'' ?s" "\<not> watch_ready 1 ?s"
    by (simp_all add: watching_def watch_ready_def Store_Watch_def Store_New_def)
  have "store_rep ?s Map.empty" by (intro Store_Watch_rep store_rep_new) simp
  from watchers_signalled [OF this, of "''x''" 4 "''%1''"] w show ?thesis by auto
qed

text \<open>A token outlives the destruction of its pane. When a pane is forgotten and a pane
  of the same id is written to later, the old token, whose offset the new stream has
  reached again, is accepted and reads bytes of the new stream from the old offset on.\<close>

lemma token_outlives_pane:
  assumes "store_rep s H" and "H pid = Some h" and "utf8_valid (st_instance s)" "utf8_valid pid"
    and "in_int64 t0" "in_int64 (int (length h))"
    and "length h \<le> length p" and "int (length p) \<le> st_capacity s" and "p \<noteq> []"
  shows "\<exists>t s1 s2. Store_NewToken t0 pid s = Some (t, s1) \<and>
    store_run [OpForget pid, OpAppend t1 pid p] s1 = Some s2 \<and>
    Store_Read now pid t s2 s2 =
      Inr (drop (length h) p, encodeToken (st_instance s) pid (int (length p)) now)"
proof -
  from Store_NewToken_rep [OF assms(1), of t0 pid] obtain s1 where s1: "Store_NewToken t0 pid s =
      Some (encodeToken (st_instance s) pid (int (length (known_stream H pid))) t0, s1)"
    "store_rep s1 (touched pid H)" "st_instance s1 = st_instance s" "st_capacity s1 = st_capacity s" .
  from store_run_rep [OF s1(2), of "[OpForget pid, OpAppend t1 pid p]"] obtain s2 where
    s2: "store_run [OpForget pid, OpAppend t1 pid p] s1 = Some s2"
    "store_rep s2 (abs_run [OpForget pid, OpAppend t1 pid p] (touched pid H))"
    "st_instance s2 = st_instance s1" "st_capacity s2 = st_capacity s1" .
  have h: "known_stream H pid = h" "abs_run [OpForget pid, OpAppend t1 pid p] (touched pid H) pid = Some p"
    using assms(2,9) by (simp_all add: known_stream_def)
  have d: "decodeToken (encodeToken (st_instance s) pid (int (length h)) t0) =
      Inr \<lparr>tp_I = st_instance s, tp_P = pid, tp_O = int (length h), tp_T = t0\<rparr>"
    by (rule wire.dec_enc) (use assms in auto)
  have "Store_Read now pid (encodeToken (st_instance s) pid (int (length h)) t0) s2 s2 =
      Inr (drop (length h) p, encodeToken (st_instance s) pid (int (length p)) now)"
    unfolding Store_Read_rep [OF s2(2,2) refl] h(2) d using assms s1(3,4) s2(3,4)
    by (simp add: stream_read_def)
  with s1(1) s2(1) h(1) show ?thesis by auto
qed

lemma token_outlives_pane_example:
  "\<exists>t s1 s2. Store_NewToken 5 ''%1'' (the (store_run [OpAppend 1 ''%1'' ''ab''] (Store_New ''AB'' 8))) = Some (t, s1) \<and>
     store_run [OpForget ''%1'', OpAppend 6 ''%1'' ''xyz''] s1 = Some s2 \<and>
     Store_Read 9 ''%1'' t s2 s2 = Inr (''z'', encodeToken ''4142'' ''%1'' 3 9)"
proof -
  let ?s0 = "Store_New ''AB'' 8"
  from store_run_rep [OF store_rep_new [of 8 "''AB''"], of "[OpAppend 1 ''%1'' ''ab'']"] obtain s where
    s: "store_run [OpAppend 1 ''%1'' ''ab''] ?s0 = Some s" "store_rep s (abs_run [OpAppend 1 ''%1'' ''ab''] Map.empty)"
    "st_instance s = st_instance ?s0" "st_capacity s = st_capacity ?s0" by auto
  have v: "st_instance ?s0 = ''4142''" "utf8_valid ''4142''" "utf8_valid ''%1''" by code_simp+
  show ?thesis
    using token_outlives_pane [OF s(2), of "''%1''" "''ab''" 5 "''xyz''" 6 9] v s
    by (simp add: in_int64_def int64_min_def int64_max_def Store_New_def)
qed

end
