(* ===== verification/Textnorm.thy ===== *)
theory Textnorm
  imports Prelude
begin

section \<open>Textnorm: text normalization (internal/textnorm/normalize.go)\<close>

text \<open>
  The index loops of \<open>stripANSI\<close> are functions on the rest of the input: each skipping
  loop returns what follows the sequence. The specification is a grammar of terminal
  output (\<open>ansi_item\<close>) whose printable part is what stripping must leave.
\<close>

text \<open>After \<open>ESC [\<close>: parameter bytes, intermediate bytes, at most one final byte.\<close>

definition skip_final :: "nat \<Rightarrow> string \<Rightarrow> string" where
  "skip_final lo s = (case s of c # r \<Rightarrow> if byte_in lo 0x7E c then r else s | [] \<Rightarrow> [])"

definition skip_csi :: "string \<Rightarrow> string" where
  "skip_csi s = skip_final 0x40 (dropWhile (byte_in 0x20 0x2F) (dropWhile (byte_in 0x30 0x3F) s))"

text \<open>After \<open>ESC ]\<close>: everything up to BEL or \<open>ESC \\<close>, or all of it.\<close>

fun skip_osc :: "string \<Rightarrow> string" where
  "skip_osc [] = []"
| "skip_osc (c # cs) =
     (if c = ch_bel then cs
      else if c = ch_esc \<and> cs \<noteq> [] \<and> hd cs = ch_bslash then tl cs
      else skip_osc cs)"

text \<open>After \<open>ESC P\<close>, \<open>ESC X\<close>, \<open>ESC ^\<close>, \<open>ESC _\<close>: everything up to \<open>ESC \\<close>.\<close>

fun skip_dcs :: "string \<Rightarrow> string" where
  "skip_dcs [] = []"
| "skip_dcs (c # cs) =
     (if c = ch_esc \<and> cs \<noteq> [] \<and> hd cs = ch_bslash then tl cs else skip_dcs cs)"

text \<open>After any other \<open>ESC\<close>: intermediate bytes and at most one final byte.\<close>

definition skip_generic :: "string \<Rightarrow> string" where
  "skip_generic s = skip_final 0x30 (dropWhile (byte_in 0x20 0x2F) s)"

lemma length_skip_final: "length (skip_final lo s) \<le> length s"
  by (cases s) (auto simp: skip_final_def)

lemma length_skip_csi: "length (skip_csi s) \<le> length s"
  unfolding skip_csi_def
  by (meson length_dropWhile_le length_skip_final order_trans)

lemma length_skip_generic: "length (skip_generic s) \<le> length s"
  unfolding skip_generic_def
  by (meson length_dropWhile_le length_skip_final order_trans)

lemma length_skip_osc: "length (skip_osc s) \<le> length s"
  by (induction s rule: skip_osc.induct) auto

lemma length_skip_dcs: "length (skip_dcs s) \<le> length s"
  by (induction s rule: skip_dcs.induct) auto

function strip_loop :: "string \<Rightarrow> string" where
  "strip_loop [] = []"
| "strip_loop (c # cs) =
     (if c \<noteq> ch_esc then c # strip_loop cs
      else case cs of
        [] \<Rightarrow> []
      | d # ds \<Rightarrow>
          if d = CHR 0x5B then strip_loop (skip_csi ds)
          else if d = CHR 0x5D then strip_loop (skip_osc ds)
          else if d \<in> {CHR ''P'', CHR ''X'', CHR 0x5E, CHR ''_''} then strip_loop (skip_dcs ds)
          else strip_loop (skip_generic cs))"
  by pat_completeness auto

termination
proof (relation "measure length", goal_cases)
  case (3 c cs d ds)
  then show ?case using length_skip_csi [of ds] by simp
next
  case (4 c cs d ds)
  then show ?case using length_skip_osc [of ds] by simp
next
  case (5 c cs d ds)
  then show ?case using length_skip_dcs [of ds] by simp
next
  case (6 c cs d ds)
  then show ?case using length_skip_generic [of cs] by simp
qed auto

definition stripANSI :: "string \<Rightarrow> string" where
  "stripANSI s = (if index_byte s ch_esc = None then s else strip_loop s)"

definition StripANSI :: "string \<Rightarrow> string" where "StripANSI s = stripANSI s"

definition drop_cr :: "string \<Rightarrow> string" where
  "drop_cr s = (if index_byte s ch_cr \<noteq> None then replace_all_empty ch_cr s else s)"

definition StripANSIAndCR :: "string \<Rightarrow> string" where
  "StripANSIAndCR s = drop_cr (stripANSI s)"

text \<open>The loop that drops empty lines from the end.\<close>

fun drop_last_empty :: "string list \<Rightarrow> string list" where
  "drop_last_empty [] = []"
| "drop_last_empty (l # ls) =
     (case drop_last_empty ls of [] \<Rightarrow> if l = [] then [] else [l] | r \<Rightarrow> l # r)"

definition blanks :: string where "blanks = [CHR 0x20, ch_tab]"

definition Normalize :: "string \<Rightarrow> string" where
  "Normalize s =
     (let lines = map (trim_right blanks) (split_on ch_nl (drop_cr (stripANSI s)))
      in join_with [ch_nl] (drop_last_empty lines))"

subsection \<open>Stripping\<close>

lemma strip_loop_id: "ch_esc \<notin> set s \<Longrightarrow> strip_loop s = s"
  by (induction s) auto

lemma stripANSI_loop: "stripANSI s = strip_loop s"
  by (simp add: stripANSI_def strip_loop_id)

lemma strip_loop_no_esc: "ch_esc \<notin> set (strip_loop s)"
  by (induction s rule: strip_loop.induct) (auto split: list.splits)

lemma drop_cr_filter: "drop_cr s = filter (\<lambda>c. c \<noteq> ch_cr) s"
proof (cases "ch_cr \<in> set s")
  case False
  then have "filter (\<lambda>c. c \<noteq> ch_cr) s = s" by (auto simp: filter_id_conv)
  with False show ?thesis by (simp add: drop_cr_def)
qed (simp add: drop_cr_def replace_all_empty_def)

lemma drop_cr_append [simp]: "drop_cr (a @ b) = drop_cr a @ drop_cr b"
  by (simp add: drop_cr_filter)

subsection \<open>The grammar of terminal output\<close>

datatype ansi_item =
    Printable char
  | CSI string string char
  | OSC string bool
  | DCS char string
  | Escape string char

fun ansi_bytes :: "ansi_item \<Rightarrow> bytes" where
  "ansi_bytes (Printable c) = [c]"
| "ansi_bytes (CSI ps is f) = [ch_esc, CHR 0x5B] @ ps @ is @ [f]"
| "ansi_bytes (OSC body bel) = [ch_esc, CHR 0x5D] @ body @ (if bel then [ch_bel] else [ch_esc, ch_bslash])"
| "ansi_bytes (DCS k body) = [ch_esc, k] @ body @ [ch_esc, ch_bslash]"
| "ansi_bytes (Escape is f) = [ch_esc] @ is @ [f]"

fun ansi_printable :: "ansi_item \<Rightarrow> bytes" where
  "ansi_printable (Printable c) = [c]"
| "ansi_printable _ = []"

fun ansi_wf :: "ansi_item \<Rightarrow> bool" where
  "ansi_wf (Printable c) \<longleftrightarrow> c \<noteq> ch_esc"
| "ansi_wf (CSI ps is f) \<longleftrightarrow>
     list_all (byte_in 0x30 0x3F) ps \<and> list_all (byte_in 0x20 0x2F) is \<and> byte_in 0x40 0x7E f"
| "ansi_wf (OSC body bel) \<longleftrightarrow> ch_esc \<notin> set body \<and> ch_bel \<notin> set body"
| "ansi_wf (DCS k body) \<longleftrightarrow> k \<in> {CHR ''P'', CHR ''X'', CHR 0x5E, CHR ''_''} \<and> ch_esc \<notin> set body"
| "ansi_wf (Escape is f) \<longleftrightarrow>
     list_all (byte_in 0x20 0x2F) is \<and> byte_in 0x30 0x7E f \<and>
     (is = [] \<longrightarrow> f \<notin> {CHR 0x5B, CHR 0x5D, CHR ''P'', CHR ''X'', CHR 0x5E, CHR ''_''})"

lemma dropWhile_stop: "list_all P ps \<Longrightarrow> s = [] \<or> \<not> P (hd s) \<Longrightarrow> dropWhile P (ps @ s) = s"
  by (induction ps) (cases s, auto)

lemma byte_in_disjoint: "byte_in lo hi c \<Longrightarrow> hi < lo' \<or> hi' < lo \<Longrightarrow> \<not> byte_in lo' hi' c"
  by (auto simp: byte_in_def)

lemma skip_csi_item:
  assumes "list_all (byte_in 0x30 0x3F) ps" "list_all (byte_in 0x20 0x2F) is" "byte_in 0x40 0x7E f"
  shows "skip_csi (ps @ is @ f # t) = t"
proof -
  have "\<not> byte_in 0x30 0x3F (hd (is @ f # t))"
    using assms(2,3) by (cases "is") (auto dest: byte_in_disjoint [of _ _ _ "0x30" "0x3F"])
  then have "dropWhile (byte_in 0x30 0x3F) (ps @ is @ f # t) = is @ f # t"
    by (intro dropWhile_stop [OF assms(1)]) simp
  moreover have "dropWhile (byte_in 0x20 0x2F) (is @ f # t) = f # t"
    by (rule dropWhile_stop [OF assms(2)])
      (use byte_in_disjoint [OF assms(3), of "0x20" "0x2F"] in auto)
  ultimately show ?thesis using assms(3) by (simp add: skip_csi_def skip_final_def)
qed

lemma skip_generic_item:
  assumes "list_all (byte_in 0x20 0x2F) is" "byte_in 0x30 0x7E f"
  shows "skip_generic (is @ f # t) = t"
proof -
  have "dropWhile (byte_in 0x20 0x2F) (is @ f # t) = f # t"
    by (rule dropWhile_stop [OF assms(1)])
      (use byte_in_disjoint [OF assms(2), of "0x20" "0x2F"] in auto)
  then show ?thesis using assms(2) by (simp add: skip_generic_def skip_final_def)
qed

lemma skip_osc_item:
  "ch_esc \<notin> set body \<Longrightarrow> ch_bel \<notin> set body \<Longrightarrow>
   skip_osc (body @ ch_bel # t) = t \<and> skip_osc (body @ ch_esc # ch_bslash # t) = t"
  by (induction body) auto

lemma skip_dcs_item: "ch_esc \<notin> set body \<Longrightarrow> skip_dcs (body @ ch_esc # ch_bslash # t) = t"
  by (induction body) auto

lemma strip_item:
  assumes "ansi_wf x"
  shows "strip_loop (ansi_bytes x @ t) = ansi_printable x @ strip_loop t"
proof (cases x)
  case (CSI ps im f)
  then have "skip_csi (ps @ im @ f # t) = t" using assms by (simp add: skip_csi_item)
  with CSI show ?thesis by simp
next
  case (OSC body bel)
  then have "skip_osc (body @ ch_bel # t) = t \<and> skip_osc (body @ ch_esc # ch_bslash # t) = t"
    using assms by (simp add: skip_osc_item)
  with OSC show ?thesis by simp
next
  case (DCS k body)
  then have "skip_dcs (body @ ch_esc # ch_bslash # t) = t" using assms by (simp add: skip_dcs_item)
  with DCS assms show ?thesis by auto
next
  case (Escape im f)
  then have s: "skip_generic (im @ f # t) = t" using assms by (simp add: skip_generic_item)
  show ?thesis
  proof (cases im)
    case Nil
    with Escape assms s show ?thesis by auto
  next
    case (Cons d ds)
    with Escape assms have d: "byte_in 0x20 0x2F d" by simp
    have "d \<notin> {CHR 0x5B, CHR 0x5D, CHR ''P'', CHR ''X'', CHR 0x5E, CHR ''_''}"
      using d by (auto simp: byte_in_def)
    with Escape Cons s show ?thesis by simp
  qed
qed (use assms in auto)

lemma strip_items:
  "list_all ansi_wf xs \<Longrightarrow>
   strip_loop (concat (map ansi_bytes xs) @ t) = concat (map ansi_printable xs) @ strip_loop t"
  by (induction xs) (simp_all add: strip_item del: ansi_bytes.simps ansi_printable.simps)

subsection \<open>Normalized text\<close>

definition clean_line :: "string \<Rightarrow> bool" where
  "clean_line l \<longleftrightarrow> l = [] \<or> last l \<notin> set blanks"

definition clean_text :: "string \<Rightarrow> bool" where
  "clean_text s \<longleftrightarrow> ch_esc \<notin> set s \<and> ch_cr \<notin> set s \<and>
     (\<forall>l \<in> set (split_on ch_nl s). clean_line l) \<and> (s = [] \<or> last (split_on ch_nl s) \<noteq> [])"

lemma drop_last_empty_last: "drop_last_empty ls = [] \<or> last (drop_last_empty ls) \<noteq> []"
  by (induction ls) (auto split: list.splits)

lemma drop_last_empty_set: "set (drop_last_empty ls) \<subseteq> set ls"
  by (induction ls) (auto split: list.splits)

lemma drop_last_empty_id: "ls \<noteq> [] \<Longrightarrow> last ls \<noteq> [] \<Longrightarrow> drop_last_empty ls = ls"
proof (induction ls)
  case (Cons l ls)
  then show ?case by (cases ls) auto
qed simp

lemma blanks_no_nl: "ch_nl \<notin> set blanks"
  by (simp add: blanks_def)

lemma Normalize_lines:
  "\<exists>ls. Normalize s = join_with [ch_nl] ls \<and>
     (\<forall>l \<in> set ls. clean_line l \<and> ch_nl \<notin> set l \<and> ch_esc \<notin> set l \<and> ch_cr \<notin> set l) \<and>
     (ls = [] \<or> last ls \<noteq> [])"
proof -
  let ?t = "drop_cr (stripANSI s)"
  let ?ls = "drop_last_empty (map (trim_right blanks) (split_on ch_nl ?t))"
  have t: "ch_esc \<notin> set ?t" "ch_cr \<notin> set ?t"
    using strip_loop_no_esc [of s] by (auto simp: stripANSI_loop drop_cr_filter)
  have "clean_line l \<and> ch_nl \<notin> set l \<and> ch_esc \<notin> set l \<and> ch_cr \<notin> set l" if "l \<in> set ?ls" for l
  proof -
    from that drop_last_empty_set obtain m where m: "m \<in> set (split_on ch_nl ?t)" "l = trim_right blanks m"
      by fastforce
    have "set l \<subseteq> set m" using m(2) trim_right_set by simp
    with split_on_no_sep [OF m(1)] split_on_set [OF m(1)] t
    have "ch_nl \<notin> set l \<and> ch_esc \<notin> set l \<and> ch_cr \<notin> set l" by blast
    moreover have "clean_line l" using trim_right_last [of blanks m] m(2) by (auto simp: clean_line_def)
    ultimately show ?thesis by simp
  qed
  with drop_last_empty_last show ?thesis
    by (intro exI [of _ ?ls]) (auto simp: Normalize_def Let_def)
qed

lemma Normalize_clean_text: "clean_text (Normalize s)"
proof -
  from Normalize_lines [of s] obtain ls where ls: "Normalize s = join_with [ch_nl] ls"
    "\<forall>l \<in> set ls. clean_line l \<and> ch_nl \<notin> set l \<and> ch_esc \<notin> set l \<and> ch_cr \<notin> set l"
    "ls = [] \<or> last ls \<noteq> []" by blast
  show ?thesis
  proof (cases "ls = []")
    case True
    with ls(1) show ?thesis by (simp add: clean_text_def clean_line_def)
  next
    case False
    have sp: "split_on ch_nl (join_with [ch_nl] ls) = ls"
      using ls(2) False by (intro split_join) auto
    have "set (join_with [ch_nl] ls) \<subseteq> {ch_nl} \<union> (\<Union>l \<in> set ls. set l)"
      using set_join_with [of "[ch_nl]" ls] by simp
    then have "ch_esc \<notin> set (join_with [ch_nl] ls)" "ch_cr \<notin> set (join_with [ch_nl] ls)"
      using ls(2) by auto
    with sp ls False show ?thesis by (auto simp: clean_text_def)
  qed
qed

lemma Normalize_id:
  assumes "clean_text s"
  shows "Normalize s = s"
proof -
  have "stripANSI s = s" "drop_cr s = s"
    using assms by (auto simp: clean_text_def stripANSI_def drop_cr_def)
  moreover have "map (trim_right blanks) (split_on ch_nl s) = split_on ch_nl s"
    using assms by (intro map_idI) (auto simp: clean_text_def clean_line_def intro!: trim_right_id)
  moreover have "join_with [ch_nl] (drop_last_empty (split_on ch_nl s)) = s"
  proof (cases "s = []")
    case False
    with assms have "last (split_on ch_nl s) \<noteq> []" by (simp add: clean_text_def)
    then show ?thesis by (simp add: drop_last_empty_id)
  qed simp
  ultimately show ?thesis by (simp add: Normalize_def)
qed

subsection \<open>Properties\<close>

text \<open>C34: on terminal output, a sequence of printable bytes, CSI, OSC and DCS sequences and
  other escapes in any mixture, stripping leaves the printable bytes, all of them in
  order, and nothing else; what is left contains no ESC, on any input at all.\<close>

theorem strip_leaves_printable:
  assumes "list_all ansi_wf xs"
  shows "stripANSI (concat (map ansi_bytes xs)) = concat (map ansi_printable xs) \<and>
    ch_esc \<notin> set (stripANSI s)"
  using strip_items [OF assms, of "[]"] strip_loop_no_esc [of s] by (simp add: stripANSI_loop)

theorem strip_leaves_printable_witness:
  "stripANSI ([CHR 0x1B] @ ''[1;31mok'' @ [CHR 0x1B, CHR 0x5D] @ ''0;title'' @ [CHR 0x07] @ ''!'') = ''ok!''"
  using strip_leaves_printable [of "[CSI ''1;31'' [] CHR ''m'', Printable CHR ''o'', Printable CHR ''k'',
    OSC ''0;title'' True, Printable CHR ''!'']"]
  by (simp add: byte_in_def)

text \<open>C35: the text fields of the responses are normalized. The result of Normalize has no
  escape, no carriage return, no blank at the end of a line and no empty last line; text
  with these four properties, and no other, is left as it is, so normalizing twice is
  normalizing once.\<close>

theorem Normalize_clean:
  "clean_text (Normalize s) \<and> (Normalize s = s \<longleftrightarrow> clean_text s) \<and>
   Normalize (Normalize s) = Normalize s"
  using Normalize_clean_text Normalize_id by metis

text \<open>Stripping is not compositional. When output is cut inside a CSI sequence and the
  two parts are stripped on their own, as two consecutive reads do, the tail of the
  sequence appears in the second text, while the whole output has nothing of it.\<close>

lemma split_sequence_leaks:
  assumes "list_all (byte_in 0x30 0x3F) (ps @ qs)" "byte_in 0x40 0x7E f" "ch_esc \<notin> set t"
  shows "StripANSI ([ch_esc, CHR 0x5B] @ ps) @ StripANSI (qs @ f # t) = qs @ f # t \<and>
    StripANSI (([ch_esc, CHR 0x5B] @ ps) @ (qs @ f # t)) = t"
proof -
  have ne: "\<not> byte_in 0x30 0x3F ch_esc" "\<not> byte_in 0x40 0x7E ch_esc" by (simp_all add: byte_in_def)
  have q: "ch_esc \<notin> set (qs @ f # t)"
    using assms ne by (auto simp: list_all_iff)
  have "skip_csi ps = []"
  proof -
    have "dropWhile (byte_in 0x30 0x3F) ps = []" using assms(1) by (simp add: list_all_iff)
    then show ?thesis unfolding skip_csi_def skip_final_def by (simp only: dropWhile.simps list.case)
  qed
  moreover have "skip_csi ((ps @ qs) @ [] @ f # t) = t"
    by (rule skip_csi_item) (use assms in auto)
  ultimately show ?thesis
    using q assms(3) by (simp add: StripANSI_def stripANSI_loop strip_loop_id)
qed

lemma split_sequence_leaks_example:
  "StripANSI [CHR 0x1B, CHR ''['', CHR ''3''] @ StripANSI ''1mred'' = ''1mred'' \<and>
   StripANSI ([CHR 0x1B, CHR ''['', CHR ''3''] @ ''1mred'') = ''red''"
  using split_sequence_leaks [of "''3''" "''1''" "CHR ''m''" "''red''"] by (simp add: byte_in_def)

end
