(* ===== verification/Tmuxctl.thy ===== *)
theory Tmuxctl
  imports Domain Strconv
begin

section \<open>Tmuxctl: the tmux port, its adapter and its fake (internal/tmuxctl)\<close>

text \<open>
  tmux is a program outside the repository: a function \<open>tmux\<close> from the arguments of one
  invocation and a world to the outcome of the process and the next world. The methods of
  the port are functions on the world. The interface \<open>Port\<close> of the source is the locale
  \<open>port\<close>; both the adapter and the fake are interpretations of it.
\<close>

datatype PaneOutput =
    Output PaneID bytes
  | Closed PaneID
  | ServerLost

record tmux_result =
  tr_err :: "string option"
  tr_stdout :: bytes
  tr_stderr :: bytes

type_synonym 'w tmux = "string list \<Rightarrow> 'w \<Rightarrow> tmux_result \<times> 'w"

record Opts =
  op_SocketPath :: string
  op_SocketName :: string

subsection \<open>The adapter\<close>

text \<open>The arguments after \<open>tmux\<close>, with the socket flags first (\<open>cmd\<close> and \<open>cmdCtx\<close>).\<close>

definition Adapter_cmd :: "Opts \<Rightarrow> string list \<Rightarrow> string list" where
  "Adapter_cmd opts args =
     (if op_SocketPath opts \<noteq> [] then [''-S'', op_SocketPath opts] else [])
     @ (if op_SocketName opts \<noteq> [] then [''-L'', op_SocketName opts] else [])
     @ args"

text \<open>\<open>fmt.Errorf("<what>: %w: %s", err, strings.TrimSpace(stderr))\<close>.\<close>

definition tmux_error :: "string \<Rightarrow> string \<Rightarrow> bytes \<Rightarrow> go_error" where
  "tmux_error what err stderr = Runtime (what @ '': '' @ err @ '': '' @ trim_space stderr)"

definition isPaneMissingStderr :: "string \<Rightarrow> bool" where
  "isPaneMissingStderr s \<longleftrightarrow>
     contains s (''can'' @ [ch_apos] @ ''t find pane'') \<or> contains s ''no such pane''
     \<or> contains s ''pane not found''"

definition Adapter_ListPanes :: "'w tmux \<Rightarrow> Opts \<Rightarrow> 'w \<Rightarrow> (go_error + PaneID list) \<times> 'w" where
  "Adapter_ListPanes tmux opts w =
     (case tmux (Adapter_cmd opts [''list-panes'', ''-a'', ''-F'', ''#{pane_id}'']) w of
        (r, w') \<Rightarrow>
          (case tr_err r of
             Some err \<Rightarrow> (Inl (tmux_error ''tmux list-panes'' err (tr_stderr r)), w')
           | None \<Rightarrow>
               let out = trim_right [ch_nl] (tr_stdout r)
               in if out = [] then (Inr [], w') else (Inr (split_on ch_nl out), w')))"

definition Adapter_SendText :: "'w tmux \<Rightarrow> Opts \<Rightarrow> PaneID \<Rightarrow> string \<Rightarrow> bool \<Rightarrow> 'w \<Rightarrow> go_error option \<times> 'w" where
  "Adapter_SendText tmux opts pid txt enter w =
     (case tmux (Adapter_cmd opts [''send-keys'', ''-l'', ''-t'', pid, ''--'', txt]) w of
        (r, w1) \<Rightarrow>
          (case tr_err r of
             Some err \<Rightarrow>
               (if isPaneMissingStderr (tr_stderr r) then (Some ErrTmuxPaneNotFound, w1)
                else (Some (tmux_error ''tmux send-keys -l'' err (tr_stderr r)), w1))
           | None \<Rightarrow>
               if enter then
                 (case tmux (Adapter_cmd opts [''send-keys'', ''-t'', pid, ''--'', ''Enter'']) w1 of
                    (r2, w2) \<Rightarrow>
                      (case tr_err r2 of
                         Some err \<Rightarrow>
                           (if isPaneMissingStderr (tr_stderr r2) then (Some ErrTmuxPaneNotFound, w2)
                            else (Some (tmux_error ''tmux send-keys Enter'' err (tr_stderr r2)), w2))
                       | None \<Rightarrow> (None, w2)))
               else (None, w1)))"

definition escape_key :: "string \<Rightarrow> string" where
  "escape_key k = (if k = '';'' then [ch_bslash, CHR '';''] else k)"

definition is_key_stderr :: "string \<Rightarrow> bool" where
  "is_key_stderr msg \<longleftrightarrow>
     contains msg ''unknown key'' \<or> contains msg ''invalid key'' \<or> contains msg ''bad key''"

definition Adapter_SendKeys :: "'w tmux \<Rightarrow> Opts \<Rightarrow> PaneID \<Rightarrow> string list \<Rightarrow> 'w \<Rightarrow> go_error option \<times> 'w" where
  "Adapter_SendKeys tmux opts pid keys w =
     (if length keys = 0 then (Some (Runtime ''send-keys: no keys''), w)
      else case tmux (Adapter_cmd opts ([''send-keys'', ''-t'', pid, ''--''] @ map escape_key keys)) w of
        (r, w') \<Rightarrow>
          (case tr_err r of
             Some err \<Rightarrow>
               (if isPaneMissingStderr (tr_stderr r) then (Some ErrTmuxPaneNotFound, w')
                else if is_key_stderr (tr_stderr r)
                  then (Some (ErrTmuxInvalidKey (trim_space (tr_stderr r))), w')
                else (Some (tmux_error ''tmux send-keys'' err (tr_stderr r)), w'))
           | None \<Rightarrow> (None, w')))"

definition Adapter_CaptureScrollback :: "'w tmux \<Rightarrow> Opts \<Rightarrow> PaneID \<Rightarrow> int \<Rightarrow> 'w \<Rightarrow> (go_error + string) \<times> 'w" where
  "Adapter_CaptureScrollback tmux opts pid lines w =
     (if lines \<le> 0 then (Inr [], w)
      else case tmux (Adapter_cmd opts
               [''capture-pane'', ''-p'', ''-S'', CHR ''-'' # itoa lines, ''-E'', ''-1'', ''-t'', pid]) w of
        (r, w') \<Rightarrow>
          (case tr_err r of
             Some err \<Rightarrow>
               (if isPaneMissingStderr (tr_stderr r) then (Inl ErrTmuxPaneNotFound, w')
                else (Inl (tmux_error ''tmux capture-pane scrollback'' err (tr_stderr r)), w'))
           | None \<Rightarrow> (Inr (tr_stdout r), w')))"

definition Adapter_CapturePane :: "'w tmux \<Rightarrow> Opts \<Rightarrow> PaneID \<Rightarrow> 'w \<Rightarrow> (go_error + string) \<times> 'w" where
  "Adapter_CapturePane tmux opts pid w =
     (case tmux (Adapter_cmd opts [''capture-pane'', ''-p'', ''-t'', pid]) w of
        (r, w') \<Rightarrow>
          (case tr_err r of
             Some err \<Rightarrow>
               (if contains (tr_stderr r) (''can'' @ [ch_apos] @ ''t find pane'')
                   \<or> contains (tr_stderr r) ''no such pane''
                then (Inl ErrTmuxPaneNotFound, w')
                else (Inl (tmux_error ''tmux capture-pane'' err (tr_stderr r)), w'))
           | None \<Rightarrow> (Inr (tr_stdout r), w')))"

text \<open>\<open>shellQuote\<close>: the word as the shell must read it back.\<close>

definition quote_char :: "char \<Rightarrow> string" where
  "quote_char c = (if c = ch_apos then [ch_apos, ch_bslash, ch_apos, ch_apos] else [c])"

definition shellQuote :: "string \<Rightarrow> string" where
  "shellQuote s = [ch_apos] @ concat (map quote_char s) @ [ch_apos]"

subsection \<open>The fake\<close>

text \<open>
  The fake's hooks are options, its maps and recorded calls are fields; a subscriber is a
  channel, here the list of the events sent to it.
\<close>

record FakeSendText =
  fst_ID :: PaneID
  fst_Text :: string
  fst_Enter :: bool

record FakeSendKeys =
  fsk_ID :: PaneID
  fsk_Keys :: "string list"

record Fake =
  fk_Panes :: "PaneID list"
  fk_Screens :: "PaneID \<Rightarrow> string option"
  fk_Scrollback :: "PaneID \<Rightarrow> string option"
  fk_ListPanesFn :: "(go_error + PaneID list) option"
  fk_CapturePaneFn :: "(PaneID \<Rightarrow> go_error + string) option"
  fk_CaptureScrollFn :: "(PaneID \<Rightarrow> int \<Rightarrow> go_error + string) option"
  fk_SendTextFn :: "(PaneID \<Rightarrow> string \<Rightarrow> bool \<Rightarrow> go_error option) option"
  fk_SendKeysFn :: "(PaneID \<Rightarrow> string list \<Rightarrow> go_error option) option"
  fk_subs :: "(nat \<times> PaneOutput list) list"
  fk_next :: nat
  fk_sentText :: "FakeSendText list"
  fk_sentKeys :: "FakeSendKeys list"

definition Fake_ListPanes :: "Fake \<Rightarrow> (go_error + PaneID list) \<times> Fake" where
  "Fake_ListPanes f =
     (case fk_ListPanesFn f of Some r \<Rightarrow> (r, f) | None \<Rightarrow> (Inr (fk_Panes f), f))"

definition Fake_CapturePane :: "PaneID \<Rightarrow> Fake \<Rightarrow> (go_error + string) \<times> Fake" where
  "Fake_CapturePane pid f =
     (case fk_CapturePaneFn f of
        Some g \<Rightarrow> (g pid, f)
      | None \<Rightarrow>
          (case fk_Screens f pid of
             Some txt \<Rightarrow> (Inr txt, f)
           | None \<Rightarrow> if pid \<in> set (fk_Panes f) then (Inr [], f) else (Inl ErrTmuxPaneNotFound, f)))"

definition Fake_CaptureScrollback :: "PaneID \<Rightarrow> int \<Rightarrow> Fake \<Rightarrow> (go_error + string) \<times> Fake" where
  "Fake_CaptureScrollback pid lines f =
     (case fk_CaptureScrollFn f of
        Some g \<Rightarrow> (g pid lines, f)
      | None \<Rightarrow>
          if lines \<le> 0 then (Inr [], f)
          else (case fk_Scrollback f pid of
             Some txt \<Rightarrow> (Inr txt, f)
           | None \<Rightarrow> if pid \<in> set (fk_Panes f) then (Inr [], f) else (Inl ErrTmuxPaneNotFound, f)))"

definition Fake_Subscribe :: "Fake \<Rightarrow> nat \<times> Fake" where
  "Fake_Subscribe f = (fk_next f, f\<lparr>fk_subs := fk_subs f @ [(fk_next f, [])], fk_next := Suc (fk_next f)\<rparr>)"

text \<open>The goroutine that waits for the context: the channel leaves the list and is closed.\<close>

fun remove_sub :: "nat \<Rightarrow> (nat \<times> 'a) list \<Rightarrow> (nat \<times> 'a) list" where
  "remove_sub n [] = []"
| "remove_sub n (x # xs) = (if fst x = n then xs else x # remove_sub n xs)"

definition Fake_unsubscribe :: "nat \<Rightarrow> Fake \<Rightarrow> Fake" where
  "Fake_unsubscribe n f = f\<lparr>fk_subs := remove_sub n (fk_subs f)\<rparr>"

definition fake_send :: "PaneOutput \<Rightarrow> Fake \<Rightarrow> Fake" where
  "fake_send ev f = f\<lparr>fk_subs := map (\<lambda>(n, evs). (n, evs @ [ev])) (fk_subs f)\<rparr>"

definition Fake_Emit :: "PaneID \<Rightarrow> bytes \<Rightarrow> Fake \<Rightarrow> Fake" where
  "Fake_Emit pid data f = fake_send (Output pid data) f"

definition Fake_EmitClosed :: "PaneID \<Rightarrow> Fake \<Rightarrow> Fake" where
  "Fake_EmitClosed pid f = fake_send (Closed pid) f"

definition Fake_EmitServerLost :: "Fake \<Rightarrow> Fake" where
  "Fake_EmitServerLost f = fake_send ServerLost f"

definition Fake_SendText :: "PaneID \<Rightarrow> string \<Rightarrow> bool \<Rightarrow> Fake \<Rightarrow> go_error option \<times> Fake" where
  "Fake_SendText pid txt enter f =
     (let f1 = f\<lparr>fk_sentText := fk_sentText f @ [\<lparr>fst_ID = pid, fst_Text = txt, fst_Enter = enter\<rparr>]\<rparr>
      in case fk_SendTextFn f of Some g \<Rightarrow> (g pid txt enter, f1) | None \<Rightarrow> (None, f1))"

definition Fake_SendKeys :: "PaneID \<Rightarrow> string list \<Rightarrow> Fake \<Rightarrow> go_error option \<times> Fake" where
  "Fake_SendKeys pid keys f =
     (let f1 = f\<lparr>fk_sentKeys := fk_sentKeys f @ [\<lparr>fsk_ID = pid, fsk_Keys = keys\<rparr>]\<rparr>
      in case fk_SendKeysFn f of Some g \<Rightarrow> (g pid keys, f1) | None \<Rightarrow> (None, f1))"

definition Fake_SentText :: "Fake \<Rightarrow> FakeSendText list" where "Fake_SentText f = fk_sentText f"
definition Fake_SentKeys :: "Fake \<Rightarrow> FakeSendKeys list" where "Fake_SentKeys f = fk_sentKeys f"

subsection \<open>The interface the controller relies on\<close>

text \<open>
  A failing operation of the port names a missing pane or is a runtime failure; only
  \<open>SendKeys\<close> reports an invalid key. Capturing no lines of scrollback is the empty text
  and asks nothing of tmux. \<open>usable\<close> is what an implementation needs of its world.
\<close>

definition port_failure :: "go_error \<Rightarrow> bool" where
  "port_failure e \<longleftrightarrow> e = ErrTmuxPaneNotFound \<or> (\<exists>m. e = Runtime m)"

definition key_failure :: "go_error \<Rightarrow> bool" where
  "key_failure e \<longleftrightarrow> port_failure e \<or> (\<exists>m. e = ErrTmuxInvalidKey m)"

locale port =
  fixes list_panes :: "'w \<Rightarrow> (go_error + PaneID list) \<times> 'w"
    and capture :: "PaneID \<Rightarrow> 'w \<Rightarrow> (go_error + string) \<times> 'w"
    and scroll :: "PaneID \<Rightarrow> int \<Rightarrow> 'w \<Rightarrow> (go_error + string) \<times> 'w"
    and send_text :: "PaneID \<Rightarrow> string \<Rightarrow> bool \<Rightarrow> 'w \<Rightarrow> go_error option \<times> 'w"
    and send_keys :: "PaneID \<Rightarrow> string list \<Rightarrow> 'w \<Rightarrow> go_error option \<times> 'w"
    and usable :: "'w \<Rightarrow> bool"
  assumes usable_ops: "usable w \<Longrightarrow> usable (snd (list_panes w)) \<and> usable (snd (capture p w)) \<and>
        usable (snd (scroll p n w)) \<and> usable (snd (send_text p t b w)) \<and> usable (snd (send_keys p ks w))"
    and list_fails: "usable w \<Longrightarrow> fst (list_panes w) = Inl e \<Longrightarrow> port_failure e"
    and capture_fails: "usable w \<Longrightarrow> fst (capture p w) = Inl e \<Longrightarrow> port_failure e"
    and scroll_fails: "usable w \<Longrightarrow> fst (scroll p n w) = Inl e \<Longrightarrow> port_failure e"
    and text_fails: "usable w \<Longrightarrow> fst (send_text p t b w) = Some e \<Longrightarrow> port_failure e"
    and keys_fail: "usable w \<Longrightarrow> fst (send_keys p ks w) = Some e \<Longrightarrow> key_failure e"
    and scroll_none: "usable w \<Longrightarrow> n \<le> 0 \<Longrightarrow> scroll p n w = (Inr [], w)"

interpretation adapter: port "Adapter_ListPanes tmux opts" "Adapter_CapturePane tmux opts"
    "Adapter_CaptureScrollback tmux opts" "Adapter_SendText tmux opts" "Adapter_SendKeys tmux opts"
    "\<lambda>w. True"
  for tmux :: "'w tmux" and opts :: Opts
  by unfold_locales
    (auto simp: Adapter_ListPanes_def Adapter_CapturePane_def Adapter_CaptureScrollback_def
      Adapter_SendText_def Adapter_SendKeys_def tmux_error_def port_failure_def key_failure_def Let_def
      split: prod.splits option.splits if_splits)

definition fake_plain :: "Fake \<Rightarrow> bool" where
  "fake_plain f \<longleftrightarrow> fk_ListPanesFn f = None \<and> fk_CapturePaneFn f = None \<and> fk_CaptureScrollFn f = None
     \<and> fk_SendTextFn f = None \<and> fk_SendKeysFn f = None"

interpretation fake: port Fake_ListPanes Fake_CapturePane Fake_CaptureScrollback Fake_SendText
    Fake_SendKeys fake_plain
  by unfold_locales
    (auto simp: fake_plain_def Fake_ListPanes_def Fake_CapturePane_def Fake_CaptureScrollback_def
      Fake_SendText_def Fake_SendKeys_def port_failure_def Let_def split: option.splits if_splits)

subsection \<open>The shell's reading of a quoted word\<close>

text \<open>A POSIX shell word of bare characters, backslash escapes and single-quoted parts.\<close>

fun sh_single :: "string \<Rightarrow> (string \<times> string) option" where
  "sh_single [] = None"
| "sh_single (c # cs) =
     (if c = ch_apos then Some ([], cs) else map_option (\<lambda>(w, r). (c # w, r)) (sh_single cs))"

lemma sh_single_length: "sh_single s = Some (w, r) \<Longrightarrow> length r < length s"
proof (induction s arbitrary: w)
  case (Cons c s)
  then show ?case by (cases "c = ch_apos") (auto intro: less_SucI)
qed simp

definition sh_bare :: "char \<Rightarrow> bool" where
  "sh_bare c \<longleftrightarrow> c \<notin> set '' <>|&;()$*?[#~%!{}'' \<and> c \<notin> {ch_tab, ch_nl, ch_quote, CHR 0x60}"

function sh_word :: "string \<Rightarrow> (string \<times> string) option" where
  "sh_word [] = Some ([], [])"
| "sh_word (c # cs) =
     (if c = ch_apos then
        (case sh_single cs of
           None \<Rightarrow> None
         | Some (w, r) \<Rightarrow> map_option (\<lambda>(w', r'). (w @ w', r')) (sh_word r))
      else if c = ch_bslash then
        (case cs of [] \<Rightarrow> None | d # ds \<Rightarrow> map_option (\<lambda>(w', r'). (d # w', r')) (sh_word ds))
      else if sh_bare c then map_option (\<lambda>(w', r'). (c # w', r')) (sh_word cs)
      else Some ([], c # cs))"
  by pat_completeness auto

termination
proof (relation "measure length", goal_cases)
  case (2 c cs a w r)
  then show ?case using sh_single_length [of cs w r] by simp
qed auto

text \<open>Inside the quotes, after some characters of \<open>s\<close> have been read.\<close>

lemma sh_word_quoted:
  "Option.bind (sh_single (concat (map quote_char s) @ ch_apos # rest))
     (\<lambda>(w, r). map_option (\<lambda>(w', r'). (w @ w', r')) (sh_word r))
   = map_option (\<lambda>(w', r'). (s @ w', r')) (sh_word rest)"
proof (induction s)
  case Nil
  show ?case by (simp add: case_prod_beta)
next
  case (Cons c s)
  show ?case
  proof (cases "c = ch_apos")
    case True
    let ?q = "concat (map quote_char s) @ ch_apos # rest"
    have "Option.bind (sh_single (concat (map quote_char (c # s)) @ ch_apos # rest))
        (\<lambda>(w, r). map_option (\<lambda>(w', r'). (w @ w', r')) (sh_word r))
      = sh_word (ch_bslash # ch_apos # ch_apos # ?q)"
      using True by (simp add: quote_char_def case_prod_beta option.map_id del: sh_word.simps(2))
    also have "\<dots> = map_option (\<lambda>(w', r'). (ch_apos # w', r')) (Option.bind (sh_single ?q)
        (\<lambda>(w, r). map_option (\<lambda>(w', r'). (w @ w', r')) (sh_word r)))"
      by (auto split: option.split)
    finally have e: "Option.bind (sh_single (concat (map quote_char (c # s)) @ ch_apos # rest))
        (\<lambda>(w, r). map_option (\<lambda>(w', r'). (w @ w', r')) (sh_word r)) = map_option (\<lambda>(w', r'). (ch_apos # w', r'))
          (map_option (\<lambda>(w', r'). (s @ w', r')) (sh_word rest))" unfolding Cons.IH .
    show ?thesis by (rule trans [OF e]) (simp add: True option.map_comp comp_def case_prod_beta)
  next
    case False
    have "Option.bind (sh_single (concat (map quote_char (c # s)) @ ch_apos # rest))
        (\<lambda>(w, r). map_option (\<lambda>(w', r'). (w @ w', r')) (sh_word r))
      = map_option (\<lambda>(w', r'). (c # w', r')) (Option.bind (sh_single (concat (map quote_char s) @ ch_apos # rest))
        (\<lambda>(w, r). map_option (\<lambda>(w', r'). (w @ w', r')) (sh_word r)))"
      using False by (cases "sh_single (concat (map quote_char s) @ ch_apos # rest)")
        (auto simp: quote_char_def option.map_comp comp_def case_prod_unfold)
    then show ?thesis unfolding Cons.IH by (simp add: option.map_comp comp_def case_prod_unfold)
  qed
qed

lemma shellQuote_word: "sh_word (shellQuote s @ rest) = map_option (\<lambda>(w', r'). (s @ w', r')) (sh_word rest)"
proof -
  have "shellQuote s @ rest = ch_apos # concat (map quote_char s) @ ch_apos # rest"
    by (simp add: shellQuote_def)
  then show ?thesis
    using sh_word_quoted [of s rest]
    by (cases "sh_single (concat (map quote_char s) @ ch_apos # rest)") (auto simp: case_prod_beta)
qed

subsection \<open>Properties\<close>

text \<open>C40: the FIFO path reaches the shell as it is. A POSIX shell that reads the quoted
  word, at the end of the command or before a blank, gets back exactly the string quoted,
  whatever quotes, backslashes or metacharacters it has.\<close>

theorem shellQuote_roundtrip:
  "sh_word (shellQuote s) = Some (s, []) \<and> sh_word (shellQuote s @ CHR '' '' # t) = Some (s, CHR '' '' # t)"
proof -
  have "\<not> sh_bare (CHR '' '')" by (simp add: sh_bare_def)
  then show ?thesis using shellQuote_word [of s "[]"] shellQuote_word [of s "CHR '' '' # t"] by simp
qed

lemma trim_right_snoc: "c \<in> set cs \<Longrightarrow> trim_right cs (s @ [c]) = trim_right cs s"
  by (simp add: trim_right_def)

lemma lines_join:
  "ids \<noteq> [] \<Longrightarrow> concat (map (\<lambda>p. p @ [ch_nl]) ids) = join_with [ch_nl] ids @ [ch_nl]"
  by (induction "[ch_nl]" ids rule: join_with.induct) auto

lemma last_join:
  "ids \<noteq> [] \<Longrightarrow> last ids \<noteq> [] \<Longrightarrow> join_with sep ids \<noteq> [] \<and> last (join_with sep ids) = last (last ids)"
  by (induction sep ids rule: join_with.induct) (auto split: if_splits)

text \<open>ListPanes reads back what tmux prints for the format it asks for, one id and a
  newline per pane: the ids, all of them, in tmux's order, and none where there is none.\<close>

lemma ListPanes_parses:
  assumes "list_all (\<lambda>p. p \<noteq> [] \<and> ch_nl \<notin> set p) ids"
    and "tmux (Adapter_cmd opts [''list-panes'', ''-a'', ''-F'', ''#{pane_id}'']) w =
      (\<lparr>tr_err = None, tr_stdout = concat (map (\<lambda>p. p @ [ch_nl]) ids), tr_stderr = e\<rparr>, w')"
  shows "Adapter_ListPanes tmux opts w = (Inr ids, w')"
proof (cases "ids = []")
  case True
  with assms(2) show ?thesis by (simp add: Adapter_ListPanes_def trim_right_def)
next
  case False
  let ?j = "join_with [ch_nl] ids"
  have l: "last ids \<noteq> []" "ch_nl \<notin> set (last ids)"
    using assms(1) False by (auto simp: list_all_iff)
  then have j: "?j \<noteq> []" "last ?j = last (last ids)" using last_join [OF False l(1), of "[ch_nl]"] by auto
  then have "last ?j \<noteq> ch_nl" using l by (metis last_in_set)
  then have "trim_right [ch_nl] (concat (map (\<lambda>p. p @ [ch_nl]) ids)) = ?j"
    using lines_join [OF False] trim_right_snoc [of ch_nl "[ch_nl]" ?j] trim_right_id [of ?j "[ch_nl]"] by simp
  moreover have "split_on ch_nl ?j = ids"
    using assms(1) False by (intro split_join) (auto simp: list_all_iff)
  ultimately show ?thesis using assms(2) j(1) by (simp add: Adapter_ListPanes_def)
qed

lemma ListPanes_parses_example:
  "Adapter_ListPanes (\<lambda>argv (n :: nat). (\<lparr>tr_err = None, tr_stdout = ''%0'' @ [CHR 0x0A] @ ''%12'' @ [CHR 0x0A],
     tr_stderr = []\<rparr>, Suc n)) \<lparr>op_SocketPath = [], op_SocketName = ''work''\<rparr> 7 = (Inr [''%0'', ''%12''], 8)"
  by (rule ListPanes_parses [where e = "[]"]) simp_all

definition recording_tmux :: "string list list tmux" where
  "recording_tmux argv w = (\<lparr>tr_err = None, tr_stdout = [], tr_stderr = []\<rparr>, w @ [argv])"

text \<open>Keys are data, text is not. No key token reaches tmux as the argument ";", which
  the code knows to be a command separator, whatever the keys are; SendText passes the
  text ";" to tmux as exactly that argument.\<close>

lemma semicolon_text_unescaped:
  assumes "keys \<noteq> []"
  shows "(\<exists>args. Adapter_SendKeys recording_tmux opts pid keys [] =
        (None, [Adapter_cmd opts [''send-keys'', ''-t'', pid, ''--''] @ args]) \<and>
      length args = length keys \<and> '';'' \<notin> set args) \<and>
    Adapter_SendText recording_tmux opts pid '';'' False [] =
      (None, [Adapter_cmd opts [''send-keys'', ''-l'', ''-t'', pid, ''--''] @ ['';'']])"
  using assms by (auto simp: Adapter_SendKeys_def Adapter_SendText_def recording_tmux_def
      Adapter_cmd_def escape_key_def intro!: exI [of _ "map escape_key keys"])

lemma semicolon_text_unescaped_example:
  "\<exists>args. Adapter_SendKeys recording_tmux \<lparr>op_SocketPath = [], op_SocketName = []\<rparr> ''%1'' [''a'', '';''] [] =
     (None, [[''send-keys'', ''-t'', ''%1'', ''--''] @ args]) \<and> '';'' \<notin> set args"
  using semicolon_text_unescaped [of "[''a'', '';'']" "\<lparr>op_SocketPath = [], op_SocketName = []\<rparr>" "''%1''"]
  by (auto simp: Adapter_cmd_def)

end
