(* ===== verification/Subscribe.thy ===== *)
theory Subscribe
  imports Tmuxctl
begin

section \<open>Subscribe: the output subscription (internal/tmuxctl/subscribe_unix.go)\<close>

text \<open>
  One goroutine runs \<open>sync\<close> on every tick, one reader per tracked pane copies the pane's
  FIFO to the channel, the controller takes from the channel, and the context may be
  cancelled at any time. The state has the program counters of these processes, and one
  label is one step of one of them: a deterministic function \<open>sub_step\<close>, with the choices
  of the environment (what \<open>list-panes\<close> answers, which trackers can be started, in which
  order the map is ranged over, what a FIFO delivers) in the label. Runs are the inductive
  relation \<open>sub_run\<close>. \<open>sb_sent\<close> is everything ever put into the channel, \<open>sb_taken\<close> how
  much of it the controller has received; the channel holds the difference, at most 64.
\<close>

definition out_capacity :: nat where "out_capacity = 64"
definition serverLostThreshold :: nat where "serverLostThreshold = 3"
definition read_size :: nat where "read_size = 4096"

record paneTracker =
  pt_pane :: PaneID
  pt_open :: bool
  pt_pending :: "bytes option"
  pt_done :: bool

text \<open>
  \<open>sb_trackers\<close> maps a pane to its reader, an index into \<open>sb_readers\<close>; \<open>sb_closing\<close> and
  \<open>sb_sending\<close> are what the running \<open>sync\<close> still has to stop and the event its select
  is blocked on.
\<close>

record subscription =
  sb_trackers :: "(PaneID \<times> nat) list"
  sb_readers :: "paneTracker list"
  sb_failures :: nat
  sb_lost :: bool
  sb_closing :: "PaneID list"
  sb_sending :: "PaneOutput option"
  sb_sent :: "PaneOutput list"
  sb_taken :: nat
  sb_cancelled :: bool
  sb_torn :: bool
  sb_ended :: bool

definition Adapter_Subscribe :: subscription where
  "Adapter_Subscribe =
     \<lparr>sb_trackers = [], sb_readers = [], sb_failures = 0, sb_lost = False, sb_closing = [],
      sb_sending = None, sb_sent = [], sb_taken = 0, sb_cancelled = False, sb_torn = False,
      sb_ended = False\<rparr>"

definition sync_idle :: "subscription \<Rightarrow> bool" where
  "sync_idle s \<longleftrightarrow> sb_closing s = [] \<and> sb_sending s = None"

definition tracked :: "subscription \<Rightarrow> PaneID list" where
  "tracked s = map fst (sb_trackers s)"

definition channel_room :: "subscription \<Rightarrow> bool" where
  "channel_room s \<longleftrightarrow> length (sb_sent s) - sb_taken s < out_capacity"

text \<open>\<open>sync\<close> when \<open>ListPanes\<close> fails.\<close>

definition sync_failed :: "subscription \<Rightarrow> subscription" where
  "sync_failed s =
     (let s1 = s\<lparr>sb_failures := sb_failures s + 1\<rparr>
      in if serverLostThreshold \<le> sb_failures s1 \<and> \<not> sb_lost s1
         then s1\<lparr>sb_lost := True, sb_sending := Some ServerLost\<rparr> else s1)"

text \<open>\<open>startPaneTracker\<close>: a fresh reader, the tracker registered under the pane.\<close>

definition start_tracker :: "PaneID \<Rightarrow> subscription \<Rightarrow> subscription" where
  "start_tracker p s =
     s\<lparr>sb_trackers := sb_trackers s @ [(p, length (sb_readers s))],
       sb_readers := sb_readers s @ [\<lparr>pt_pane = p, pt_open = True, pt_pending = None, pt_done = False\<rparr>]\<rparr>"

definition start_missing :: "PaneID list \<Rightarrow> PaneID \<Rightarrow> subscription \<Rightarrow> subscription" where
  "start_missing started p s =
     (if p \<in> set (tracked s) then s else if p \<in> set started then start_tracker p s else s)"

text \<open>
  \<open>sync\<close> when \<open>ListPanes\<close> answers: the counter is reset, trackers are started for new
  panes where that succeeds (\<open>started\<close>), and the tracked panes tmux no longer lists are
  to be closed, in the order the map is ranged over (\<open>order\<close>).
\<close>

definition sync_listed :: "PaneID list \<Rightarrow> PaneID list \<Rightarrow> PaneID list \<Rightarrow> subscription \<Rightarrow> subscription option" where
  "sync_listed panes started order s =
     (let s1 = fold (start_missing started) panes (s\<lparr>sb_failures := 0\<rparr>);
          gone = filter (\<lambda>p. p \<notin> set panes) (tracked s1)
      in if distinct order \<and> set order = set gone then Some (s1\<lparr>sb_closing := order\<rparr>) else None)"

text \<open>
  \<open>stop\<close>: the file is closed; the reader goroutine goes on until it notices. A reader ends
  when a read fails, be it that its file is closed or for any error of the system, and with a
  chunk in hand only when the context is cancelled.
\<close>

definition stop_tracker :: "PaneID \<Rightarrow> subscription \<Rightarrow> subscription" where
  "stop_tracker p s =
     s\<lparr>sb_readers := (case map_of (sb_trackers s) p of
          None \<Rightarrow> sb_readers s
        | Some i \<Rightarrow> (sb_readers s)[i := (sb_readers s ! i)\<lparr>pt_open := False\<rparr>]),
       sb_trackers := filter (\<lambda>(q, _). q \<noteq> p) (sb_trackers s)\<rparr>"

definition teardown :: "subscription \<Rightarrow> subscription" where
  "teardown s = fold stop_tracker (tracked s) s"

datatype sub_label =
    ListFails
  | Lists "PaneID list" "PaneID list" "PaneID list"
  | StopNext
  | SyncSend
  | SyncGiveUp
  | ReaderRead nat bytes
  | ReaderSend nat
  | ReaderExit nat
  | Receive
  | Cancel
  | Teardown
  | CloseOut

fun sub_step :: "sub_label \<Rightarrow> subscription \<Rightarrow> subscription option" where
  "sub_step ListFails s =
     (if sync_idle s \<and> \<not> sb_torn s then Some (sync_failed s) else None)"
| "sub_step (Lists panes started order) s =
     (if sync_idle s \<and> \<not> sb_torn s then sync_listed panes started order s else None)"
| "sub_step StopNext s =
     (case (sb_closing s, sb_sending s) of
        (p # ps, None) \<Rightarrow> Some ((stop_tracker p s)\<lparr>sb_closing := ps, sb_sending := Some (Closed p)\<rparr>)
      | _ \<Rightarrow> None)"
| "sub_step SyncSend s =
     (case sb_sending s of
        Some ev \<Rightarrow> if channel_room s then Some (s\<lparr>sb_sent := sb_sent s @ [ev], sb_sending := None\<rparr>) else None
      | None \<Rightarrow> None)"
| "sub_step SyncGiveUp s =
     (case sb_sending s of
        Some ev \<Rightarrow> if sb_cancelled s then Some (s\<lparr>sb_sending := None, sb_closing := []\<rparr>) else None
      | None \<Rightarrow> None)"
| "sub_step (ReaderRead i data) s =
     (if i < length (sb_readers s) \<and> pt_open (sb_readers s ! i) \<and> \<not> pt_done (sb_readers s ! i)
         \<and> pt_pending (sb_readers s ! i) = None \<and> data \<noteq> [] \<and> length data \<le> read_size
      then Some (s\<lparr>sb_readers := (sb_readers s)[i := (sb_readers s ! i)\<lparr>pt_pending := Some data\<rparr>]\<rparr>)
      else None)"
| "sub_step (ReaderSend i) s =
     (if i < length (sb_readers s) \<and> \<not> pt_done (sb_readers s ! i) \<and> channel_room s then
        (case pt_pending (sb_readers s ! i) of
           None \<Rightarrow> None
         | Some data \<Rightarrow>
             Some (s\<lparr>sb_sent := sb_sent s @ [Output (pt_pane (sb_readers s ! i)) data],
                     sb_readers := (sb_readers s)[i := (sb_readers s ! i)\<lparr>pt_pending := None\<rparr>]\<rparr>))
      else None)"
| "sub_step (ReaderExit i) s =
     (if i < length (sb_readers s) \<and> \<not> pt_done (sb_readers s ! i)
         \<and> (pt_pending (sb_readers s ! i) = None \<or> sb_cancelled s)
      then Some (s\<lparr>sb_readers := (sb_readers s)[i := (sb_readers s ! i)\<lparr>pt_pending := None, pt_done := True\<rparr>]\<rparr>)
      else None)"
| "sub_step Receive s =
     (if sb_taken s < length (sb_sent s) then Some (s\<lparr>sb_taken := Suc (sb_taken s)\<rparr>) else None)"
| "sub_step Cancel s = Some (s\<lparr>sb_cancelled := True\<rparr>)"
| "sub_step Teardown s =
     (if sync_idle s \<and> sb_cancelled s \<and> \<not> sb_torn s then Some ((teardown s)\<lparr>sb_torn := True\<rparr>) else None)"
| "sub_step CloseOut s =
     (if sb_torn s \<and> list_all pt_done (sb_readers s) then Some (s\<lparr>sb_ended := True\<rparr>) else None)"

inductive sub_run :: "sub_label list \<Rightarrow> subscription \<Rightarrow> bool" where
  sub_start: "sub_run [] Adapter_Subscribe"
| sub_next: "sub_run ls s \<Longrightarrow> sub_step l s = Some s' \<Longrightarrow> sub_run (ls @ [l]) s'"

subsection \<open>What the helpers change\<close>

named_theorems sub_frame \<open>fields the helpers leave as they are\<close>

lemma start_tracker_frame [sub_frame]:
  "sb_failures (start_tracker p s) = sb_failures s" "sb_lost (start_tracker p s) = sb_lost s"
  "sb_sending (start_tracker p s) = sb_sending s" "sb_sent (start_tracker p s) = sb_sent s"
  "sb_closing (start_tracker p s) = sb_closing s" "sb_torn (start_tracker p s) = sb_torn s"
  "sb_cancelled (start_tracker p s) = sb_cancelled s"
  by (simp_all add: start_tracker_def)

lemma stop_tracker_frame [sub_frame]:
  "sb_failures (stop_tracker p s) = sb_failures s" "sb_lost (stop_tracker p s) = sb_lost s"
  "sb_sending (stop_tracker p s) = sb_sending s" "sb_sent (stop_tracker p s) = sb_sent s"
  "sb_closing (stop_tracker p s) = sb_closing s" "sb_torn (stop_tracker p s) = sb_torn s"
  "sb_cancelled (stop_tracker p s) = sb_cancelled s"
  by (simp_all add: stop_tracker_def)

lemma start_missing_cases:
  obtains "start_missing started p s = s" | "p \<notin> set (tracked s)" "start_missing started p s = start_tracker p s"
  unfolding start_missing_def by (cases "p \<in> set (tracked s)"; cases "p \<in> set started") simp_all

text \<open>A property kept by starting one tracker is kept by starting the missing ones.\<close>

lemma start_all:
  assumes "P s" and "\<And>p s. P s \<Longrightarrow> p \<notin> set (tracked s) \<Longrightarrow> P (start_tracker p s)"
  shows "P (fold (start_missing started) panes s)"
  using assms(1)
proof (induction panes arbitrary: s)
  case (Cons p ps)
  have "P (start_missing started p s)"
    using Cons.prems assms(2) by (cases rule: start_missing_cases [of started p s]) auto
  from Cons.IH [OF this] show ?case by simp
qed simp

lemma start_all_frame [sub_frame]:
  "sb_failures (fold (start_missing started) panes s) = sb_failures s"
  "sb_lost (fold (start_missing started) panes s) = sb_lost s"
  "sb_sending (fold (start_missing started) panes s) = sb_sending s"
  "sb_sent (fold (start_missing started) panes s) = sb_sent s"
  "sb_torn (fold (start_missing started) panes s) = sb_torn s"
  "sb_cancelled (fold (start_missing started) panes s) = sb_cancelled s"
  by (rule start_all; simp add: sub_frame)+

lemma stop_all:
  assumes "P s" and "\<And>p s. P s \<Longrightarrow> P (stop_tracker p s)"
  shows "P (fold stop_tracker ps s)"
  using assms(1) by (induction ps arbitrary: s) (auto simp: assms(2))

lemma teardown_frame [sub_frame]:
  "sb_failures (teardown s) = sb_failures s" "sb_lost (teardown s) = sb_lost s"
  "sb_sending (teardown s) = sb_sending s" "sb_sent (teardown s) = sb_sent s"
  "sb_closing (teardown s) = sb_closing s" "sb_cancelled (teardown s) = sb_cancelled s"
  unfolding teardown_def by (rule stop_all; simp add: sub_frame)+

subsection \<open>Detection of server loss\<close>

text \<open>The failures of \<open>list-panes\<close> since its last success, and the longest such streak.\<close>

fun streak_step :: "sub_label \<Rightarrow> nat \<times> nat \<Rightarrow> nat \<times> nat" where
  "streak_step ListFails (n, m) = (Suc n, max m (Suc n))"
| "streak_step (Lists _ _ _) (n, m) = (0, m)"
| "streak_step _ nm = nm"

definition streaks :: "sub_label list \<Rightarrow> nat \<times> nat" where
  "streaks ls = fold streak_step ls (0, 0)"

definition longest_streak :: "sub_label list \<Rightarrow> nat" where
  "longest_streak ls = snd (streaks ls)"

lemma streaks_snoc: "streaks (ls @ [l]) = streak_step l (streaks ls)"
  by (simp add: streaks_def)

definition lost_inv :: "sub_label list \<Rightarrow> subscription \<Rightarrow> bool" where
  "lost_inv ls s \<longleftrightarrow> sb_failures s = fst (streaks ls) \<and> (sb_lost s \<longleftrightarrow> serverLostThreshold \<le> snd (streaks ls))
     \<and> fst (streaks ls) \<le> snd (streaks ls)
     \<and> count_list (sb_sent s) ServerLost + (if sb_sending s = Some ServerLost then 1 else 0)
         \<le> (if sb_lost s then 1 else 0)"

lemma streak_other:
  "l \<noteq> ListFails \<Longrightarrow> (\<And>a b c. l \<noteq> Lists a b c) \<Longrightarrow> streak_step l nm = nm"
  by (cases l; cases nm) auto

lemma lost_inv_same:
  assumes "lost_inv ls s" and "l \<noteq> ListFails" and "\<And>a b c. l \<noteq> Lists a b c"
    and "sb_failures s' = sb_failures s" "sb_lost s' = sb_lost s"
    and "count_list (sb_sent s') ServerLost + (if sb_sending s' = Some ServerLost then 1 else 0)
         \<le> count_list (sb_sent s) ServerLost + (if sb_sending s = Some ServerLost then 1 else 0)"
  shows "lost_inv (ls @ [l]) s'"
  using assms(1,4-6) streak_other [OF assms(2,3)] by (auto simp: lost_inv_def streaks_snoc)

lemma lost_inv_step:
  assumes "lost_inv ls s" and "sub_step l s = Some s'"
  shows "lost_inv (ls @ [l]) s'"
proof (cases l)
  case ListFails
  obtain n m where nm: "streaks ls = (n, m)" by (cases "streaks ls")
  from assms ListFails have s': "s' = sync_failed s" "sb_sending s = None"
    by (auto simp: sync_idle_def split: if_splits)
  with assms(1) nm ListFails show ?thesis
    by (auto simp: lost_inv_def streaks_snoc sync_failed_def Let_def serverLostThreshold_def)
next
  case (Lists panes started order)
  obtain n m where nm: "streaks ls = (n, m)" by (cases "streaks ls")
  from assms(2) Lists obtain s1 where
    "s1 = fold (start_missing started) panes (s\<lparr>sb_failures := 0\<rparr>)" "s' = s1\<lparr>sb_closing := order\<rparr>"
    by (auto simp: sync_listed_def Let_def split: if_splits)
  with assms(1) nm Lists show ?thesis by (auto simp: lost_inv_def streaks_snoc sub_frame split: if_splits)
next
  case StopNext
  then show ?thesis using assms
    by (intro lost_inv_same [OF assms(1)]) (auto simp: sub_frame split: list.splits option.splits)
next
  case SyncSend
  then show ?thesis using assms
    by (intro lost_inv_same [OF assms(1)]) (auto split: option.splits if_splits)
next
  case (ReaderSend i)
  then show ?thesis using assms
    by (intro lost_inv_same [OF assms(1)]) (auto split: option.splits if_splits)
next
  case Teardown
  then show ?thesis using assms
    by (intro lost_inv_same [OF assms(1)]) (auto simp: sub_frame split: if_splits)
qed (use assms in \<open>auto intro!: lost_inv_same [OF assms(1)] split: option.splits if_splits\<close>)

lemma lost_inv_run: "sub_run ls s \<Longrightarrow> lost_inv ls s"
proof (induction rule: sub_run.induct)
  case sub_start
  show ?case by (simp add: lost_inv_def Adapter_Subscribe_def streaks_def serverLostThreshold_def)
qed (rule lost_inv_step)

subsection \<open>Trackers and readers\<close>

definition core_ok :: "subscription \<Rightarrow> bool" where
  "core_ok s \<longleftrightarrow> distinct (tracked s) \<and>
     (\<forall>(p, i) \<in> set (sb_trackers s). i < length (sb_readers s) \<and> pt_pane (sb_readers s ! i) = p
         \<and> pt_open (sb_readers s ! i)) \<and>
     (\<forall>i < length (sb_readers s). pt_open (sb_readers s ! i) \<longrightarrow> (pt_pane (sb_readers s ! i), i) \<in> set (sb_trackers s))"

definition sync_ok :: "subscription \<Rightarrow> bool" where
  "sync_ok s \<longleftrightarrow> distinct (sb_closing s) \<and> set (sb_closing s) \<subseteq> set (tracked s) \<and>
     (sb_torn s \<longrightarrow> sb_trackers s = [] \<and> sync_idle s \<and> sb_cancelled s) \<and>
     (\<forall>p d. sb_sending s \<noteq> Some (Output p d))"

lemma core_start:
  assumes "core_ok s" and "p \<notin> set (tracked s)"
  shows "core_ok (start_tracker p s)"
  using assms unfolding core_ok_def
  by (fastforce simp: start_tracker_def tracked_def nth_append less_Suc_eq split: if_splits)

lemma core_stop:
  assumes c: "core_ok s"
  shows "core_ok (stop_tracker p s)"
proof (cases "map_of (sb_trackers s) p")
  case None
  then have "p \<notin> fst ` set (sb_trackers s)" by (simp add: map_of_eq_None_iff)
  then have "filter (\<lambda>(q, _). q \<noteq> p) (sb_trackers s) = sb_trackers s"
    by (force simp: filter_id_conv)
  with None have "stop_tracker p s = s" by (simp add: stop_tracker_def)
  with c show ?thesis by simp
next
  case (Some i)
  then have pi: "(p, i) \<in> set (sb_trackers s)" by (rule map_of_SomeD)
  have d: "distinct (map fst (sb_trackers s))" and
    t: "\<And>q j. (q, j) \<in> set (sb_trackers s) \<Longrightarrow> j < length (sb_readers s) \<and> pt_pane (sb_readers s ! j) = q
         \<and> pt_open (sb_readers s ! j)" and
    o: "\<And>j. j < length (sb_readers s) \<Longrightarrow> pt_open (sb_readers s ! j) \<Longrightarrow>
         (pt_pane (sb_readers s ! j), j) \<in> set (sb_trackers s)"
    using c by (auto simp: core_ok_def tracked_def)
  have i: "i < length (sb_readers s)" "pt_pane (sb_readers s ! i) = p" using t [OF pi] by auto
  let ?s = "stop_tracker p s"
  have r: "sb_readers ?s = (sb_readers s)[i := (sb_readers s ! i)\<lparr>pt_open := False\<rparr>]"
    "sb_trackers ?s = filter (\<lambda>(q, _). q \<noteq> p) (sb_trackers s)"
    using Some by (simp_all add: stop_tracker_def)
  have "distinct (tracked ?s)"
    unfolding tracked_def r(2) using d by (rule distinct_map_filter)
  moreover have "\<forall>(q, j) \<in> set (sb_trackers ?s). j < length (sb_readers ?s) \<and> pt_pane (sb_readers ?s ! j) = q
      \<and> pt_open (sb_readers ?s ! j)"
  proof (clarify)
    fix q j assume "(q, j) \<in> set (sb_trackers ?s)"
    then have "(q, j) \<in> set (sb_trackers s)" "q \<noteq> p" by (auto simp: r)
    with t i(2) have "j \<noteq> i" "j < length (sb_readers s)" "pt_pane (sb_readers s ! j) = q"
      "pt_open (sb_readers s ! j)" by auto
    then show "j < length (sb_readers ?s) \<and> pt_pane (sb_readers ?s ! j) = q \<and> pt_open (sb_readers ?s ! j)"
      by (simp add: r)
  qed
  moreover have "\<forall>j < length (sb_readers ?s). pt_open (sb_readers ?s ! j) \<longrightarrow>
      (pt_pane (sb_readers ?s ! j), j) \<in> set (sb_trackers ?s)"
  proof (intro allI impI)
    fix j assume j: "j < length (sb_readers ?s)" "pt_open (sb_readers ?s ! j)"
    then have ji: "j \<noteq> i" using i(1) by (auto simp: r)
    with j have "(pt_pane (sb_readers s ! j), j) \<in> set (sb_trackers s)" using o by (simp add: r)
    moreover have "pt_pane (sb_readers s ! j) \<noteq> p"
      using calculation pi ji d by (metis eq_key_imp_eq_value)
    ultimately show "(pt_pane (sb_readers ?s ! j), j) \<in> set (sb_trackers ?s)"
      using ji by (simp add: r)
  qed
  ultimately show ?thesis by (simp add: core_ok_def)
qed

lemma core_update:
  assumes "core_ok s" and "sb_trackers s' = sb_trackers s"
    and "sb_readers s' = (sb_readers s)[i := r]"
    and "i < length (sb_readers s) \<Longrightarrow> pt_pane r = pt_pane (sb_readers s ! i) \<and> pt_open r = pt_open (sb_readers s ! i)"
  shows "core_ok s'"
proof -
  have "length (sb_readers s') = length (sb_readers s)" using assms(3) by simp
  moreover have "j < length (sb_readers s) \<Longrightarrow> pt_pane (sb_readers s' ! j) = pt_pane (sb_readers s ! j)
      \<and> pt_open (sb_readers s' ! j) = pt_open (sb_readers s ! j)" for j
    using assms(3,4) by (cases "i = j") auto
  ultimately show ?thesis using assms(1,2) unfolding core_ok_def tracked_def by auto
qed

lemma core_same:
  "core_ok s \<Longrightarrow> sb_trackers s' = sb_trackers s \<Longrightarrow> sb_readers s' = sb_readers s \<Longrightarrow> core_ok s'"
  by (simp add: core_ok_def tracked_def)

lemma tracked_stop: "tracked (stop_tracker p s) = filter (\<lambda>q. q \<noteq> p) (tracked s)"
  by (simp add: stop_tracker_def tracked_def filter_map comp_def case_prod_unfold)

lemma tracked_stop_all: "tracked (fold stop_tracker ps s) = filter (\<lambda>q. q \<notin> set ps) (tracked s)"
  by (induction ps arbitrary: s) (auto simp: tracked_stop intro: filter_cong)

lemma teardown_empty: "sb_trackers (teardown s) = []"
proof -
  have "tracked (teardown s) = []" by (simp add: teardown_def tracked_stop_all)
  then show ?thesis by (simp add: tracked_def)
qed

lemma core_step:
  assumes "core_ok s" and "sub_step l s = Some s'"
  shows "core_ok s'"
proof (cases l)
  case ListFails
  with assms show ?thesis
    by (auto simp: sync_failed_def Let_def intro: core_same [OF assms(1)] split: if_splits)
next
  case (Lists panes started order)
  have "core_ok (s\<lparr>sb_failures := 0\<rparr>)" by (rule core_same [OF assms(1)]) simp_all
  then have "core_ok (fold (start_missing started) panes (s\<lparr>sb_failures := 0\<rparr>))"
    by (rule start_all) (rule core_start)
  with assms(2) Lists show ?thesis
    by (auto simp: sync_listed_def Let_def elim!: core_same split: if_splits)
next
  case StopNext
  with assms(2) obtain p ps where "s' = (stop_tracker p s)\<lparr>sb_closing := ps, sb_sending := Some (Closed p)\<rparr>"
    by (auto split: list.splits option.splits)
  then show ?thesis by (intro core_same [OF core_stop [OF assms(1), of p]]) simp_all
next
  case (ReaderRead i data)
  then show ?thesis using assms
    by (intro core_update [OF assms(1), of _ i "(sb_readers s ! i)\<lparr>pt_pending := Some data\<rparr>"]) (auto split: if_splits)
next
  case (ReaderSend i)
  then show ?thesis using assms
    by (intro core_update [OF assms(1), of _ i "(sb_readers s ! i)\<lparr>pt_pending := None\<rparr>"])
      (auto split: if_splits option.splits)
next
  case (ReaderExit i)
  then show ?thesis using assms
    by (intro core_update [OF assms(1), of _ i "(sb_readers s ! i)\<lparr>pt_pending := None, pt_done := True\<rparr>"])
      (auto split: if_splits)
next
  case Teardown
  have "core_ok (teardown s)" unfolding teardown_def
    by (rule stop_all [where P = core_ok]) (use assms(1) core_stop in auto)
  with assms(2) Teardown show ?thesis by (auto elim!: core_same split: if_splits)
qed (use assms in \<open>auto intro: core_same [OF assms(1)] split: option.splits if_splits\<close>)

lemma sync_step:
  assumes "sync_ok s" and "sub_step l s = Some s'"
  shows "sync_ok s'"
proof (cases l)
  case ListFails
  with assms show ?thesis
    by (auto simp: sync_ok_def sync_failed_def sync_idle_def tracked_def Let_def split: if_splits)
next
  case (Lists panes started order)
  with assms(2) show ?thesis
    by (auto simp: sync_ok_def sync_idle_def sync_listed_def Let_def tracked_def sub_frame split: if_splits)
next
  case StopNext
  with assms(2) obtain p ps where "sb_closing s = p # ps" "sb_sending s = None"
    "s' = (stop_tracker p s)\<lparr>sb_closing := ps, sb_sending := Some (Closed p)\<rparr>"
    by (auto split: list.splits option.splits)
  moreover have "tracked (s'\<lparr>sb_closing := ps, sb_sending := x\<rparr>) = tracked s'" for s' :: subscription and x
    by (simp add: tracked_def)
  ultimately show ?thesis using assms(1)
    by (auto simp: sync_ok_def sync_idle_def tracked_stop sub_frame)
next
  case Teardown
  with assms show ?thesis
    by (auto simp: sync_ok_def sync_idle_def tracked_def teardown_empty sub_frame split: if_splits)
qed (use assms in \<open>auto simp: sync_ok_def sync_idle_def tracked_def split: option.splits if_splits\<close>)

lemma sub_ok_run: "sub_run ls s \<Longrightarrow> core_ok s \<and> sync_ok s"
proof (induction rule: sub_run.induct)
  case sub_start
  show ?case by (simp add: core_ok_def sync_ok_def Adapter_Subscribe_def tracked_def)
qed (use core_step sync_step in blast)

subsection \<open>From the FIFO to the channel\<close>

text \<open>What the FIFO of reader \<open>i\<close> delivered, what was sent for a pane, and the part of a
  reader that matters for it.\<close>

definition read_by :: "nat \<Rightarrow> sub_label list \<Rightarrow> bytes" where
  "read_by i ls = concat (map (\<lambda>l. case l of ReaderRead j d \<Rightarrow> if j = i then d else [] | _ \<Rightarrow> []) ls)"

definition out_bytes :: "PaneID \<Rightarrow> PaneOutput list \<Rightarrow> bytes" where
  "out_bytes p evs = concat (map (\<lambda>ev. case ev of Output q d \<Rightarrow> if q = p then d else [] | _ \<Rightarrow> []) evs)"

type_synonym reader_view = "PaneID \<times> bytes option \<times> bool"

definition views :: "subscription \<Rightarrow> reader_view list" where
  "views s = map (\<lambda>r. (pt_pane r, pt_pending r, pt_done r)) (sb_readers s)"

definition pending_bytes :: "bytes option \<Rightarrow> bytes" where
  "pending_bytes x = (case x of None \<Rightarrow> [] | Some d \<Rightarrow> d)"

definition only_reader :: "reader_view list \<Rightarrow> nat \<Rightarrow> bool" where
  "only_reader v i \<longleftrightarrow> (\<forall>j < length v. fst (v ! j) = fst (v ! i) \<longrightarrow> j = i)"

definition order_inv :: "sub_label list \<Rightarrow> reader_view list \<Rightarrow> PaneOutput list \<Rightarrow> bool" where
  "order_inv ls v evs \<longleftrightarrow>
     (\<forall>i \<ge> length v. read_by i ls = []) \<and>
     (\<forall>p. p \<notin> fst ` set v \<longrightarrow> out_bytes p evs = []) \<and>
     (\<forall>i < length v. only_reader v i \<longrightarrow>
        (\<exists>rest. read_by i ls = out_bytes (fst (v ! i)) evs @ pending_bytes (fst (snd (v ! i))) @ rest
           \<and> (\<not> snd (snd (v ! i)) \<longrightarrow> rest = [])))"

lemma read_by_snoc: "read_by i (ls @ [l]) = read_by i ls @ (case l of ReaderRead j d \<Rightarrow> if j = i then d else [] | _ \<Rightarrow> [])"
  by (simp add: read_by_def)

lemma out_bytes_snoc: "out_bytes p (evs @ [ev]) = out_bytes p evs @ (case ev of Output q d \<Rightarrow> if q = p then d else [] | _ \<Rightarrow> [])"
  by (simp add: out_bytes_def)

lemma order_quiet:
  assumes "order_inv ls v evs" and "\<And>j d. l \<noteq> ReaderRead j d"
    and "\<And>p. out_bytes p evs' = out_bytes p evs"
  shows "order_inv (ls @ [l]) v evs'"
proof -
  have "read_by i (ls @ [l]) = read_by i ls" for i
    using assms(2) by (cases l) (auto simp: read_by_snoc)
  with assms(1,3) show ?thesis by (simp add: order_inv_def)
qed

lemma order_start:
  assumes o: "order_inv ls v evs"
  shows "order_inv ls (v @ [(p, None, False)]) evs"
proof -
  have new: "read_by (length v) ls = [] \<and> out_bytes p evs = []"
    if "only_reader (v @ [(p, None, False)]) (length v)"
  proof -
    have "fst (v ! j) \<noteq> p" if "j < length v" for j
    proof
      assume "fst (v ! j) = p"
      moreover have "only_reader (v @ [(p, None, False)]) (length v)" by fact
      ultimately have "j = length v" using that unfolding only_reader_def
        by (metis append.right_neutral fst_conv length_append_singleton less_SucI nth_append nth_append_length)
      with that show False by simp
    qed
    then have "p \<notin> fst ` set v" by (metis imageE in_set_conv_nth)
    with o show ?thesis by (auto simp: order_inv_def)
  qed
  have old: "only_reader v i" if "only_reader (v @ [(p, None, False)]) i" "i < length v" for i
    using that by (auto simp: only_reader_def nth_append less_Suc_eq)
  show ?thesis
    unfolding order_inv_def
  proof (intro conjI allI impI)
    fix i assume "length (v @ [(p, None, False)]) \<le> i"
    then show "read_by i ls = []" using o by (simp add: order_inv_def)
  next
    fix q assume "q \<notin> fst ` set (v @ [(p, None, False)])"
    then show "out_bytes q evs = []" using o by (simp add: order_inv_def)
  next
    fix i assume i: "i < length (v @ [(p, None, False)])" "only_reader (v @ [(p, None, False)]) i"
    show "\<exists>rest. read_by i ls = out_bytes (fst ((v @ [(p, None, False)]) ! i)) evs
        @ pending_bytes (fst (snd ((v @ [(p, None, False)]) ! i))) @ rest
        \<and> (\<not> snd (snd ((v @ [(p, None, False)]) ! i)) \<longrightarrow> rest = [])"
    proof (cases "i < length v")
      case True
      with old [OF i(2) True] o show ?thesis by (auto simp: order_inv_def nth_append)
    next
      case False
      with i have "i = length v" by simp
      with new i(2) show ?thesis by (simp add: pending_bytes_def)
    qed
  qed
qed

lemma only_update: "i < length v \<Longrightarrow> fst x = fst (v ! i) \<Longrightarrow> only_reader (v[i := x]) j = only_reader v j"
proof -
  assume i: "i < length v" "fst x = fst (v ! i)"
  then have "fst (v[i := x] ! k) = fst (v ! k)" for k by (cases "k = i") auto
  then show ?thesis by (simp add: only_reader_def)
qed

text \<open>One reader's own step: only its entry, its reads and its pane's output matter.\<close>

lemma order_update:
  assumes o: "order_inv ls v evs" and i: "i < length v" and p: "fst x = fst (v ! i)"
    and r: "\<And>j. j \<noteq> i \<Longrightarrow> read_by j (ls @ [l]) = read_by j ls"
    and e: "\<And>q. q \<noteq> fst x \<Longrightarrow> out_bytes q evs' = out_bytes q evs"
    and own: "\<And>rest. read_by i ls = out_bytes (fst x) evs @ pending_bytes (fst (snd (v ! i))) @ rest \<Longrightarrow>
        (\<not> snd (snd (v ! i)) \<longrightarrow> rest = []) \<Longrightarrow>
        \<exists>rest'. read_by i (ls @ [l]) = out_bytes (fst x) evs' @ pending_bytes (fst (snd x)) @ rest'
          \<and> (\<not> snd (snd x) \<longrightarrow> rest' = [])"
  shows "order_inv (ls @ [l]) (v[i := x]) evs'"
  unfolding order_inv_def
proof (intro conjI allI impI)
  fix j assume "length (v[i := x]) \<le> j"
  then show "read_by j (ls @ [l]) = []" using o r [of j] i by (auto simp: order_inv_def)
next
  fix q assume q: "q \<notin> fst ` set (v[i := x])"
  have "x \<in> set (v[i := x])" using i by (rule set_update_memI)
  with q have qx: "q \<noteq> fst x" by blast
  moreover have "q \<notin> fst ` set v"
  proof
    assume "q \<in> fst ` set v"
    then obtain k where k: "k < length v" "fst (v ! k) = q" by (auto simp: in_set_conv_nth)
    with qx p have "k \<noteq> i" by auto
    then have "v[i := x] ! k = v ! k" by simp
    moreover have "v[i := x] ! k \<in> set (v[i := x])" using k(1) by (intro nth_mem) simp
    ultimately have "v ! k \<in> set (v[i := x])" by simp
    with k(2) q show False by blast
  qed
  ultimately show "out_bytes q evs' = []" using o e by (simp add: order_inv_def)
next
  fix j assume j: "j < length (v[i := x])" "only_reader (v[i := x]) j"
  then have jo: "only_reader v j" "j < length v" using only_update [OF i p] by auto
  then obtain rest where rest: "read_by j ls = out_bytes (fst (v ! j)) evs @ pending_bytes (fst (snd (v ! j))) @ rest"
    "\<not> snd (snd (v ! j)) \<longrightarrow> rest = []" using o by (auto simp: order_inv_def)
  show "\<exists>rest. read_by j (ls @ [l]) = out_bytes (fst (v[i := x] ! j)) evs' @ pending_bytes (fst (snd (v[i := x] ! j))) @ rest
      \<and> (\<not> snd (snd (v[i := x] ! j)) \<longrightarrow> rest = [])"
  proof (cases "j = i")
    case True
    with rest i p own [of rest] show ?thesis by simp
  next
    case False
    with jo i p have "fst (v ! j) \<noteq> fst x" by (auto simp: only_reader_def)
    with False rest r e show ?thesis by auto
  qed
qed

lemma views_start: "views (start_tracker p s) = views s @ [(p, None, False)]"
  by (simp add: views_def start_tracker_def)

lemma views_stop: "views (stop_tracker p s) = views s"
proof -
  have "map f (xs[i := x]) = map f xs" if "f x = f (xs ! i)" for f :: "paneTracker \<Rightarrow> reader_view" and xs i x
    using that by (metis list_update_id map_update)
  then show ?thesis by (auto simp: views_def stop_tracker_def split: option.split)
qed

lemma views_stop_all: "views (fold stop_tracker ps s) = views s"
  by (rule stop_all [where P = "\<lambda>s'. views s' = views s"]) (auto simp: views_stop)

lemma views_nth:
  "i < length (sb_readers s) \<Longrightarrow>
   views s ! i = (pt_pane (sb_readers s ! i), pt_pending (sb_readers s ! i), pt_done (sb_readers s ! i))"
  by (simp add: views_def)

lemma length_views [simp]: "length (views s) = length (sb_readers s)"
  by (simp add: views_def)

lemma order_start_all:
  assumes "order_inv ls (views s) (sb_sent s)"
  shows "order_inv ls (views (fold (start_missing started) panes s)) (sb_sent (fold (start_missing started) panes s))"
  by (rule start_all [where P = "\<lambda>s. order_inv ls (views s) (sb_sent s)"])
    (use assms in \<open>auto simp: views_start sub_frame intro: order_start\<close>)

lemma order_step:
  assumes o: "order_inv ls (views s) (sb_sent s)" and ok: "sync_ok s" and st: "sub_step l s = Some s'"
  shows "order_inv (ls @ [l]) (views s') (sb_sent s')"
proof (cases l)
  case ListFails
  with st have "views s' = views s" "sb_sent s' = sb_sent s"
    by (auto simp: sync_failed_def views_def Let_def split: if_splits)
  with order_quiet [OF o, of l "sb_sent s'"] ListFails show ?thesis by simp
next
  case (Lists panes started order)
  let ?s = "fold (start_missing started) panes (s\<lparr>sb_failures := 0\<rparr>)"
  from o have "order_inv ls (views (s\<lparr>sb_failures := 0\<rparr>)) (sb_sent (s\<lparr>sb_failures := 0\<rparr>))"
    by (simp add: views_def)
  from order_start_all [OF this] have "order_inv ls (views ?s) (sb_sent ?s)" .
  moreover from st Lists have "views s' = views ?s" "sb_sent s' = sb_sent ?s"
    by (auto simp: sync_listed_def views_def Let_def split: if_splits)
  ultimately show ?thesis using order_quiet [of ls "views ?s" "sb_sent ?s" l "sb_sent s'"] Lists by simp
next
  case StopNext
  with st obtain p ps where "s' = (stop_tracker p s)\<lparr>sb_closing := ps, sb_sending := Some (Closed p)\<rparr>"
    by (auto split: list.splits option.splits)
  then have "views s' = views s" "sb_sent s' = sb_sent s"
    using views_stop [of p s] by (simp_all add: views_def sub_frame)
  with order_quiet [OF o, of l "sb_sent s'"] StopNext show ?thesis by simp
next
  case SyncSend
  with st obtain ev where ev: "sb_sending s = Some ev" "s' = s\<lparr>sb_sent := sb_sent s @ [ev], sb_sending := None\<rparr>"
    by (auto split: option.splits if_splits)
  with ok have "out_bytes p (sb_sent s') = out_bytes p (sb_sent s)" for p
    by (cases ev) (auto simp: sync_ok_def out_bytes_snoc)
  with order_quiet [OF o, of l "sb_sent s'"] SyncSend ev(2) show ?thesis by (simp add: views_def)
next
  case (ReaderRead i data)
  with st have i: "i < length (sb_readers s)" "pt_pending (sb_readers s ! i) = None" "\<not> pt_done (sb_readers s ! i)"
    "s' = s\<lparr>sb_readers := (sb_readers s)[i := (sb_readers s ! i)\<lparr>pt_pending := Some data\<rparr>]\<rparr>"
    by (auto split: if_splits)
  then have v: "views s' = (views s)[i := (pt_pane (sb_readers s ! i), Some data, False)]" "sb_sent s' = sb_sent s"
    by (simp_all add: views_def map_update)
  show ?thesis unfolding v
    by (rule order_update [OF o])
      (use i ReaderRead in \<open>auto simp: views_nth read_by_snoc pending_bytes_def\<close>)
next
  case (ReaderSend i)
  with st obtain data where i: "i < length (sb_readers s)" "pt_pending (sb_readers s ! i) = Some data"
    "\<not> pt_done (sb_readers s ! i)"
    "s' = s\<lparr>sb_sent := sb_sent s @ [Output (pt_pane (sb_readers s ! i)) data],
            sb_readers := (sb_readers s)[i := (sb_readers s ! i)\<lparr>pt_pending := None\<rparr>]\<rparr>"
    by (auto split: if_splits option.splits)
  then have v: "views s' = (views s)[i := (pt_pane (sb_readers s ! i), None, False)]"
    "sb_sent s' = sb_sent s @ [Output (pt_pane (sb_readers s ! i)) data]"
    by (simp_all add: views_def map_update)
  show ?thesis unfolding v
    by (rule order_update [OF o])
      (use i ReaderSend in \<open>auto simp: views_nth read_by_snoc pending_bytes_def out_bytes_snoc\<close>)
next
  case (ReaderExit i)
  with st have i: "i < length (sb_readers s)" "\<not> pt_done (sb_readers s ! i)"
    "s' = s\<lparr>sb_readers := (sb_readers s)[i := (sb_readers s ! i)\<lparr>pt_pending := None, pt_done := True\<rparr>]\<rparr>"
    by (auto split: if_splits)
  then have v: "views s' = (views s)[i := (pt_pane (sb_readers s ! i), None, True)]" "sb_sent s' = sb_sent s"
    by (simp_all add: views_def map_update)
  show ?thesis unfolding v
    by (rule order_update [OF o])
      (use i ReaderExit in \<open>auto simp: views_nth read_by_snoc pending_bytes_def\<close>)
next
  case Teardown
  with st have "views s' = views s" "sb_sent s' = sb_sent s"
    using views_stop_all [of "tracked s" s] by (auto simp: teardown_def [symmetric] views_def sub_frame split: if_splits)
  with order_quiet [OF o, of l "sb_sent s'"] Teardown show ?thesis by simp
qed (use st order_quiet [OF o, of l "sb_sent s'"] in \<open>auto simp: views_def split: option.splits if_splits\<close>)

lemma order_run: "sub_run ls s \<Longrightarrow> order_inv ls (views s) (sb_sent s)"
proof (induction rule: sub_run.induct)
  case sub_start
  show ?case by (simp add: order_inv_def views_def Adapter_Subscribe_def read_by_def out_bytes_def)
next
  case (sub_next ls s l s')
  with order_step sub_ok_run show ?case by blast
qed

subsection \<open>Closing and shutting down\<close>

definition readers_of :: "PaneID \<Rightarrow> subscription \<Rightarrow> nat" where
  "readers_of p s = count_list (map pt_pane (sb_readers s)) p"










fun sub_exec :: "sub_label list \<Rightarrow> subscription \<Rightarrow> subscription option" where
  "sub_exec [] s = Some s"
| "sub_exec (l # ls) s = Option.bind (sub_step l s) (sub_exec ls)"

lemma sub_exec_run: "sub_run ls s \<Longrightarrow> sub_exec ls' s = Some s' \<Longrightarrow> sub_run (ls @ ls') s'"
proof (induction ls' arbitrary: ls s)
  case (Cons l ls')
  then obtain s1 where "sub_step l s = Some s1" "sub_exec ls' s1 = Some s'"
    by (auto simp: bind_eq_Some_conv)
  with Cons.IH [OF sub_next [OF Cons.prems(1)]] show ?case by simp
qed simp

subsection \<open>Properties\<close>

text \<open>C28: the loss of the tmux server is reported exactly when it should be. In every run,
  however its processes interleave, the event is raised once the pane listing has failed
  three times in a row, counting since its last success, and not before; at most one such
  event is ever in the channel.\<close>

theorem server_lost_once:
  assumes "sub_run ls s"
  shows "(sb_lost s \<longleftrightarrow> 3 \<le> longest_streak ls) \<and> count_list (sb_sent s) ServerLost \<le> 1 \<and>
    (ServerLost \<in> set (sb_sent s) \<longrightarrow> 3 \<le> longest_streak ls)"
proof -
  have inv: "lost_inv ls s" using lost_inv_run [OF assms] .
  then have "ServerLost \<in> set (sb_sent s) \<longrightarrow> sb_lost s"
    using count_notin by (fastforce simp: lost_inv_def count_list_0_iff split: if_splits)
  with inv show ?thesis
    by (auto simp: lost_inv_def longest_streak_def serverLostThreshold_def split: if_splits)
qed

theorem server_lost_once_witness:
  "\<exists>s. sub_exec [ListFails, ListFails, ListFails, SyncSend, ListFails] Adapter_Subscribe = Some s \<and>
     sb_sent s = [ServerLost] \<and> count_list (sb_sent s) ServerLost \<le> 1 \<and>
     3 \<le> longest_streak [ListFails, ListFails, ListFails, SyncSend, ListFails]"
proof -
  let ?ls = "[ListFails, ListFails, ListFails, SyncSend, ListFails]"
  obtain s where s: "sub_exec ?ls Adapter_Subscribe = Some s" "sb_sent s = [ServerLost]"
    by (simp add: Adapter_Subscribe_def sync_idle_def sync_failed_def serverLostThreshold_def
        channel_room_def out_capacity_def)
  have "sub_run ?ls s" using sub_exec_run [OF sub_start s(1)] by simp
  from server_lost_once [OF this] s show ?thesis by auto
qed

text \<open>Nothing is lost, duplicated or reordered between a pane's FIFO and the channel.
  For a pane that has had one reader, the bytes its FIFO delivered are the bytes sent for
  the pane, then those the reader is about to send; only a reader that gave up because the
  context was cancelled may have kept some.\<close>

lemma reader_forwards_all:
  assumes "sub_run ls s" and "i < length (sb_readers s)" and "readers_of (pt_pane (sb_readers s ! i)) s = 1"
  shows "\<exists>rest. read_by i ls = out_bytes (pt_pane (sb_readers s ! i)) (sb_sent s)
      @ pending_bytes (pt_pending (sb_readers s ! i)) @ rest \<and> (pt_done (sb_readers s ! i) \<or> rest = [])"
proof -
  let ?p = "map pt_pane (sb_readers s)"
  have "only_reader (views s) i"
    unfolding only_reader_def
  proof (intro allI impI)
    fix j assume j: "j < length (views s)" "fst (views s ! j) = fst (views s ! i)"
    then have e: "j < length ?p" "i < length ?p" "?p ! j = ?p ! i" using assms(2) by (auto simp: views_nth)
    have "card {k. k < length ?p \<and> ?p ! i = ?p ! k} = 1"
      using assms(2,3) by (simp add: readers_of_def count_list_eq_length_filter length_filter_conv_card)
    then obtain m where m: "{k. k < length ?p \<and> ?p ! i = ?p ! k} = {m}" by (auto simp: card_1_singleton_iff)
    have "i \<in> {m}" "j \<in> {m}" unfolding m [symmetric] using e by auto
    then show "j = i" by simp
  qed
  with order_run [OF assms(1)] assms(2) show ?thesis by (auto simp: order_inv_def views_nth)
qed

lemma reader_forwards_all_example:
  "\<exists>s. sub_exec [Lists [''%1''] [''%1''] [], ReaderRead 0 ''ab'', ReaderSend 0, ReaderRead 0 ''c''] Adapter_Subscribe = Some s \<and>
     out_bytes ''%1'' (sb_sent s) @ pending_bytes (pt_pending (sb_readers s ! 0)) = ''abc''"
proof -
  let ?ls = "[Lists [''%1''] [''%1''] [], ReaderRead 0 ''ab'', ReaderSend 0, ReaderRead 0 ''c'']"
  obtain s where s: "sub_exec ?ls Adapter_Subscribe = Some s" "length (sb_readers s) = 1"
    "pt_pane (sb_readers s ! 0) = ''%1''" "readers_of ''%1'' s = 1" "\<not> pt_done (sb_readers s ! 0)"
    by (simp add: Adapter_Subscribe_def sync_idle_def sync_listed_def start_missing_def start_tracker_def
        tracked_def channel_room_def out_capacity_def read_size_def readers_of_def)
  have "sub_run ?ls s" using sub_exec_run [OF sub_start s(1)] by simp
  from reader_forwards_all [OF this, of 0] s show ?thesis by (auto simp: read_by_def)
qed



end
