(* ===== verification/Controller.thy ===== *)
theory Controller
  imports Store Textnorm Subscribe
begin

section \<open>Controller: the command handlers (internal/controller)\<close>

text \<open>
  The controller joins the port and the store: \<open>drain\<close> copies subscription events into
  the store, the handlers answer one command each. A handler is a function of the port's
  methods, of the world they act on and of the store at the moment of its critical
  section; \<open>None\<close> is the panic of a store with no capacity. \<open>Wait\<close> is in its own theory.
\<close>

record Controller =
  ct_store :: Store
  ct_lost :: bool
  ct_started :: bool
  ct_startErr :: "go_error option"
  ct_draining :: bool

definition NewWithCapacity :: "bytes \<Rightarrow> int \<Rightarrow> Controller" where
  "NewWithCapacity rnd capacity =
     \<lparr>ct_store = Store_New rnd capacity, ct_lost = False, ct_started = False, ct_startErr = None,
      ct_draining = False\<rparr>"

definition Controller_New :: "bytes \<Rightarrow> Controller" where
  "Controller_New rnd = NewWithCapacity rnd DefaultCapacity"

text \<open>\<open>Start\<close>, given what \<open>Subscribe\<close> returned; \<open>startOnce\<close> makes later calls no-ops.\<close>

definition Controller_Start :: "go_error option \<Rightarrow> Controller \<Rightarrow> go_error option \<times> Controller" where
  "Controller_Start suberr c =
     (let c1 = (if ct_started c then c
                else case suberr of
                  Some e \<Rightarrow> c\<lparr>ct_started := True, ct_startErr := Some e\<rparr>
                | None \<Rightarrow> c\<lparr>ct_started := True, ct_draining := True\<rparr>)
      in (ct_startErr c1, c1))"

definition drain_event :: "instant \<Rightarrow> PaneOutput \<Rightarrow> Controller \<Rightarrow> Controller option" where
  "drain_event now ev c =
     (case ev of
        ServerLost \<Rightarrow> Some (c\<lparr>ct_lost := True\<rparr>)
      | Closed pid \<Rightarrow> Some (c\<lparr>ct_store := Store_Forget pid (ct_store c)\<rparr>)
      | Output pid p \<Rightarrow> map_option (\<lambda>st. c\<lparr>ct_store := st\<rparr>) (Store_Append now pid p (ct_store c)))"

fun drain :: "(instant \<times> PaneOutput) list \<Rightarrow> Controller \<Rightarrow> Controller option" where
  "drain [] c = Some c"
| "drain ((now, ev) # evs) c = Option.bind (drain_event now ev c) (drain evs)"

text \<open>\<open>Stop\<close> cancels the subscription and waits until \<open>drain\<close> has seen the closed channel.\<close>

definition Controller_Stop :: "Controller \<Rightarrow> Controller" where
  "Controller_Stop c = c\<lparr>ct_draining := False\<rparr>"

subsection \<open>Commands\<close>

definition pane_not_found :: "PaneID \<Rightarrow> ErrorResponse" where
  "pane_not_found pid = error_response pid ErrPaneNotFound ''pane not found''"

definition invalid_after :: "PaneID \<Rightarrow> ErrorResponse" where
  "invalid_after pid = error_response pid ErrInvalidAfter
     ''checkpoint token is not valid for this pane or is no longer retained''"

definition List_panes :: "('w \<Rightarrow> (go_error + PaneID list) \<times> 'w) \<Rightarrow> 'w \<Rightarrow> (go_error + ListResponse) \<times> 'w" where
  "List_panes list_panes w =
     (case list_panes w of
        (Inl e, w') \<Rightarrow> (Inl e, w')
      | (Inr panes, w') \<Rightarrow> (Inr \<lparr>lr_panes = panes\<rparr>, w'))"

text \<open>The two places of \<open>Snapshot\<close> that map the port's error.\<close>

definition snapshot_error :: "PaneID \<Rightarrow> go_error \<Rightarrow> go_error" where
  "snapshot_error pid e = (if e = ErrTmuxPaneNotFound then Command (pane_not_found pid) else e)"

definition Snapshot ::
  "(PaneID \<Rightarrow> 'w \<Rightarrow> (go_error + string) \<times> 'w) \<Rightarrow> (PaneID \<Rightarrow> int \<Rightarrow> 'w \<Rightarrow> (go_error + string) \<times> 'w)
    \<Rightarrow> instant \<Rightarrow> PaneID \<Rightarrow> int option \<Rightarrow> 'w \<Rightarrow> Store
    \<Rightarrow> ((go_error + SnapshotResponse) \<times> 'w \<times> Store) option" where
  "Snapshot capture scroll now pid historyLines w st =
     (case capture pid w of
        (Inl e, w1) \<Rightarrow> Some (Inl (snapshot_error pid e), w1, st)
      | (Inr txt, w1) \<Rightarrow>
          (case Store_NewToken now pid st of
             None \<Rightarrow> None
           | Some (tok, st1) \<Rightarrow>
               let resp = \<lparr>sr_pane_id = pid, sr_next = tok, sr_scrollback_text = None,
                           sr_text = Normalize txt\<rparr>
               in case historyLines of
                    None \<Rightarrow> Some (Inr resp, w1, st1)
                  | Some n \<Rightarrow>
                      (case scroll pid n w1 of
                         (Inl e, w2) \<Rightarrow> Some (Inl (snapshot_error pid e), w2, st1)
                       | (Inr sb, w2) \<Rightarrow>
                           Some (Inr (resp\<lparr>sr_scrollback_text := Some (Normalize sb)\<rparr>), w2, st1))))"

text \<open>\<open>s1\<close> and \<open>s2\<close> are the store at the two critical sections of its \<open>Read\<close>.\<close>

definition Read_cmd :: "instant \<Rightarrow> PaneID \<Rightarrow> Token \<Rightarrow> Store \<Rightarrow> Store \<Rightarrow> go_error + ReadResponse" where
  "Read_cmd now pid after s1 s2 =
     (case Store_Read now pid after s1 s2 of
        Inl e \<Rightarrow>
          (if e = ErrPaneUnknown then Inl (Command (pane_not_found pid))
           else if e \<in> {ErrTokenMalformed, ErrTokenWrongInstance, ErrTokenWrongPane, ErrTokenEvicted}
             then Inl (Command (invalid_after pid))
           else Inl e)
      | Inr (out, tok) \<Rightarrow> Inr \<lparr>rr_pane_id = pid, rr_next = tok, rr_text = Normalize out\<rparr>)"

definition SendText_cmd ::
  "(PaneID \<Rightarrow> string \<Rightarrow> bool \<Rightarrow> 'w \<Rightarrow> go_error option \<times> 'w) \<Rightarrow> PaneID \<Rightarrow> string \<Rightarrow> bool \<Rightarrow> 'w
    \<Rightarrow> go_error option \<times> 'w" where
  "SendText_cmd send_text pid txt enter w =
     (case send_text pid txt enter w of
        (Some e, w') \<Rightarrow>
          (if e = ErrTmuxPaneNotFound then (Some (Command (pane_not_found pid)), w') else (Some e, w'))
      | (None, w') \<Rightarrow> (None, w'))"

definition is_invalid_key :: "go_error \<Rightarrow> bool" where
  "is_invalid_key e \<longleftrightarrow> (case e of ErrTmuxInvalidKey _ \<Rightarrow> True | _ \<Rightarrow> False)"

definition SendKeys_cmd ::
  "(PaneID \<Rightarrow> string list \<Rightarrow> 'w \<Rightarrow> go_error option \<times> 'w) \<Rightarrow> PaneID \<Rightarrow> string list \<Rightarrow> 'w
    \<Rightarrow> go_error option \<times> 'w" where
  "SendKeys_cmd send_keys pid keys w =
     (case send_keys pid keys w of
        (Some e, w') \<Rightarrow>
          (if e = ErrTmuxPaneNotFound then (Some (Command (pane_not_found pid)), w')
           else if is_invalid_key e
             then (Some (Command (error_response pid ErrInvalidKey (error_string e))), w')
           else (Some e, w'))
      | (None, w') \<Rightarrow> (None, w'))"

subsection \<open>What the handlers promise over any port\<close>

text \<open>A command-level error about the pane asked for, with one of the given codes, or a
  runtime failure.\<close>

definition command_error :: "PaneID \<Rightarrow> ErrorCode set \<Rightarrow> go_error \<Rightarrow> bool" where
  "command_error pid codes e \<longleftrightarrow>
     (case e of Command r \<Rightarrow> er_pane_id r = pid \<and> er_code r \<in> codes | Runtime m \<Rightarrow> True | _ \<Rightarrow> False)"

lemma command_error_simps [simp]:
  "command_error pid codes (Command r) \<longleftrightarrow> er_pane_id r = pid \<and> er_code r \<in> codes"
  "command_error pid codes (Runtime m)"
  by (simp_all add: command_error_def)

lemma not_found_sel [simp]:
  "er_pane_id (pane_not_found pid) = pid" "er_code (pane_not_found pid) = ErrPaneNotFound"
  "er_pane_id (invalid_after pid) = pid" "er_code (invalid_after pid) = ErrInvalidAfter"
  by (simp_all add: pane_not_found_def invalid_after_def)

lemma snapshot_error_ok: "port_failure e \<Longrightarrow> command_error pid {ErrPaneNotFound} (snapshot_error pid e)"
  by (auto simp: port_failure_def snapshot_error_def)

context port
begin

lemma list_error:
  assumes "usable w" and "List_panes list_panes w = (Inl e, w')"
  shows "port_failure e \<and> usable w'"
proof -
  have "list_panes w = (Inl e, w')"
    using assms(2) by (auto simp: List_panes_def split: prod.splits sum.splits)
  with list_fails [OF assms(1)] usable_ops [OF assms(1)] show ?thesis by (metis fst_conv snd_conv)
qed

lemma snapshot_errors:
  assumes u: "usable w" and "Snapshot capture scroll now pid hist w st = Some (Inl e, w', st')"
  shows "command_error pid {ErrPaneNotFound} e"
proof -
  have "usable (snd (capture pid w))" using usable_ops [OF u] by blast
  with assms(2) show ?thesis
    using capture_fails [OF u] scroll_fails snapshot_error_ok
    unfolding Snapshot_def
    by (auto simp: Let_def split: prod.splits sum.splits option.splits) (metis fst_conv snd_conv)+
qed

text \<open>No history asked for, or none to show, and the scrollback field is absent or empty.\<close>

lemma snapshot_history:
  assumes u: "usable w" and "Snapshot capture scroll now pid hist w st = Some (Inr r, w', st')"
  shows "(hist = None \<longleftrightarrow> sr_scrollback_text r = None) \<and>
    (\<forall>n. hist = Some n \<longrightarrow> n \<le> 0 \<longrightarrow> sr_scrollback_text r = Some (Normalize []))"
proof -
  have "usable (snd (capture pid w))" using usable_ops [OF u] by blast
  with assms(2) show ?thesis
    using scroll_none unfolding Snapshot_def
    by (auto simp: Let_def split: prod.splits sum.splits option.splits)
qed

lemma text_errors:
  assumes "usable w" and "SendText_cmd send_text pid txt enter w = (Some e, w')"
  shows "command_error pid {ErrPaneNotFound} e"
  using assms(2) text_fails [OF assms(1), of pid "txt" enter]
  by (auto simp: SendText_cmd_def port_failure_def split: prod.splits option.splits if_splits)

lemma key_errors:
  assumes "usable w" and "SendKeys_cmd send_keys pid keys w = (Some e, w')"
  shows "command_error pid {ErrPaneNotFound, ErrInvalidKey} e"
  using assms(2) keys_fail [OF assms(1), of pid keys]
  by (auto simp: SendKeys_cmd_def key_failure_def port_failure_def is_invalid_key_def
      split: prod.splits option.splits if_splits)

end

subsection \<open>Draining\<close>

fun event_ops :: "(instant \<times> PaneOutput) list \<Rightarrow> store_op list" where
  "event_ops [] = []"
| "event_ops ((now, Output pid p) # evs) = OpAppend now pid p # event_ops evs"
| "event_ops ((now, Closed pid) # evs) = OpForget pid # event_ops evs"
| "event_ops ((now, ServerLost) # evs) = event_ops evs"

lemma drain_run:
  assumes "store_rep (ct_store c) H"
  shows "\<exists>c'. drain evs c = Some c' \<and> store_run (event_ops evs) (ct_store c) = Some (ct_store c') \<and>
    store_rep (ct_store c') (abs_run (event_ops evs) H) \<and>
    (ct_lost c' \<longleftrightarrow> ct_lost c \<or> ServerLost \<in> snd ` set evs) \<and>
    st_instance (ct_store c') = st_instance (ct_store c) \<and> st_capacity (ct_store c') = st_capacity (ct_store c)"
  using assms
proof (induction evs arbitrary: c H)
  case (Cons x evs)
  obtain now ev where x: "x = (now, ev)" by (cases x)
  show ?case
  proof (cases ev)
    case (Output pid p)
    from Store_Append_rep [OF Cons.prems, of now pid p] obtain st where
      st: "Store_Append now pid p (ct_store c) = Some st" "store_rep st (abs_step (OpAppend now pid p) H)"
      "st_instance st = st_instance (ct_store c)" "st_capacity st = st_capacity (ct_store c)" by auto
    from Cons.IH [of "c\<lparr>ct_store := st\<rparr>"] st(2) show ?thesis
      using st x Output by (force simp: drain_event_def)
  next
    case (Closed pid)
    from Cons.IH [of "c\<lparr>ct_store := Store_Forget pid (ct_store c)\<rparr>"] Store_Forget_rep [OF Cons.prems, of pid]
    show ?thesis using x Closed by (force simp: drain_event_def)
  next
    case ServerLost
    from Cons.IH [of "c\<lparr>ct_lost := True\<rparr>"] Cons.prems show ?thesis
      using x ServerLost by (force simp: drain_event_def)
  qed
qed simp

lemma drain_append: "drain (xs @ ys) c = Option.bind (drain xs c) (drain ys)"
  by (induction xs arbitrary: c) (auto simp: bind_assoc split: Option.bind_splits)

text \<open>\<open>Read\<close> over the streams the store stands for.\<close>

lemma Read_cmd_rep:
  assumes "store_rep s H"
  shows "Read_cmd now pid after s s =
    (case H pid of
       None \<Rightarrow> Inl (Command (pane_not_found pid))
     | Some h \<Rightarrow>
         (case decodeToken after of
            Inl e \<Rightarrow> Inl (Command (invalid_after pid))
          | Inr tp \<Rightarrow>
              if tp_I tp = st_instance s \<and> tp_P tp = pid \<and> 0 \<le> tp_O tp
                 \<and> int (length h) - st_capacity s \<le> tp_O tp \<and> tp_O tp \<le> int (length h)
              then Inr \<lparr>rr_pane_id = pid, rr_next = encodeToken (st_instance s) pid (int (length h)) now,
                        rr_text = Normalize (drop (nat (tp_O tp)) h)\<rparr>
              else Inl (Command (invalid_after pid))))"
proof -
  have "e = ErrTokenMalformed" if "decodeToken after = Inl e" for e
    using that by (auto simp: decodeToken_def split: option.splits)
  then show ?thesis
    unfolding Read_cmd_def Store_Read_rep [OF assms assms refl] stream_read_def
    by (auto split: option.split sum.split)
qed

subsection \<open>Properties\<close>

text \<open>
  What a command asks of tmux, one invocation after the other: the arguments, and which
  texts on standard error mean which code when that invocation fails. A command fails with
  its first failing invocation, at run time (\<open>None\<close>) when none of the texts is there.
\<close>

type_synonym tmux_call = "string list \<times> (string list \<times> ErrorCode) list"

definition mentions :: "string \<Rightarrow> string \<Rightarrow> bool" where
  "mentions msg txt \<longleftrightarrow> (\<exists>pre post. msg = pre @ txt @ post)"

fun stated_code :: "(string list \<times> ErrorCode) list \<Rightarrow> string \<Rightarrow> ErrorCode option" where
  "stated_code [] msg = None"
| "stated_code ((texts, code) # rules) msg = (if \<exists>txt \<in> set texts. mentions msg txt then Some code else stated_code rules msg)"

fun first_failure :: "'w tmux \<Rightarrow> Opts \<Rightarrow> tmux_call list \<Rightarrow> 'w \<Rightarrow> ErrorCode option option" where
  "first_failure tmux opts [] w = None"
| "first_failure tmux opts ((argv, rules) # calls) w =
     (case tmux (Adapter_cmd opts argv) w of
        (r, w') \<Rightarrow> (case tr_err r of
           None \<Rightarrow> first_failure tmux opts calls w'
         | Some err \<Rightarrow> Some (stated_code rules (tr_stderr r))))"

definition screen_gone :: "(string list \<times> ErrorCode) list" where
  "screen_gone = [([''can'' @ [CHR 0x27] @ ''t find pane'', ''no such pane''], ErrPaneNotFound)]"

definition pane_gone :: "(string list \<times> ErrorCode) list" where
  "pane_gone = [([''can'' @ [CHR 0x27] @ ''t find pane'', ''no such pane'', ''pane not found''], ErrPaneNotFound)]"

definition bad_key :: "(string list \<times> ErrorCode) list" where
  "bad_key = [([''unknown key'', ''invalid key'', ''bad key''], ErrInvalidKey)]"

definition snapshot_calls :: "PaneID \<Rightarrow> int option \<Rightarrow> tmux_call list" where
  "snapshot_calls pid hist = ([''capture-pane'', ''-p'', ''-t'', pid], screen_gone) #
     (case hist of
        None \<Rightarrow> []
      | Some n \<Rightarrow> if n \<le> 0 then []
          else [([''capture-pane'', ''-p'', ''-S'', ''-'' @ itoa n, ''-E'', ''-1'', ''-t'', pid], pane_gone)])"

definition text_calls :: "PaneID \<Rightarrow> string \<Rightarrow> bool \<Rightarrow> tmux_call list" where
  "text_calls pid msg enter = ([''send-keys'', ''-l'', ''-t'', pid, ''--'', msg], pane_gone) #
     (if enter then [([''send-keys'', ''-t'', pid, ''--'', ''Enter''], pane_gone)] else [])"

definition key_calls :: "PaneID \<Rightarrow> string list \<Rightarrow> tmux_call list" where
  "key_calls pid keys = [([''send-keys'', ''-t'', pid, ''--''] @ map escape_key keys, pane_gone @ bad_key)]"

text \<open>The error of a command says what the failure was, about the pane asked for.\<close>

definition reports :: "PaneID \<Rightarrow> ErrorCode option option \<Rightarrow> go_error option \<Rightarrow> bool" where
  "reports pid failure res \<longleftrightarrow>
     (case failure of
        None \<Rightarrow> res = None
      | Some None \<Rightarrow> \<exists>m. res = Some (Runtime m)
      | Some (Some code) \<Rightarrow> \<exists>m. res = Some (Command (error_response pid code m)))"

lemma stated_simps [simp]:
  "stated_code screen_gone s = (if contains s (''can'' @ [ch_apos] @ ''t find pane'') \<or> contains s ''no such pane''
     then Some ErrPaneNotFound else None)"
  "stated_code pane_gone s = (if isPaneMissingStderr s then Some ErrPaneNotFound else None)"
  "stated_code (pane_gone @ bad_key) s = (if isPaneMissingStderr s then Some ErrPaneNotFound
     else if is_key_stderr s then Some ErrInvalidKey else None)"
  by (simp_all add: screen_gone_def pane_gone_def bad_key_def mentions_def isPaneMissingStderr_def is_key_stderr_def
      contains_iff)

lemma reports_simps [simp]:
  "reports pid None res \<longleftrightarrow> res = None"
  "reports pid (Some None) (Some (tmux_error what err msg))"
  "reports pid (Some None) (Some (Runtime m))"
  "reports pid (Some (Some ErrPaneNotFound)) (Some (Command (pane_not_found pid)))"
  "reports pid (Some (Some code)) (Some (Command (error_response pid code m)))"
  by (auto simp: reports_def tmux_error_def pane_not_found_def)

lemma tmux_error_other [simp]:
  "tmux_error what err msg \<noteq> ErrTmuxPaneNotFound" "\<not> is_invalid_key (tmux_error what err msg)"
  "\<not> is_invalid_key (Runtime m)" "is_invalid_key (ErrTmuxInvalidKey m)"
  by (simp_all add: tmux_error_def is_invalid_key_def)

lemma text_reports:
  "reports pid (first_failure tmux opts (text_calls pid msg enter) w) (fst (SendText_cmd (Adapter_SendText tmux opts) pid msg enter w))"
  by (simp add: SendText_cmd_def Adapter_SendText_def text_calls_def split: prod.split option.split)

lemma key_reports:
  "reports pid (if keys = [] then Some None else first_failure tmux opts (key_calls pid keys) w)
     (fst (SendKeys_cmd (Adapter_SendKeys tmux opts) pid keys w))"
  by (simp add: SendKeys_cmd_def Adapter_SendKeys_def key_calls_def split: prod.split option.split)

lemma snapshot_reports:
  assumes s: "Snapshot (Adapter_CapturePane tmux opts) (Adapter_CaptureScrollback tmux opts) now pid hist w st = Some (res, w', st')"
  shows "reports pid (first_failure tmux opts (snapshot_calls pid hist) w) (case res of Inl e \<Rightarrow> Some e | Inr r \<Rightarrow> None)"
proof -
  let ?capture = "Adapter_CapturePane tmux opts" and ?scroll = "Adapter_CaptureScrollback tmux opts"
  obtain r w1 where r: "tmux (Adapter_cmd opts [''capture-pane'', ''-p'', ''-t'', pid]) w = (r, w1)" by fastforce
  show ?thesis
  proof (cases "tr_err r")
    case (Some err)
    with r s show ?thesis
      by (auto simp: Snapshot_def Adapter_CapturePane_def snapshot_calls_def snapshot_error_def split: if_splits)
  next
    case None
    then have c: "?capture pid w = (Inr (tr_stdout r), w1)" using r by (simp add: Adapter_CapturePane_def)
    with s obtain tok st1 where m: "Store_NewToken now pid st = Some (tok, st1)"
      by (auto simp: Snapshot_def split: option.splits)
    show ?thesis
    proof (cases hist)
      case h: None
      with s c m r None show ?thesis by (auto simp: Snapshot_def snapshot_calls_def)
    next
      case (Some n)
      obtain x w2 where x: "?scroll pid n w1 = (x, w2)" by fastforce
      have "(case res of Inl e \<Rightarrow> Some e | Inr r \<Rightarrow> None) = (case x of Inl e \<Rightarrow> Some (snapshot_error pid e) | Inr r \<Rightarrow> None)"
        using s c m Some x by (auto simp: Snapshot_def Let_def split: sum.splits)
      moreover have "reports pid (first_failure tmux opts (snapshot_calls pid hist) w)
          (case x of Inl e \<Rightarrow> Some (snapshot_error pid e) | Inr r \<Rightarrow> None)"
        using x r None Some
        by (auto simp: Adapter_CaptureScrollback_def snapshot_calls_def snapshot_error_def
            split: prod.splits option.splits if_splits)
      ultimately show ?thesis by simp
    qed
  qed
qed

text \<open>C37: over the tmux adapter, whatever tmux answers, the failures of the commands are
  exactly those of tmux. A snapshot, a text and a key succeed precisely when each of their
  tmux invocations does. Otherwise the first that fails decides: PANE_NOT_FOUND for the
  pane asked for when its standard error has one of the texts for an absent pane,
  INVALID_KEY when it has one of those for a bad key instead, and a runtime failure when it
  has neither. No keys at all are a runtime failure, without tmux.\<close>

theorem adapter_command_errors:
  "(\<forall>res w' st'. Snapshot (Adapter_CapturePane tmux opts) (Adapter_CaptureScrollback tmux opts) now pid hist w st
       = Some (res, w', st') \<longrightarrow>
       reports pid (first_failure tmux opts (snapshot_calls pid hist) w) (case res of Inl e \<Rightarrow> Some e | Inr r \<Rightarrow> None)) \<and>
   reports pid (first_failure tmux opts (text_calls pid msg enter) w)
     (fst (SendText_cmd (Adapter_SendText tmux opts) pid msg enter w)) \<and>
   reports pid (if keys = [] then Some None else first_failure tmux opts (key_calls pid keys) w)
     (fst (SendKeys_cmd (Adapter_SendKeys tmux opts) pid keys w))"
  by (intro conjI allI impI; (rule text_reports key_reports | erule snapshot_reports))

theorem adapter_command_errors_witness:
  "\<exists>tmux :: nat tmux.
     (\<forall>opts. \<exists>m. fst (SendText_cmd (Adapter_SendText tmux opts) ''%9'' ''ls'' True 0) =
        Some (Command (error_response ''%9'' ErrPaneNotFound m))) \<and>
     (\<forall>opts. \<exists>m. fst (SendKeys_cmd (Adapter_SendKeys tmux opts) ''%9'' [''Foo''] 1) =
        Some (Command (error_response ''%9'' ErrInvalidKey m))) \<and>
     (\<forall>opts. \<exists>m w' st'. Snapshot (Adapter_CapturePane tmux opts) (Adapter_CaptureScrollback tmux opts) 5 ''%9'' None 2
        (Store_New ''AB'' 8) = Some (Inl (Runtime m), w', st'))"
proof -
  let ?says = "\<lambda>n :: nat. if n = 0 then ''no such pane: %9'' else if n = 1 then ''unknown key: Foo'' else ''no server''"
  let ?tmux = "\<lambda>argv n. (\<lparr>tr_err = Some ''exit status 1'', tr_stdout = [], tr_stderr = ?says n\<rparr>, n)"
  have says: "isPaneMissingStderr ''no such pane: %9''" "\<not> isPaneMissingStderr ''unknown key: Foo''"
    "is_key_stderr ''unknown key: Foo''" "\<not> contains ''no server'' (''can'' @ [ch_apos] @ ''t find pane'')"
    "\<not> contains ''no server'' ''no such pane''" by code_simp+
  have calls: "first_failure ?tmux opts (text_calls ''%9'' ''ls'' True) 0 = Some (Some ErrPaneNotFound)"
    "first_failure ?tmux opts (key_calls ''%9'' [''Foo'']) 1 = Some (Some ErrInvalidKey)"
    "first_failure ?tmux opts (snapshot_calls ''%9'' None) 2 = Some None" for opts
    using says by (simp_all add: text_calls_def key_calls_def snapshot_calls_def)
  note errors = adapter_command_errors [where tmux = ?tmux and pid = "''%9''" and msg = "''ls''" and enter = True and w = 0]
    adapter_command_errors [where tmux = ?tmux and pid = "''%9''" and keys = "[''Foo'']" and w = 1]
    adapter_command_errors [where tmux = ?tmux and pid = "''%9''" and hist = None and w = 2 and now = 5 and st = "Store_New ''AB'' 8"]
  have "\<exists>m. fst (SendText_cmd (Adapter_SendText ?tmux opts) ''%9'' ''ls'' True 0) =
      Some (Command (error_response ''%9'' ErrPaneNotFound m))" for opts
    using errors(1) [where opts = opts, THEN conjunct2, THEN conjunct1] unfolding calls reports_def by simp
  moreover have "\<exists>m. fst (SendKeys_cmd (Adapter_SendKeys ?tmux opts) ''%9'' [''Foo''] 1) =
      Some (Command (error_response ''%9'' ErrInvalidKey m))" for opts
    using errors(2) [where opts = opts, THEN conjunct2, THEN conjunct2] calls(2) [of opts] by (simp add: reports_def)
  moreover have "\<exists>m w' st'. Snapshot (Adapter_CapturePane ?tmux opts) (Adapter_CaptureScrollback ?tmux opts) 5 ''%9'' None 2
      (Store_New ''AB'' 8) = Some (Inl (Runtime m), w', st')" for opts
  proof -
    obtain e w' st' where s: "Snapshot (Adapter_CapturePane ?tmux opts) (Adapter_CaptureScrollback ?tmux opts) 5 ''%9'' None 2
        (Store_New ''AB'' 8) = Some (Inl e, w', st')"
      using says(4,5) by (simp add: Snapshot_def Adapter_CapturePane_def)
    with errors(3) [where opts = opts, THEN conjunct1] calls(3) [of opts] have "\<exists>m. e = Runtime m"
      by (auto simp: reports_def)
    with s show ?thesis by blast
  qed
  ultimately show ?thesis by (intro exI [of _ ?tmux] conjI allI)
qed

text \<open>C22: the outcome of read is the one the pane's stream determines, and it is never a
  runtime failure: PANE_NOT_FOUND for every token when the store holds no stream of the
  pane, INVALID_AFTER when the token does not decode, is foreign, or points outside the
  retained window, and otherwise the normalized output since the token with a token for
  the head of the stream.\<close>

theorem read_outcome:
  assumes "store_rep s H"
  shows "Read_cmd now pid after s s =
    (case H pid of
       None \<Rightarrow> Inl (Command (pane_not_found pid))
     | Some h \<Rightarrow>
         (case decodeToken after of
            Inl e \<Rightarrow> Inl (Command (invalid_after pid))
          | Inr tp \<Rightarrow>
              if tp_I tp = st_instance s \<and> tp_P tp = pid \<and> 0 \<le> tp_O tp
                 \<and> int (length h) - st_capacity s \<le> tp_O tp \<and> tp_O tp \<le> int (length h)
              then Inr \<lparr>rr_pane_id = pid, rr_next = encodeToken (st_instance s) pid (int (length h)) now,
                        rr_text = Normalize (drop (nat (tp_O tp)) h)\<rparr>
              else Inl (Command (invalid_after pid))))"
  by (rule Read_cmd_rep [OF assms])

theorem read_outcome_witness:
  "Read_cmd 9 ''%1'' (encodeToken ''00'' ''%1'' 0 3) (Store_New ''AB'' 8) (Store_New ''AB'' 8) =
     Inl (Command (pane_not_found ''%1''))"
  using read_outcome [OF store_rep_new [of 8 "''AB''"], of 9 "''%1''" "encodeToken ''00'' ''%1'' 0 3"] by simp

text \<open>C21: the snapshot-then-read contract. A successful snapshot answers the normalized
  screen and a checkpoint: after anything the store does short of destroying the pane, a
  read with that checkpoint returns exactly the output appended after the checkpoint was
  minted, normalized, if that fits the retention budget, and INVALID_AFTER if it does not.
  Output that arrived between the capture of the screen and the minting is in neither.\<close>

theorem snapshot_then_read:
  assumes "store_rep st H" and "capture pid w = (Inr screen, w1)" and "hist = None \<or> (\<exists>n sb w2. hist = Some n \<and> scroll pid n w1 = (Inr sb, w2))"
    and "utf8_valid (st_instance st)" "utf8_valid pid" and "in_int64 t0"
    and "in_int64 (int (length (known_stream H pid)))" and "OpForget pid \<notin> set xs"
  shows "\<exists>r w' st1 st2. Snapshot capture scroll t0 pid hist w st = Some (Inr r, w', st1) \<and>
    store_run xs st1 = Some st2 \<and> sr_text r = Normalize screen \<and>
    Read_cmd now pid (sr_next r) st2 st2 =
      (if int (length (appended pid xs)) \<le> st_capacity st
       then Inr \<lparr>rr_pane_id = pid, rr_next = encodeToken (st_instance st) pid
                (int (length (known_stream H pid) + length (appended pid xs))) now,
              rr_text = Normalize (appended pid xs)\<rparr>
       else Inl (Command (invalid_after pid)))"
proof -
  obtain t st1 st2 where
    m: "Store_NewToken t0 pid st = Some (t, st1)" "store_run xs st1 = Some st2"
    "Store_Read now pid t st2 st2 =
      (if int (length (appended pid xs)) \<le> st_capacity st
       then Inr (appended pid xs, encodeToken (st_instance st) pid
              (int (length (known_stream H pid) + length (appended pid xs))) now)
       else Inl ErrTokenEvicted)"
  proof (cases "int (length (appended pid xs)) \<le> st_capacity st")
    case True
    with log.mint_run_rd [OF assms(1,4-8) True, of now] that show ?thesis by auto
  next
    case False
    then have "st_capacity st < int (length (appended pid xs))" by simp
    from log.mint_run_rd_evicted [OF assms(1,4-8) this, of now] that False show ?thesis by auto
  qed
  have "\<exists>r w'. Snapshot capture scroll t0 pid hist w st = Some (Inr r, w', st1) \<and> sr_text r = Normalize screen
      \<and> sr_next r = t"
    using assms(2,3) m(1) by (auto simp: Snapshot_def)
  with m(2,3) show ?thesis by (auto simp: Read_cmd_def)
qed

theorem snapshot_then_read_witness:
  "\<exists>r w' st1 st2. Snapshot (\<lambda>p w. (Inr ''$ '', w)) (\<lambda>p n w. (Inr [], w)) 5 ''%1'' None (0 :: nat) (Store_New ''AB'' 8)
       = Some (Inr r, w', st1) \<and> store_run [OpAppend 6 ''%1'' ''ls '', OpAppend 6 ''%2'' ''x''] st1 = Some st2 \<and>
     sr_text r = Normalize ''$ '' \<and> Read_cmd 9 ''%1'' (sr_next r) st2 st2 =
       Inr \<lparr>rr_pane_id = ''%1'', rr_next = encodeToken ''4142'' ''%1'' 3 9, rr_text = Normalize ''ls ''\<rparr>"
proof -
  have v: "st_instance (Store_New ''AB'' 8) = ''4142''" "utf8_valid ''4142''" "utf8_valid ''%1''" by code_simp+
  show ?thesis
    using snapshot_then_read [OF store_rep_new [of 8 "''AB''"], of "\<lambda>p w. (Inr ''$ '', w)" "''%1''" "0 :: nat" "''$ ''" 0
        None "\<lambda>p n w. (Inr [], w)" 5 "[OpAppend 6 ''%1'' ''ls '', OpAppend 6 ''%2'' ''x'']" 9] v
    by (simp add: in_int64_def int64_min_def int64_max_def) (simp add: Store_New_def)
qed

text \<open>Draining is faithful. Whatever events the subscription delivers, in whatever
  order, the store ends up with the streams the events describe, nothing panics, and the
  loss of the server is announced exactly when the events report it.\<close>

lemma drain_faithful:
  assumes "0 < capacity"
  shows "\<exists>c. drain evs (NewWithCapacity rnd capacity) = Some c \<and>
    store_rep (ct_store c) (abs_run (event_ops evs) Map.empty) \<and>
    (ct_lost c \<longleftrightarrow> ServerLost \<in> snd ` set evs)"
proof -
  have "store_rep (ct_store (NewWithCapacity rnd capacity)) Map.empty"
    using store_rep_new [OF assms] by (simp add: NewWithCapacity_def)
  from drain_run [OF this, of evs] show ?thesis by (auto simp: NewWithCapacity_def)
qed

lemma drain_faithful_example:
  "\<exists>c. drain [(1, Output ''%1'' ''ab''), (2, Closed ''%1''), (3, ServerLost)] (NewWithCapacity ''AB'' 4) = Some c \<and>
     store_rep (ct_store c) Map.empty \<and> ct_lost c"
proof -
  have "abs_run (event_ops [(1, Output ''%1'' ''ab''), (2, Closed ''%1''), (3, ServerLost)]) Map.empty = Map.empty"
    by (simp add: fun_eq_iff)
  with drain_faithful [of 4 "[(1, Output ''%1'' ''ab''), (2, Closed ''%1''), (3, ServerLost)]" "''AB''"]
  show ?thesis by auto
qed

text \<open>Output can overtake the news of its pane's death. For any pane and any chunk a
  run of the subscription exists in which the reader still holds the chunk when the pane's
  closing is sent, so the channel carries the closing first and the chunk after it, no
  tracker and no reader is left, and the controller that drains these events holds a
  stream for the dead pane that nothing will ever forget.\<close>

lemma late_output_revives_pane:
  assumes "d \<noteq> []" and "length d \<le> 4096" and "0 < capacity"
  shows "\<exists>ls s c. sub_run ls s \<and> sb_sent s = [Closed p, Output p d] \<and> tracked s = [] \<and>
    list_all pt_done (sb_readers s) \<and>
    drain (map (Pair now) (sb_sent s)) (NewWithCapacity rnd capacity) = Some c \<and>
    Store_HasPane p (ct_store c)"
proof -
  let ?ls = "[Lists [p] [p] [], ReaderRead 0 d, Lists [] [] [p], StopNext, SyncSend, ReaderSend 0, ReaderExit 0]"
  obtain s where s: "sub_exec ?ls Adapter_Subscribe = Some s" "sb_sent s = [Closed p, Output p d]"
    "tracked s = []" "list_all pt_done (sb_readers s)"
    using assms(1,2) by (simp add: Adapter_Subscribe_def sync_idle_def sync_listed_def start_missing_def
        start_tracker_def stop_tracker_def tracked_def channel_room_def out_capacity_def read_size_def)
  have run: "sub_run ?ls s" using sub_exec_run [OF sub_start s(1)] by simp
  have "store_rep (ct_store (NewWithCapacity rnd capacity)) Map.empty"
    using store_rep_new [OF assms(3)] by (simp add: NewWithCapacity_def)
  from drain_run [OF this, of "map (Pair now) (sb_sent s)"] obtain c where
    c: "drain (map (Pair now) (sb_sent s)) (NewWithCapacity rnd capacity) = Some c"
    "store_rep (ct_store c) (abs_run (event_ops (map (Pair now) (sb_sent s))) Map.empty)" by blast
  have "abs_run (event_ops (map (Pair now) (sb_sent s))) Map.empty p \<noteq> None"
    using assms(1) by (simp add: s(2))
  then have "Store_HasPane p (ct_store c)"
    using store_rep_dom [OF c(2)] by (simp add: Store_HasPane_def)
  with run s c show ?thesis by blast
qed

lemma late_output_revives_pane_example:
  "\<exists>ls s c. sub_run ls s \<and> sb_sent s = [Closed ''%3'', Output ''%3'' ''bye''] \<and> tracked s = [] \<and>
     list_all pt_done (sb_readers s) \<and>
     drain (map (Pair 7) (sb_sent s)) (NewWithCapacity ''AB'' 4) = Some c \<and> Store_HasPane ''%3'' (ct_store c)"
  by (rule late_output_revives_pane) simp_all

end
