(* ===== verification/Waiter.thy ===== *)
theory Waiter
  imports Strconv
begin

section \<open>Waiter: the match evaluators (internal/waiter)\<close>

text \<open>
  \<open>MatchSentinel\<close> with its search loop over offsets, and \<open>MatchRegex\<close> over the function
  \<open>FindIndex\<close> of a compiled expression. The reference for the loop is the plain scan:
  the first position of the buffer at which a whole sentinel with a representable exit
  code starts.
\<close>

record SentinelMatch =
  sm_Matched :: string
  sm_ExitCode :: int
  sm_End :: nat

record RegexMatch =
  rm_Matched :: string
  rm_End :: nat

definition sentinel_prefix :: "string \<Rightarrow> bytes" where
  "sentinel_prefix token = ''__DONE__:'' @ token @ '':''"

lemma sentinel_prefix_not_Nil [simp]: "sentinel_prefix token \<noteq> []"
  by (simp add: sentinel_prefix_def)

lemma index_drop_bound:
  assumes "bytes_index (drop offset buf) p = Some i" and "p \<noteq> []"
  shows "i + offset < length buf"
proof -
  from bytes_index_Some [OF assms(1)] obtain t where "drop i (drop offset buf) = p @ t"
    by (auto simp: has_prefix_iff)
  with assms(2) have "drop i (drop offset buf) \<noteq> []" by simp
  then show ?thesis by simp
qed

function sentinel_loop :: "bytes \<Rightarrow> string \<Rightarrow> nat \<Rightarrow> SentinelMatch option" where
  "sentinel_loop buf token offset =
     (case bytes_index (drop offset buf) (sentinel_prefix token) of
        None \<Rightarrow> None
      | Some i \<Rightarrow>
          let idx = i + offset;
              start = idx + length (sentinel_prefix token);
              digits = takeWhile is_digit (drop start buf);
              stop = start + length digits
          in if stop > start
             then (case atoi digits of
                     Some code \<Rightarrow> Some \<lparr>sm_Matched = slice buf idx stop, sm_ExitCode = code, sm_End = stop\<rparr>
                   | None \<Rightarrow> sentinel_loop buf token (idx + 1))
             else sentinel_loop buf token (idx + 1))"
  by pat_completeness auto

termination
proof (relation "measure (\<lambda>(buf, token, offset). length buf - offset)", goal_cases)
  case (2 buf token offset i)
  then show ?case using index_drop_bound [of offset buf "sentinel_prefix token" i] by auto
next
  case (3 buf token offset i)
  then show ?case using index_drop_bound [of offset buf "sentinel_prefix token" i] by auto
qed auto

declare sentinel_loop.simps [simp del]

definition MatchSentinel :: "bytes \<Rightarrow> string \<Rightarrow> SentinelMatch option" where
  "MatchSentinel buf token = sentinel_loop buf token 0"

type_synonym find_index = "bytes \<Rightarrow> (nat \<times> nat) option"

definition MatchRegex :: "bytes \<Rightarrow> find_index \<Rightarrow> RegexMatch option" where
  "MatchRegex buf FindIndex =
     (case FindIndex buf of
        None \<Rightarrow> None
      | Some (i, j) \<Rightarrow> Some \<lparr>rm_Matched = slice buf i j, rm_End = j\<rparr>)"

subsection \<open>The reference scan\<close>

definition digits_at :: "bytes \<Rightarrow> nat \<Rightarrow> string" where
  "digits_at buf i = takeWhile is_digit (drop i buf)"

definition sentinel_at :: "bytes \<Rightarrow> string \<Rightarrow> nat \<Rightarrow> SentinelMatch option" where
  "sentinel_at buf token i =
     (let start = i + length (sentinel_prefix token); ds = digits_at buf start
      in if has_prefix (drop i buf) (sentinel_prefix token) \<and> ds \<noteq> [] \<and> in_int64 (int (nat_of_digits ds))
         then Some \<lparr>sm_Matched = sentinel_prefix token @ ds, sm_ExitCode = int (nat_of_digits ds),
                    sm_End = start + length ds\<rparr>
         else None)"

definition first_sentinel :: "bytes \<Rightarrow> string \<Rightarrow> SentinelMatch option" where
  "first_sentinel buf token =
     Option.bind (find (\<lambda>i. sentinel_at buf token i \<noteq> None) [0..<length buf]) (sentinel_at buf token)"

lemma takeWhile_digits: "list_all is_digit (takeWhile is_digit s)"
  by (induction s) auto

lemma slice_match:
  assumes "has_prefix (drop i buf) p" and "ds = takeWhile is_digit (drop (i + length p) buf)"
  shows "slice buf i (i + length p + length ds) = p @ ds"
proof -
  from assms(1) obtain t where t: "drop i buf = p @ t" by (auto simp: has_prefix_iff)
  have "drop (length p) (drop i buf) = t" by (simp add: t)
  then have d: "drop (i + length p) buf = t" by (simp add: add.commute)
  have "take (length ds) t = ds"
    unfolding assms(2) d by (rule takeWhile_eq_take [symmetric])
  with t show ?thesis by (simp add: slice_def del: drop_drop)
qed

lemma sentinel_loop_at:
  "(\<forall>i. offset \<le> i \<longrightarrow> sentinel_at buf token i = None) \<and> sentinel_loop buf token offset = None \<or>
   (\<exists>i \<ge> offset. (\<forall>j. offset \<le> j \<longrightarrow> j < i \<longrightarrow> sentinel_at buf token j = None) \<and>
      sentinel_at buf token i \<noteq> None \<and> sentinel_loop buf token offset = sentinel_at buf token i)"
proof (induction buf token offset rule: sentinel_loop.induct)
  case (1 buf token offset)
  let ?p = "sentinel_prefix token"
  show ?case
  proof (cases "bytes_index (drop offset buf) ?p")
    case None
    have "sentinel_at buf token i = None" if "offset \<le> i" for i
    proof -
      have "\<not> has_prefix (drop i buf) ?p" using bytes_index_None [OF None, of "i - offset"] that by simp
      then show ?thesis by (simp add: sentinel_at_def Let_def)
    qed
    with None show ?thesis by (subst sentinel_loop.simps) simp
  next
    case (Some i)
    let ?idx = "i + offset"
    let ?ds = "takeWhile is_digit (drop (?idx + length ?p) buf)"
    have pre: "has_prefix (drop ?idx buf) ?p" using bytes_index_Some [OF Some] by simp
    have before: "sentinel_at buf token j = None" if "offset \<le> j" "j < ?idx" for j
    proof -
      have "\<not> has_prefix (drop j buf) ?p"
        using bytes_index_least [OF Some, of "j - offset"] that by simp
      then show ?thesis by (simp add: sentinel_at_def Let_def)
    qed
    have at: "sentinel_at buf token ?idx = (if ?ds \<noteq> [] \<and> in_int64 (int (nat_of_digits ?ds))
        then Some \<lparr>sm_Matched = slice buf ?idx (?idx + length ?p + length ?ds),
                   sm_ExitCode = int (nat_of_digits ?ds), sm_End = ?idx + length ?p + length ?ds\<rparr>
        else None)"
      using pre slice_match [OF pre refl] by (simp add: sentinel_at_def digits_at_def Let_def)
    have parse: "?ds \<noteq> [] \<Longrightarrow> atoi ?ds =
        (if in_int64 (int (nat_of_digits ?ds)) then Some (int (nat_of_digits ?ds)) else None)"
      using parse_int64_digits takeWhile_digits by (simp add: atoi_def)
    show ?thesis
    proof (cases "sentinel_at buf token ?idx = None")
      case False
      then have ok: "?ds \<noteq> []" "in_int64 (int (nat_of_digits ?ds))" using at by (auto split: if_splits)
      have "sentinel_loop buf token offset = sentinel_at buf token ?idx"
        using at ok parse Some by (subst sentinel_loop.simps) (simp add: Let_def)
      with before False show ?thesis by (intro disjI2 exI [of _ ?idx]) simp
    next
      case True
      then have no: "?ds = [] \<or> \<not> in_int64 (int (nat_of_digits ?ds))" using at by (auto split: if_splits)
      have loop: "sentinel_loop buf token offset = sentinel_loop buf token (?idx + 1)"
        using no parse Some by (subst sentinel_loop.simps) (auto simp: Let_def)
      have before': "sentinel_at buf token j = None" if "offset \<le> j" "j < ?idx + 1" for j
        using that before [of j] True by (cases "j = ?idx") auto
      have ih: "(\<forall>k. ?idx + 1 \<le> k \<longrightarrow> sentinel_at buf token k = None) \<and> sentinel_loop buf token (?idx + 1) = None \<or>
        (\<exists>k \<ge> ?idx + 1. (\<forall>j. ?idx + 1 \<le> j \<longrightarrow> j < k \<longrightarrow> sentinel_at buf token j = None) \<and>
          sentinel_at buf token k \<noteq> None \<and> sentinel_loop buf token (?idx + 1) = sentinel_at buf token k)"
      proof (cases "?ds = []")
        case True
        with 1(2) [OF Some refl refl refl refl] show ?thesis by simp
      next
        case False
        with no parse have "atoi ?ds = None" by simp
        with 1(1) [OF Some refl refl refl refl] False show ?thesis by simp
      qed
      then show ?thesis
      proof (elim disjE exE conjE)
        assume a: "\<forall>k. ?idx + 1 \<le> k \<longrightarrow> sentinel_at buf token k = None"
          "sentinel_loop buf token (?idx + 1) = None"
        have "sentinel_at buf token k = None" if "offset \<le> k" for k
          using a(1) before' [OF that] by (cases "k < ?idx + 1") auto
        with a(2) loop show ?thesis by simp
      next
        fix k assume k: "?idx + 1 \<le> k" "\<forall>j. ?idx + 1 \<le> j \<longrightarrow> j < k \<longrightarrow> sentinel_at buf token j = None"
          "sentinel_at buf token k \<noteq> None" "sentinel_loop buf token (?idx + 1) = sentinel_at buf token k"
        have "sentinel_at buf token j = None" if "offset \<le> j" "j < k" for j
          using k(2) that before' [OF that(1)] by (cases "j < ?idx + 1") auto
        with k loop show ?thesis by (intro disjI2 exI [of _ k]) simp
      qed
    qed
  qed
qed

lemma sentinel_at_bound: "sentinel_at buf token i = Some m \<Longrightarrow> i < length buf"
  by (cases "i < length buf") (auto simp: sentinel_at_def Let_def)

lemma sentinel_loop_first: "sentinel_loop buf token 0 = first_sentinel buf token"
proof -
  let ?P = "\<lambda>i. sentinel_at buf token i \<noteq> None"
  show ?thesis using sentinel_loop_at [of 0 buf token]
  proof (elim disjE exE conjE)
    assume a: "\<forall>i\<ge>0. sentinel_at buf token i = None" "sentinel_loop buf token 0 = None"
    then have "find ?P [0..<length buf] = None" by (simp add: find_None_iff)
    with a(2) show ?thesis by (simp add: first_sentinel_def)
  next
    fix i assume i: "\<forall>j\<ge>0. j < i \<longrightarrow> sentinel_at buf token j = None" "sentinel_at buf token i \<noteq> None"
      "sentinel_loop buf token 0 = sentinel_at buf token i"
    then have "i < length buf" using sentinel_at_bound by auto
    with i have "find ?P [0..<length buf] = Some i"
      unfolding find_Some_iff by (intro exI [of _ i]) auto
    with i(3) show ?thesis by (simp add: first_sentinel_def)
  qed
qed

lemma MatchSentinel_Some_iff:
  "MatchSentinel buf token = Some m \<longleftrightarrow>
   (\<exists>i. sentinel_at buf token i = Some m \<and> (\<forall>j < i. sentinel_at buf token j = None))"
proof
  assume m: "MatchSentinel buf token = Some m"
  show "\<exists>i. sentinel_at buf token i = Some m \<and> (\<forall>j < i. sentinel_at buf token j = None)"
    using sentinel_loop_at [of 0 buf token] m by (auto simp: MatchSentinel_def)
next
  assume "\<exists>i. sentinel_at buf token i = Some m \<and> (\<forall>j < i. sentinel_at buf token j = None)"
  then obtain i where i: "sentinel_at buf token i = Some m" "\<forall>j < i. sentinel_at buf token j = None" by blast
  show "MatchSentinel buf token = Some m" using sentinel_loop_at [of 0 buf token]
  proof (elim disjE exE conjE)
    fix k assume k: "\<forall>j\<ge>0. j < k \<longrightarrow> sentinel_at buf token j = None" "sentinel_at buf token k \<noteq> None"
      "sentinel_loop buf token 0 = sentinel_at buf token k"
    have "k = i" using i k by (metis le0 linorder_neqE_nat option.distinct(1))
    with k(3) i(1) show ?thesis by (simp add: MatchSentinel_def)
  qed (use i(1) in auto)
qed

subsection \<open>More output\<close>

lemma has_prefix_more: "i + length p \<le> length buf \<Longrightarrow>
    has_prefix (drop i (buf @ later)) p \<longleftrightarrow> has_prefix (drop i buf) p"
  by (auto simp: has_prefix_def)

lemma digits_at_more:
  assumes "i \<le> q" "q < length buf" "\<not> is_digit (buf ! q)"
  shows "digits_at (buf @ later) i = digits_at buf i"
proof -
  have "drop i buf ! (q - i) \<in> set (drop i buf)" using assms(1,2) by (intro nth_mem) auto
  moreover have "drop i buf ! (q - i) = buf ! q" using assms(1,2) by simp
  ultimately have "\<exists>c \<in> set (drop i buf). \<not> is_digit c" using assms(3) by auto
  then show ?thesis using assms by (auto simp: digits_at_def takeWhile_append1)
qed

text \<open>Before a match that ends inside the buffer, more output changes nothing.\<close>

lemma sentinel_at_more:
  assumes "i + length (sentinel_prefix token) \<le> q" "q < length buf" "\<not> is_digit (buf ! q)"
  shows "sentinel_at (buf @ later) token i = sentinel_at buf token i"
  using assms has_prefix_more [of i "sentinel_prefix token" buf later]
    digits_at_more [OF assms, of later] by (simp add: sentinel_at_def Let_def)

lemma digits_at_stop:
  "i + length (digits_at buf i) < length buf \<Longrightarrow> \<not> is_digit (buf ! (i + length (digits_at buf i)))"
proof -
  assume "i + length (digits_at buf i) < length buf"
  then have l: "length (takeWhile is_digit (drop i buf)) < length (drop i buf)" by (simp add: digits_at_def)
  from nth_length_takeWhile [OF l] l show ?thesis by (simp add: digits_at_def)
qed

lemma prefix_last:
  assumes "has_prefix (drop i buf) (sentinel_prefix token)"
  shows "i + length (sentinel_prefix token) - 1 < length buf"
    "buf ! (i + length (sentinel_prefix token) - 1) = CHR '':''"
proof -
  let ?p = "sentinel_prefix token"
  from assms obtain t where t: "drop i buf = ?p @ t" by (auto simp: has_prefix_iff)
  then have "length buf - i = length ?p + length t" by (metis length_append length_drop)
  moreover have p: "0 < length ?p" by simp
  ultimately show l: "i + length ?p - 1 < length buf" by linarith
  have "i + length ?p - 1 = i + (length ?p - 1)" using p by linarith
  then have "buf ! (i + length ?p - 1) = drop i buf ! (length ?p - 1)" using l by (simp only: nth_drop)
  also have "\<dots> = ?p ! (length ?p - 1)" using p by (simp add: t nth_append)
  also have "\<dots> = CHR '':''" by (simp add: sentinel_prefix_def nth_append)
  finally show "buf ! (i + length ?p - 1) = CHR '':''" .
qed

lemma MatchSentinel_more:
  assumes "MatchSentinel buf token = Some m" and "sm_End m < length buf"
  shows "MatchSentinel (buf @ later) token = Some m"
proof -
  let ?p = "sentinel_prefix token"
  from assms(1) obtain i where i: "sentinel_at buf token i = Some m"
    "\<forall>j < i. sentinel_at buf token j = None" by (auto simp: MatchSentinel_Some_iff)
  then have pre: "has_prefix (drop i buf) ?p"
    and stop: "sm_End m = i + length ?p + length (digits_at buf (i + length ?p))"
    by (auto simp: sentinel_at_def Let_def split: if_splits)
  have "sentinel_at (buf @ later) token i = Some m"
    using i(1) sentinel_at_more [of i token "sm_End m" buf later] assms(2) stop
      digits_at_stop [of "i + length ?p" buf] by simp
  moreover have "sentinel_at (buf @ later) token j = None" if "j < i" for j
  proof -
    have "j + length ?p \<le> i + length ?p - 1" using that by simp
    moreover have "\<not> is_digit (CHR '':'')" by (simp add: is_digit_def byte_in_def)
    ultimately have "sentinel_at (buf @ later) token j = sentinel_at buf token j"
      using sentinel_at_more prefix_last [OF pre] by metis
    with i(2) that show ?thesis by simp
  qed
  ultimately show ?thesis by (auto simp: MatchSentinel_Some_iff)
qed

lemma digits_at_run:
  assumes "list_all is_digit ds" and "rest = [] \<or> \<not> is_digit (hd rest)"
  shows "digits_at (pre @ ds @ rest) (length pre) = ds"
  using assms by (cases rest) (auto simp: digits_at_def takeWhile_append list_all_iff)

lemma sentinel_at_run:
  assumes "list_all is_digit ds" "ds \<noteq> []" and "rest = [] \<or> \<not> is_digit (hd rest)"
    and "in_int64 (int (nat_of_digits ds))"
  shows "sentinel_at (pre @ sentinel_prefix token @ ds @ rest) token (length pre) =
    Some \<lparr>sm_Matched = sentinel_prefix token @ ds, sm_ExitCode = int (nat_of_digits ds),
          sm_End = length pre + length (sentinel_prefix token) + length ds\<rparr>"
  using assms digits_at_run [OF assms(1,3), of "pre @ sentinel_prefix token"]
  by (simp add: sentinel_at_def Let_def)

definition no_sentinel_before :: "bytes \<Rightarrow> string \<Rightarrow> nat \<Rightarrow> bool" where
  "no_sentinel_before buf token n \<longleftrightarrow> list_all (\<lambda>j. \<not> has_prefix (drop j buf) (sentinel_prefix token)) [0..<n]"

lemma MatchSentinel_run:
  assumes "list_all is_digit ds" "ds \<noteq> []" and "rest = [] \<or> \<not> is_digit (hd rest)"
    and "in_int64 (int (nat_of_digits ds))"
    and "no_sentinel_before (pre @ sentinel_prefix token @ ds @ rest) token (length pre)"
  shows "MatchSentinel (pre @ sentinel_prefix token @ ds @ rest) token =
    Some \<lparr>sm_Matched = sentinel_prefix token @ ds, sm_ExitCode = int (nat_of_digits ds),
          sm_End = length pre + length (sentinel_prefix token) + length ds\<rparr>"
proof -
  have "sentinel_at (pre @ sentinel_prefix token @ ds @ rest) token j = None" if "j < length pre" for j
    using assms(5) that by (auto simp: no_sentinel_before_def list_all_iff sentinel_at_def Let_def)
  with sentinel_at_run [OF assms(1-4), of pre token] show ?thesis by (auto simp: MatchSentinel_Some_iff)
qed

subsection \<open>Properties\<close>

text \<open>C32: the search loop of MatchSentinel is the plain scan: it terminates, it finds a
  sentinel exactly when some position of the buffer starts one whose exit code fits an
  int, and then it returns the first of them, the matched text, the code and the end.\<close>

theorem MatchSentinel_first: "MatchSentinel buf token = first_sentinel buf token"
  by (simp add: MatchSentinel_def sentinel_loop_first)

text \<open>C33: the command that prints a sentinel is answered with its exit code. Where the
  output before the sentinel has no earlier one and the byte after the digits is no digit,
  the whole literal and the number printed are returned, and output that arrives later
  does not change the answer.\<close>

theorem MatchSentinel_roundtrip:
  assumes "int n \<le> int64_max" and "\<not> is_digit c"
    and "no_sentinel_before (pre @ sentinel_prefix token @ nat_digits n @ [c]) token (length pre)"
  shows "map_option (\<lambda>m. (sm_Matched m, sm_ExitCode m))
      (MatchSentinel ((pre @ sentinel_prefix token @ nat_digits n @ [c]) @ later) token) =
    Some (''__DONE__:'' @ token @ '':'' @ itoa (int n), int n)"
proof -
  let ?buf = "pre @ sentinel_prefix token @ nat_digits n @ [c]"
  have "in_int64 (int (nat_of_digits (nat_digits n)))"
    using assms(1) by (simp add: in_int64_def int64_min_def)
  from MatchSentinel_run [OF nat_digits_all nat_digits_not_Nil _ this assms(3)] assms(2)
  have "MatchSentinel ?buf token = Some \<lparr>sm_Matched = sentinel_prefix token @ nat_digits n,
      sm_ExitCode = int n, sm_End = length pre + length (sentinel_prefix token) + length (nat_digits n)\<rparr>"
    by simp
  from MatchSentinel_more [OF this, of later] show ?thesis by (simp add: sentinel_prefix_def itoa_def)
qed

theorem MatchSentinel_roundtrip_witness:
  "map_option (\<lambda>m. (sm_Matched m, sm_ExitCode m))
     (MatchSentinel ((''$ make'' @ sentinel_prefix ''t'' @ nat_digits 42 @ [CHR 0x0A]) @ ''$ '') ''t'') =
   Some (''__DONE__:'' @ ''t'' @ '':'' @ itoa 42, 42)"
proof -
  have "no_sentinel_before (''$ make'' @ sentinel_prefix ''t'' @ nat_digits 42 @ [CHR 0x0A]) ''t'' (length ''$ make'')"
    by code_simp
  from MatchSentinel_roundtrip [OF _ _ this, of "''$ ''"] show ?thesis
    by (simp add: int64_max_def is_digit_def byte_in_def)
qed

text \<open>The exit code is taken from as many digits as have arrived. When the buffer ends
  inside the digits of the code, the truncated number is reported as the exit code, though
  the same output, a few bytes later, has another code.\<close>

lemma truncated_exit_code:
  assumes "list_all is_digit (ds @ es)" "ds \<noteq> []" and "in_int64 (int (nat_of_digits ds))"
    and "in_int64 (int (nat_of_digits (ds @ es)))"
    and "no_sentinel_before (pre @ sentinel_prefix token @ ds) token (length pre)"
    and "no_sentinel_before (pre @ sentinel_prefix token @ ds @ es) token (length pre)"
  shows "map_option sm_ExitCode (MatchSentinel (pre @ sentinel_prefix token @ ds) token) =
      Some (int (nat_of_digits ds)) \<and>
    map_option sm_ExitCode (MatchSentinel ((pre @ sentinel_prefix token @ ds) @ es) token) =
      Some (int (nat_of_digits (ds @ es)))"
  using MatchSentinel_run [of ds "[]" pre token] MatchSentinel_run [of "ds @ es" "[]" pre token] assms
  by simp

lemma truncated_exit_code_example:
  "map_option sm_ExitCode (MatchSentinel (''$'' @ sentinel_prefix ''t'' @ ''1'') ''t'') = Some 1 \<and>
   map_option sm_ExitCode (MatchSentinel ((''$'' @ sentinel_prefix ''t'' @ ''1'') @ ''27'') ''t'') = Some 127"
proof -
  have "no_sentinel_before (''$'' @ sentinel_prefix ''t'' @ ''1'') ''t'' (length ''$'')"
    "no_sentinel_before (''$'' @ sentinel_prefix ''t'' @ ''1'' @ ''27'') ''t'' (length ''$'')"
    "list_all is_digit (''1'' @ ''27'')" "nat_of_digits ''1'' = 1" "nat_of_digits (''1'' @ ''27'') = 127"
    by code_simp+
  with truncated_exit_code [of "''1''" "''27''" "''$''" "''t''"] show ?thesis
    by (simp add: in_int64_def int64_min_def int64_max_def del: append_Cons append_Nil)
qed

end
