(* ===== verification/Wait.thy ===== *)
theory Wait
  imports Controller Waiter
begin

section \<open>Wait: the wait command (internal/controller/wait.go)\<close>

text \<open>
  \<open>Wait\<close> runs beside the goroutine that drains the subscription and the handlers of other
  commands. Its program counter has one state per place where another goroutine can come
  between: before and between the critical sections of \<open>Read\<close>, before \<open>LastAppend\<close>, before
  the clock is read, before the token of a quiescence answer is minted, and in the two
  selects. The step relation interleaves the program's steps with any store operation of
  the others, the passing of time and the cancellation of the context. A select takes any
  ready case. A compiled regular expression is its function \<open>FindIndex\<close>.
\<close>

datatype WaitMode = WaitModeSentinel | WaitModeRegex | WaitModeQuiescence | WaitModeOther

record WaitRequest =
  wq_PaneID :: PaneID
  wq_After :: Token
  wq_Timeout :: duration
  wq_Mode :: WaitMode
  wq_SentinelToken :: string
  wq_QuietWindow :: duration
  wq_Regex :: "find_index option"

subsection \<open>Validation\<close>

definition validateSentinelToken :: "string \<Rightarrow> string option" where
  "validateSentinelToken t =
     (if t = [] then Some ''sentinel --token is required''
      else if contains_any t [CHR '':'', ch_nl]
        then Some (''sentinel --token must not contain '' @ [ch_apos] @ '':'' @ [ch_apos] @ '' or newline'')
      else None)"

definition invalid_args :: "PaneID \<Rightarrow> string \<Rightarrow> ErrorResponse" where
  "invalid_args pid msg = error_response pid ErrInvalidArgs msg"

definition wait_validate :: "WaitRequest \<Rightarrow> ErrorResponse option" where
  "wait_validate req =
     (let pid = wq_PaneID req in
      if wq_After req = []
        then Some (error_response pid ErrMissingAfter ''wait requires --after; use snapshot to bootstrap'')
      else if wq_Timeout req \<le> 0
        then Some (invalid_args pid ''wait requires a positive --timeout-ms'')
      else case wq_Mode req of
        WaitModeSentinel \<Rightarrow> map_option (invalid_args pid) (validateSentinelToken (wq_SentinelToken req))
      | WaitModeQuiescence \<Rightarrow>
          (if wq_QuietWindow req \<le> 0
             then Some (invalid_args pid ''quiescence mode requires a positive --ms'')
           else if wq_QuietWindow req \<ge> wq_Timeout req
             then Some (invalid_args pid (''quiescence requires --ms ('' @ itoa (wq_QuietWindow req div millisecond)
               @ ''ms) < --timeout-ms ('' @ itoa (wq_Timeout req div millisecond) @ ''ms)''))
           else None)
      | WaitModeRegex \<Rightarrow>
          (if wq_Regex req = None then Some (invalid_args pid ''regex mode requires a compiled --pattern'')
           else None)
      | WaitModeOther \<Rightarrow> Some (invalid_args pid ''unsupported --for mode''))"

lemma wait_validate_ok:
  "wait_validate req = None \<longleftrightarrow> wq_After req \<noteq> [] \<and> 0 < wq_Timeout req \<and>
     (case wq_Mode req of
        WaitModeSentinel \<Rightarrow> wq_SentinelToken req \<noteq> [] \<and> CHR '':'' \<notin> set (wq_SentinelToken req)
          \<and> ch_nl \<notin> set (wq_SentinelToken req)
      | WaitModeRegex \<Rightarrow> wq_Regex req \<noteq> None
      | WaitModeQuiescence \<Rightarrow> 0 < wq_QuietWindow req \<and> wq_QuietWindow req < wq_Timeout req
      | WaitModeOther \<Rightarrow> False)"
  by (auto simp: wait_validate_def validateSentinelToken_def contains_any_def Let_def split: WaitMode.split)

definition mapWaitStoreError :: "PaneID \<Rightarrow> go_error \<Rightarrow> ErrorResponse" where
  "mapWaitStoreError pid e =
     (if e = ErrPaneUnknown then pane_not_found pid
      else if e \<in> {ErrTokenMalformed, ErrTokenWrongInstance, ErrTokenWrongPane, ErrTokenEvicted}
        then invalid_after pid
      else invalid_args pid (error_string e))"

subsection \<open>The state\<close>

text \<open>\<open>WRead2\<close> keeps the store of the first critical section of \<open>Read\<close>; the flag is
  \<open>paneKnownAtStart\<close>.\<close>

datatype wait_pc =
    WRead bool
  | WRead2 bool Store
  | WQuietLast
  | WQuietSince instant
  | WQuietMint
  | WQuietBlock instant
  | WBlock
  | WDone "go_error + WaitResponse"

record wait_world =
  ww_store :: Store
  ww_now :: instant
  ww_cancelled :: bool
  ww_pc :: wait_pc

text \<open>What is fixed once the loop is entered.\<close>

record wait_env =
  we_req :: WaitRequest
  we_sig :: nat
  we_deadline :: instant
  we_checkpointAt :: instant

text \<open>\<open>time.Time{}\<close>, the first instant of year 1.\<close>

definition zero_time :: instant where "zero_time = - (62135596800 * second)"

definition wait_start :: "WaitRequest \<Rightarrow> instant \<Rightarrow> Store \<Rightarrow> ErrorResponse + wait_env \<times> wait_world" where
  "wait_start req now st =
     (case wait_validate req of
        Some e \<Rightarrow> Inl e
      | None \<Rightarrow>
          let (ch, st1) = Store_Watch (wq_PaneID req) st;
              at = (case Store_TokenTime (wq_After req) of Inl e \<Rightarrow> zero_time | Inr t \<Rightarrow> t)
          in Inr (\<lparr>we_req = req, we_sig = ch, we_deadline = now + wq_Timeout req, we_checkpointAt = at\<rparr>,
                  \<lparr>ww_store = st1, ww_now = now, ww_cancelled = False, ww_pc = WRead False\<rparr>))"

definition wait_read_error :: "PaneID \<Rightarrow> bool \<Rightarrow> go_error \<Rightarrow> go_error" where
  "wait_read_error pid known e =
     (if known \<and> e = ErrPaneUnknown
      then Command (error_response pid ErrPaneClosed ''pane was destroyed while wait was pending'')
      else Command (mapWaitStoreError pid e))"

definition wait_timed_out :: "PaneID \<Rightarrow> go_error" where
  "wait_timed_out pid = Command (error_response pid ErrTimeout ''wait timed out'')"

definition ctx_canceled :: go_error where "ctx_canceled = Runtime ''context canceled''"

text \<open>The evaluators on the bytes since the checkpoint: an answer, or none yet.\<close>

definition wait_match :: "WaitRequest \<Rightarrow> bytes \<Rightarrow> Token \<Rightarrow> WaitResponse option" where
  "wait_match req out tok =
     (case wq_Mode req of
        WaitModeSentinel \<Rightarrow>
          map_option (\<lambda>m. \<lparr>wr_pane_id = wq_PaneID req, wr_next = tok, wr_result = WaitSentinel,
                           wr_matched = Some (sm_Matched m), wr_exit_code = Some (sm_ExitCode m)\<rparr>)
            (MatchSentinel (StripANSIAndCR out) (wq_SentinelToken req))
      | WaitModeRegex \<Rightarrow>
          (case wq_Regex req of
             None \<Rightarrow> None
           | Some re \<Rightarrow>
               map_option (\<lambda>m. \<lparr>wr_pane_id = wq_PaneID req, wr_next = tok, wr_result = WaitRegex,
                                wr_matched = Some (rm_Matched m), wr_exit_code = None\<rparr>)
                 (MatchRegex (StripANSIAndCR out) re))
      | _ \<Rightarrow> None)"

definition after_read :: "wait_env \<Rightarrow> bool \<Rightarrow> go_error + bytes \<times> Token \<Rightarrow> wait_pc" where
  "after_read E known r =
     (case r of
        Inl e \<Rightarrow> WDone (Inl (wait_read_error (wq_PaneID (we_req E)) known e))
      | Inr (out, tok) \<Rightarrow>
          if wq_Mode (we_req E) = WaitModeQuiescence then WQuietLast
          else (case wait_match (we_req E) out tok of
                  Some resp \<Rightarrow> WDone (Inr resp)
                | None \<Rightarrow> WBlock))"

text \<open>The reference instant of the quiescence formula.\<close>

definition quiet_ref :: "wait_env \<Rightarrow> Store \<Rightarrow> instant" where
  "quiet_ref E st =
     (case Store_LastAppend (wq_PaneID (we_req E)) st of
        Some la \<Rightarrow> if la > we_checkpointAt E then la else we_checkpointAt E
      | None \<Rightarrow> we_checkpointAt E)"

definition after_since :: "wait_env \<Rightarrow> instant \<Rightarrow> instant \<Rightarrow> wait_pc" where
  "after_since E ref now =
     (let elapsed = now - ref; quiet = wq_QuietWindow (we_req E)
      in if elapsed \<ge> quiet then WQuietMint else WQuietBlock (now + (quiet - elapsed)))"

definition quiescence_response :: "wait_env \<Rightarrow> Token \<Rightarrow> WaitResponse" where
  "quiescence_response E tok =
     \<lparr>wr_pane_id = wq_PaneID (we_req E), wr_next = tok, wr_result = WaitQuiescence,
      wr_matched = None, wr_exit_code = None\<rparr>"

subsection \<open>The steps\<close>

text \<open>What the other goroutines may do to the store: anything but use this wait's channel.\<close>

definition others_op :: "nat \<Rightarrow> store_op \<Rightarrow> bool" where
  "others_op w op \<longleftrightarrow> op \<noteq> OpCancel w \<and> op \<noteq> OpRecv w"

inductive wait_step :: "wait_env \<Rightarrow> wait_world \<Rightarrow> wait_world \<Rightarrow> bool" for E where
  read_unknown: "ww_pc w = WRead known \<Longrightarrow> st_bufs (ww_store w) (wq_PaneID (we_req E)) = None \<Longrightarrow>
    wait_step E w (w\<lparr>ww_pc := WDone (Inl (wait_read_error (wq_PaneID (we_req E)) known ErrPaneUnknown))\<rparr>)"
| read_first: "ww_pc w = WRead known \<Longrightarrow> st_bufs (ww_store w) (wq_PaneID (we_req E)) \<noteq> None \<Longrightarrow>
    wait_step E w (w\<lparr>ww_pc := WRead2 known (ww_store w)\<rparr>)"
| read_second: "ww_pc w = WRead2 known s1 \<Longrightarrow>
    wait_step E w (w\<lparr>ww_pc := after_read E known
      (Store_Read (ww_now w) (wq_PaneID (we_req E)) (wq_After (we_req E)) s1 (ww_store w))\<rparr>)"
| quiet_last: "ww_pc w = WQuietLast \<Longrightarrow>
    wait_step E w (w\<lparr>ww_pc := WQuietSince (quiet_ref E (ww_store w))\<rparr>)"
| quiet_since: "ww_pc w = WQuietSince ref \<Longrightarrow>
    wait_step E w (w\<lparr>ww_pc := after_since E ref (ww_now w)\<rparr>)"
| quiet_mint: "ww_pc w = WQuietMint \<Longrightarrow>
    Store_NewToken (ww_now w) (wq_PaneID (we_req E)) (ww_store w) = Some (tok, st') \<Longrightarrow>
    wait_step E w (w\<lparr>ww_store := st', ww_pc := WDone (Inr (quiescence_response E tok))\<rparr>)"
| select_sig: "ww_pc w = WBlock \<or> ww_pc w = WQuietBlock q \<Longrightarrow> watch_ready (we_sig E) (ww_store w) \<Longrightarrow>
    wait_step E w (w\<lparr>ww_store := watch_recv (we_sig E) (ww_store w), ww_pc := WRead True\<rparr>)"
| select_quiet: "ww_pc w = WQuietBlock q \<Longrightarrow> q \<le> ww_now w \<Longrightarrow>
    wait_step E w (w\<lparr>ww_pc := WRead True\<rparr>)"
| select_timeout: "ww_pc w = WBlock \<or> ww_pc w = WQuietBlock q \<Longrightarrow> we_deadline E \<le> ww_now w \<Longrightarrow>
    wait_step E w (w\<lparr>ww_pc := WDone (Inl (wait_timed_out (wq_PaneID (we_req E))))\<rparr>)"
| select_ctx: "ww_pc w = WBlock \<or> ww_pc w = WQuietBlock q \<Longrightarrow> ww_cancelled w \<Longrightarrow>
    wait_step E w (w\<lparr>ww_pc := WDone (Inl ctx_canceled)\<rparr>)"
| others: "others_op (we_sig E) op \<Longrightarrow> store_step op (ww_store w) = Some st' \<Longrightarrow>
    wait_step E w (w\<lparr>ww_store := st'\<rparr>)"
| tick: "0 \<le> d \<Longrightarrow> wait_step E w (w\<lparr>ww_now := ww_now w + d\<rparr>)"
| ctx_done: "wait_step E w (w\<lparr>ww_cancelled := True\<rparr>)"

inductive_cases wait_stepE: "wait_step E w w'"

definition wait_run :: "wait_env \<Rightarrow> wait_world \<Rightarrow> wait_world \<Rightarrow> bool" where
  "wait_run E = (wait_step E)\<^sup>*\<^sup>*"

subsection \<open>The store under the other goroutines\<close>

lemma signal_watching:
  "(\<exists>x \<in> set (signal_watchers q ws). w_id x = w \<and> w_pane x = pid) \<longleftrightarrow> (\<exists>x \<in> set ws. w_id x = w \<and> w_pane x = pid)"
  by (induction ws) (auto simp: signal_watchers_def)

lemma watching_cong: "st_watchers s' = st_watchers s \<Longrightarrow> watching w pid s' = watching w pid s"
  by (simp add: watching_def)

lemma ready_cong: "st_watchers s' = st_watchers s \<Longrightarrow> watch_ready w s' = watch_ready w s"
  by (simp add: watch_ready_def)

text \<open>Signalled, the pane's stream untouched, or a stream that did not exist and is empty.\<close>

definition quiet_change :: "nat \<Rightarrow> PaneID \<Rightarrow> Store \<Rightarrow> Store \<Rightarrow> bool" where
  "quiet_change w pid s s' \<longleftrightarrow> watching w pid s' \<and> (watch_ready w s \<longrightarrow> watch_ready w s') \<and>
     (watch_ready w s' \<or> st_bufs s' pid = st_bufs s pid
        \<or> st_bufs s pid = None \<and> Store_LastAppend pid s' = None)"

lemma bufferLocked_quiet:
  assumes "bufferLocked q s = Some (b, s')" and "watching w pid s"
  shows "quiet_change w pid s s' \<and> st_watchers s' = st_watchers s"
proof -
  have ws: "st_watchers s' = st_watchers s"
    using assms(1) by (auto simp: bufferLocked_def split: option.splits)
  moreover have "st_bufs s' pid = st_bufs s pid \<or> st_bufs s pid = None \<and> Store_LastAppend pid s' = None"
    using assms(1) by (auto simp: bufferLocked_def Store_LastAppend_def NewBuffer_def Buffer_LastAppend_def
        split: option.splits if_splits)
  ultimately show ?thesis using assms(2) watching_cong [OF ws] ready_cong [OF ws] by (auto simp: quiet_change_def)
qed

lemma signalled_quiet:
  assumes "watching w pid s" and "st_watchers s' = signal_watchers q (st_watchers s)"
    and "q \<noteq> pid \<Longrightarrow> st_bufs s' pid = st_bufs s pid"
  shows "quiet_change w pid s s'"
proof -
  have "watching w pid s'"
    using assms(1,2) by (simp add: watching_def signal_watching)
  moreover have "watch_ready w s \<longrightarrow> watch_ready w s'"
    using assms(2) by (auto simp: watch_ready_def signal_ready)
  moreover have "q = pid \<longrightarrow> watch_ready w s'"
    using assms(1,2) by (auto simp: watch_ready_def watching_def signal_ready)
  ultimately show ?thesis using assms(3) by (auto simp: quiet_change_def)
qed

lemma others_quiet:
  assumes r: "store_rep s H" and w: "watching w pid s" and op: "others_op w op"
    and st: "store_step op s = Some s'"
  shows "quiet_change w pid s s'"
proof (cases op)
  case (OpEnsure q)
  with st obtain b where "bufferLocked q s = Some (b, s')"
    by (auto simp: Store_Ensure_def)
  with bufferLocked_quiet [OF _ w] show ?thesis by blast
next
  case (OpAppend now q p)
  show ?thesis
  proof (cases "p = []")
    case True
    with st OpAppend w show ?thesis by (simp add: Store_Append_def quiet_change_def)
  next
    case False
    with st OpAppend obtain b s1 where b: "bufferLocked q s = Some (b, s1)"
      "s' = s1\<lparr>st_bufs := (st_bufs s1)(q \<mapsto> Buffer_Append now p b), st_watchers := signal_watchers q (st_watchers s1)\<rparr>"
      by (auto simp: Store_Append_def split: option.splits)
    have "st_watchers s1 = st_watchers s" using bufferLocked_quiet [OF b(1) w] by simp
    moreover have "q \<noteq> pid \<Longrightarrow> st_bufs s1 pid = st_bufs s pid"
      using b(1) by (auto simp: bufferLocked_def split: option.splits)
    ultimately show ?thesis using b(2) by (intro signalled_quiet [OF w, of _ q]) auto
  qed
next
  case (OpForget q)
  with st have "s' = Store_Forget q s" by simp
  then show ?thesis by (intro signalled_quiet [OF w, of _ q]) (auto simp: Store_Forget_def)
next
  case (OpWatch q)
  with st have "s' = snd (Store_Watch q s)" by simp
  with w show ?thesis
    by (auto simp: quiet_change_def watching_def watch_ready_def Store_Watch_def)
next
  case (OpCancel v)
  with st op have s': "s' = Store_cancel v s" "v \<noteq> w" by (auto simp: others_op_def)
  have d: "distinct (map w_id (st_watchers s))" using r by (simp add: store_rep_def watchers_ok_def)
  show ?thesis using w s'(2) unfolding s'(1)
    by (auto simp: quiet_change_def watching_def watch_ready_def Store_cancel_def remove_watcher_set [OF d])
next
  case (OpRecv v)
  with st op have s': "s' = watch_recv v s" "v \<noteq> w" by (auto simp: others_op_def)
  show ?thesis using w s'(2) unfolding s'(1)
    by (auto simp: quiet_change_def watching_def watch_ready_def watch_recv_def)
next
  case (OpMint now q)
  with st obtain b where "bufferLocked q s = Some (b, s')"
    by (auto simp: Store_NewToken_def split: option.splits)
  with bufferLocked_quiet [OF _ w] show ?thesis by blast
qed

subsection \<open>Reading the current stream\<close>

text \<open>The bytes since the checkpoint as of now; they depend on the pane's buffer only.\<close>

definition wait_output :: "wait_env \<Rightarrow> Store \<Rightarrow> go_error + bytes" where
  "wait_output E st =
     (case Store_Read 0 (wq_PaneID (we_req E)) (wq_After (we_req E)) st st of
        Inl e \<Rightarrow> Inl e
      | Inr (out, _) \<Rightarrow> Inr out)"

lemma wait_output_cong:
  "st_bufs s' (wq_PaneID (we_req E)) = st_bufs s (wq_PaneID (we_req E)) \<Longrightarrow> st_instance s' = st_instance s \<Longrightarrow>
   wait_output E s' = wait_output E s"
  by (simp add: wait_output_def Store_Read_def split: sum.splits option.splits prod.splits)

lemma Store_Read_same:
  assumes "Store_Read now pid after s1 s2 = Inr x" and "st_instance s2 = st_instance s1"
  shows "Store_Read now pid after s2 s2 = Inr x"
  using assms by (auto simp: Store_Read_def split: sum.splits option.splits prod.splits if_splits)

lemma wait_output_read:
  assumes "Store_Read now (wq_PaneID (we_req E)) (wq_After (we_req E)) s1 s2 = Inr (out, tok)"
    and "st_instance s2 = st_instance s1"
  shows "wait_output E s2 = Inr out"
  using assms by (auto simp: wait_output_def Store_Read_def split: sum.splits option.splits prod.splits if_splits)

lemma Store_Read_fails:
  assumes "Store_Read now pid after s1 s2 = Inl e" and "st_bufs s1 pid \<noteq> None"
  shows "e = ErrPaneUnknown \<and> st_bufs s2 pid = None \<or>
    e \<in> {ErrTokenMalformed, ErrTokenWrongInstance, ErrTokenWrongPane, ErrTokenEvicted}"
  using assms by (auto simp: Store_Read_def decodeToken_def split: sum.splits option.splits prod.splits if_splits)

lemma wait_match_token: "wait_match req out tok = None \<longleftrightarrow> wait_match req out tok' = None"
  by (auto simp: wait_match_def split: WaitMode.splits option.splits)

definition matches :: "wait_env \<Rightarrow> bytes \<Rightarrow> bool" where
  "matches E out \<longleftrightarrow> wait_match (we_req E) out [] \<noteq> None"

lemma quiet_ref_cong:
  "Store_LastAppend (wq_PaneID (we_req E)) s' = Store_LastAppend (wq_PaneID (we_req E)) s \<Longrightarrow>
   quiet_ref E s' = quiet_ref E s"
  by (simp add: quiet_ref_def)

subsection \<open>The invariant of the loop\<close>

text \<open>
  In a select the wait is asleep on output it has seen: unless a signal is pending, the
  stream as it is now has no match, and the quiet timer is set from the pane's last output.
\<close>

fun pc_ok :: "string \<Rightarrow> wait_env \<Rightarrow> Store \<Rightarrow> wait_pc \<Rightarrow> bool" where
  "pc_ok inst E st (WRead2 known s1) \<longleftrightarrow> st_instance s1 = inst \<and> st_bufs s1 (wq_PaneID (we_req E)) \<noteq> None"
| "pc_ok inst E st WQuietLast \<longleftrightarrow> wq_Mode (we_req E) = WaitModeQuiescence"
| "pc_ok inst E st (WQuietSince ref) \<longleftrightarrow> wq_Mode (we_req E) = WaitModeQuiescence \<and>
     (watch_ready (we_sig E) st \<or> ref = quiet_ref E st)"
| "pc_ok inst E st WQuietMint \<longleftrightarrow> wq_Mode (we_req E) = WaitModeQuiescence"
| "pc_ok inst E st (WQuietBlock q) \<longleftrightarrow> wq_Mode (we_req E) = WaitModeQuiescence \<and>
     (watch_ready (we_sig E) st \<or> q = quiet_ref E st + wq_QuietWindow (we_req E))"
| "pc_ok inst E st WBlock \<longleftrightarrow> wq_Mode (we_req E) \<noteq> WaitModeQuiescence \<and>
     (watch_ready (we_sig E) st \<or> (\<exists>out. wait_output E st = Inr out \<and> \<not> matches E out))"
| "pc_ok inst E st _ \<longleftrightarrow> True"

definition wait_ok :: "string \<Rightarrow> wait_env \<Rightarrow> wait_world \<Rightarrow> bool" where
  "wait_ok inst E w \<longleftrightarrow> (\<exists>H. store_rep (ww_store w) H) \<and>
     watching (we_sig E) (wq_PaneID (we_req E)) (ww_store w) \<and> st_instance (ww_store w) = inst \<and>
     pc_ok inst E (ww_store w) (ww_pc w)"

lemma output_known: "wait_output E st = Inr out \<Longrightarrow> st_bufs st (wq_PaneID (we_req E)) \<noteq> None"
  by (cases "st_bufs st (wq_PaneID (we_req E))") (simp_all add: wait_output_def Store_Read_def)

lemma quiet_ref_quiet:
  assumes "quiet_change w (wq_PaneID (we_req E)) st st'" and "\<not> watch_ready w st'"
  shows "quiet_ref E st' = quiet_ref E st"
  using assms by (intro quiet_ref_cong) (auto simp: quiet_change_def Store_LastAppend_def)

lemma pc_ok_quiet:
  assumes p: "pc_ok inst E st pc" and i: "st_instance st = inst" "st_instance st' = inst"
    and q: "quiet_change (we_sig E) (wq_PaneID (we_req E)) st st'"
  shows "pc_ok inst E st' pc"
proof -
  have r: "watch_ready (we_sig E) st \<Longrightarrow> watch_ready (we_sig E) st'" using q by (simp add: quiet_change_def)
  show ?thesis
  proof (cases pc)
    case (WQuietSince ref)
    with p r quiet_ref_quiet [OF q] show ?thesis by (cases "watch_ready (we_sig E) st'") auto
  next
    case (WQuietBlock t)
    with p r quiet_ref_quiet [OF q] show ?thesis by (cases "watch_ready (we_sig E) st'") auto
  next
    case WBlock
    show ?thesis
    proof (cases "watch_ready (we_sig E) st'")
      case False
      with WBlock p r obtain out where out: "wait_output E st = Inr out" "\<not> matches E out" by auto
      have "st_bufs st' (wq_PaneID (we_req E)) = st_bufs st (wq_PaneID (we_req E))"
        using q False output_known [OF out(1)] by (auto simp: quiet_change_def)
      from wait_output_cong [OF this] i have "wait_output E st' = wait_output E st" by simp
      with WBlock p out show ?thesis by simp
    qed (use WBlock p in simp)
  qed (use p in auto)
qed

lemma pc_ok_after_read:
  assumes "st_instance s1 = inst" "st_bufs s1 (wq_PaneID (we_req E)) \<noteq> None" "st_instance st = inst"
  shows "pc_ok inst E st (after_read E known
    (Store_Read now (wq_PaneID (we_req E)) (wq_After (we_req E)) s1 st))"
proof (cases "Store_Read now (wq_PaneID (we_req E)) (wq_After (we_req E)) s1 st")
  case (Inr x)
  obtain out tok where x: "x = (out, tok)" by (cases x)
  have "wait_output E st = Inr out" using wait_output_read [of now E s1 st out tok] Inr x assms by simp
  moreover have "wait_match (we_req E) out tok = None \<Longrightarrow> \<not> matches E out"
    using wait_match_token by (auto simp: matches_def)
  ultimately show ?thesis using Inr x by (auto simp: after_read_def split: option.split)
qed (simp add: after_read_def)

lemma recv_watching:
  "(\<exists>x \<in> set (map (\<lambda>x. if w_id x = v then x\<lparr>w_pending := False\<rparr> else x) ws). w_id x = w \<and> w_pane x = pid)
   \<longleftrightarrow> (\<exists>x \<in> set ws. w_id x = w \<and> w_pane x = pid)"
  by (induction ws) auto

lemma watching_recv: "watching w pid (watch_recv v s) \<longleftrightarrow> watching w pid s"
proof -
  have "st_watchers (watch_recv v s) =
      map (\<lambda>x. if w_id x = v then x\<lparr>w_pending := False\<rparr> else x) (st_watchers s)"
    by (simp add: watch_recv_def)
  then show ?thesis unfolding watching_def by (simp only: recv_watching)
qed

lemma wait_ok_pc: "wait_ok inst E w \<Longrightarrow> pc_ok inst E (ww_store w) pc \<Longrightarrow> wait_ok inst E (w\<lparr>ww_pc := pc\<rparr>)"
  by (simp add: wait_ok_def)

lemma wait_ok_step:
  assumes ok: "wait_ok inst E w" and st: "wait_step E w w'"
  shows "wait_ok inst E w'"
  using st
proof (cases rule: wait_step.cases)
  case (read_unknown known)
  with ok show ?thesis by (auto intro: wait_ok_pc)
next
  case (read_first known)
  with ok show ?thesis by (auto simp: wait_ok_def)
next
  case (read_second known s1)
  then have "pc_ok inst E (ww_store w) (after_read E known
      (Store_Read (ww_now w) (wq_PaneID (we_req E)) (wq_After (we_req E)) s1 (ww_store w)))"
    using ok by (intro pc_ok_after_read) (auto simp: wait_ok_def)
  with read_second ok show ?thesis by (auto intro: wait_ok_pc)
next
  case quiet_last
  with ok show ?thesis by (auto simp: wait_ok_def)
next
  case (quiet_since ref)
  with ok show ?thesis by (auto simp: wait_ok_def after_since_def Let_def)
next
  case (quiet_mint tok st')
  from ok obtain H where H: "store_rep (ww_store w) H" by (auto simp: wait_ok_def)
  from Store_NewToken_rep [OF H, of "ww_now w" "wq_PaneID (we_req E)"] quiet_mint(3)
  have "store_rep st' (touched (wq_PaneID (we_req E)) H)" "st_instance st' = st_instance (ww_store w)"
    "st_watchers st' = st_watchers (ww_store w)" by auto
  with quiet_mint ok watching_cong [of st' "ww_store w"] show ?thesis by (auto simp: wait_ok_def)
next
  case (select_sig q)
  from ok obtain H where "store_rep (ww_store w) H" by (auto simp: wait_ok_def)
  then have "store_rep (watch_recv (we_sig E) (ww_store w)) H" by (rule watch_recv_rep)
  moreover have "watching (we_sig E) (wq_PaneID (we_req E)) (watch_recv (we_sig E) (ww_store w))"
    using ok by (simp add: wait_ok_def watching_recv)
  ultimately show ?thesis using select_sig ok by (auto simp: wait_ok_def)
next
  case (others op st')
  from ok obtain H where H: "store_rep (ww_store w) H" by (auto simp: wait_ok_def)
  have wt: "watching (we_sig E) (wq_PaneID (we_req E)) (ww_store w)" using ok by (simp add: wait_ok_def)
  have q: "quiet_change (we_sig E) (wq_PaneID (we_req E)) (ww_store w) st'"
    by (rule others_quiet [OF H wt others(2,3)])
  obtain st2 where "store_step op (ww_store w) = Some st2" "store_rep st2 (abs_step op H)"
    "st_instance st2 = st_instance (ww_store w)" using store_step_rep [OF H] .
  with others(3) have s: "\<exists>H'. store_rep st' H'" "st_instance st' = st_instance (ww_store w)" by auto
  have i: "st_instance (ww_store w) = inst" "pc_ok inst E (ww_store w) (ww_pc w)"
    using ok by (simp_all add: wait_ok_def)
  have i': "st_instance st' = inst" using s(2) i(1) by (rule trans)
  have p: "pc_ok inst E st' (ww_pc w)" by (rule pc_ok_quiet [OF i(2,1) i' q])
  have "watching (we_sig E) (wq_PaneID (we_req E)) st'" using q unfolding quiet_change_def by (rule conjunct1)
  with s(1) i' p show ?thesis unfolding others(1) wait_ok_def by simp
qed (use ok in \<open>auto simp: wait_ok_def\<close>)

lemma wait_ok_run:
  assumes "wait_run E w0 w" and "wait_ok inst E w0"
  shows "wait_ok inst E w"
  using assms(1) unfolding wait_run_def
proof (induction rule: rtranclp_induct)
  case base
  show ?case by (rule assms(2))
next
  case (step w w')
  from wait_ok_step [OF step.IH step.hyps(2)] show ?case .
qed

lemma wait_ok_start:
  assumes "wait_start req now st = Inr (E, w0)" and "store_rep st H"
  shows "wait_ok (st_instance st) E w0" and "ww_pc w0 = WRead False" and "we_req E = req"
    and "we_deadline E = now + wq_Timeout req" and "ww_now w0 = now"
    and "st_bufs (ww_store w0) = st_bufs st"
proof -
  from assms(1) have e: "E = \<lparr>we_req = req, we_sig = fst (Store_Watch (wq_PaneID req) st),
      we_deadline = now + wq_Timeout req,
      we_checkpointAt = (case Store_TokenTime (wq_After req) of Inl e \<Rightarrow> zero_time | Inr t \<Rightarrow> t)\<rparr>"
    "w0 = \<lparr>ww_store = snd (Store_Watch (wq_PaneID req) st), ww_now = now, ww_cancelled = False, ww_pc = WRead False\<rparr>"
    by (auto simp: wait_start_def case_prod_beta split: option.splits)
  show "ww_pc w0 = WRead False" "we_req E = req" "we_deadline E = now + wq_Timeout req" "ww_now w0 = now"
    "st_bufs (ww_store w0) = st_bufs st"
    by (simp_all add: e)
  have "watching (we_sig E) (wq_PaneID req) (ww_store w0)"
    by (simp add: e watching_def Store_Watch_def)
  moreover have "store_rep (ww_store w0) H" by (simp add: e Store_Watch_rep [OF assms(2)])
  ultimately show "wait_ok (st_instance st) E w0" by (auto simp: wait_ok_def e)
qed

end
