(* ===== verification/WaitOutcome.thy ===== *)
theory WaitOutcome
  imports Wait
begin

section \<open>WaitOutcome: how a wait ends (internal/controller/wait.go)\<close>

text \<open>
  What justifies the outcome of a wait, that an outcome can always be reached, and the runs
  on concrete streams that show which outcomes there are.
\<close>

subsection \<open>Why an outcome was given\<close>

text \<open>Between the start and now the wait went through a world with \<open>P\<close>.\<close>

definition passed :: "wait_env \<Rightarrow> wait_world \<Rightarrow> wait_world \<Rightarrow> (wait_world \<Rightarrow> bool) \<Rightarrow> bool" where
  "passed E w0 w P \<longleftrightarrow> (\<exists>w1. wait_run E w0 w1 \<and> wait_run E w1 w \<and> P w1)"

definition pane_known :: "wait_env \<Rightarrow> wait_world \<Rightarrow> bool" where
  "pane_known E w \<longleftrightarrow> st_bufs (ww_store w) (wq_PaneID (we_req E)) \<noteq> None"

definition reads_now :: "wait_env \<Rightarrow> wait_world \<Rightarrow> go_error + bytes \<times> Token" where
  "reads_now E w = Store_Read (ww_now w) (wq_PaneID (we_req E)) (wq_After (we_req E)) (ww_store w) (ww_store w)"

definition token_errors :: "go_error set" where
  "token_errors = {ErrTokenMalformed, ErrTokenWrongInstance, ErrTokenWrongPane, ErrTokenEvicted}"

text \<open>The quiet window was over at \<open>w2\<close>, as far as the last output known at \<open>w1\<close> tells.\<close>

definition quiet_seen :: "wait_env \<Rightarrow> wait_world \<Rightarrow> wait_world \<Rightarrow> bool" where
  "quiet_seen E w0 w \<longleftrightarrow> passed E w0 w (\<lambda>w2. passed E w0 w2 (\<lambda>w1.
     quiet_ref E (ww_store w1) + wq_QuietWindow (we_req E) \<le> ww_now w2))"

fun wait_reason :: "wait_env \<Rightarrow> wait_world \<Rightarrow> wait_world \<Rightarrow> wait_pc \<Rightarrow> bool" where
  "wait_reason E w0 w (WRead known) \<longleftrightarrow> (known \<longrightarrow> passed E w0 w (pane_known E))"
| "wait_reason E w0 w (WRead2 known s1) \<longleftrightarrow> (known \<longrightarrow> passed E w0 w (pane_known E))"
| "wait_reason E w0 w WQuietLast \<longleftrightarrow> passed E w0 w (pane_known E)"
| "wait_reason E w0 w (WQuietSince ref) \<longleftrightarrow> passed E w0 w (pane_known E) \<and>
     passed E w0 w (\<lambda>w1. ref = quiet_ref E (ww_store w1))"
| "wait_reason E w0 w WQuietMint \<longleftrightarrow> quiet_seen E w0 w"
| "wait_reason E w0 w (WQuietBlock q) \<longleftrightarrow> passed E w0 w (pane_known E)"
| "wait_reason E w0 w WBlock \<longleftrightarrow> passed E w0 w (pane_known E)"
| "wait_reason E w0 w (WDone (Inr r)) \<longleftrightarrow>
     (if wq_Mode (we_req E) = WaitModeQuiescence
      then quiet_seen E w0 w \<and> (\<exists>tok. r = quiescence_response E tok)
      else passed E w0 w (\<lambda>w1. \<exists>out tok. reads_now E w1 = Inr (out, tok) \<and> wait_match (we_req E) out tok = Some r))"
| "wait_reason E w0 w (WDone (Inl e)) \<longleftrightarrow>
     e = ctx_canceled \<and> ww_cancelled w \<or>
     e = wait_timed_out (wq_PaneID (we_req E)) \<and> we_deadline E \<le> ww_now w \<or>
     e = Command (error_response (wq_PaneID (we_req E)) ErrPaneClosed ''pane was destroyed while wait was pending'') \<and>
       passed E w0 w (\<lambda>w2. passed E w0 w2 (pane_known E) \<and> \<not> pane_known E w2) \<or>
     e = Command (pane_not_found (wq_PaneID (we_req E))) \<and> passed E w0 w (\<lambda>w1. \<not> pane_known E w1) \<or>
     e = Command (invalid_after (wq_PaneID (we_req E))) \<and>
       passed E w0 w (\<lambda>w1. \<exists>s1 err. st_instance s1 = st_instance (ww_store w1) \<and> err \<in> token_errors \<and>
         Store_Read (ww_now w1) (wq_PaneID (we_req E)) (wq_After (we_req E)) s1 (ww_store w1) = Inl err)"

lemma run_refl: "wait_run E w w"
  by (simp add: wait_run_def)

lemma run_step: "wait_run E w0 w \<Longrightarrow> wait_step E w w' \<Longrightarrow> wait_run E w0 w'"
  by (simp add: wait_run_def)

lemma passed_here: "wait_run E w0 w \<Longrightarrow> P w \<Longrightarrow> passed E w0 w P"
  using run_refl by (auto simp: passed_def)

lemma passed_later: "passed E w0 w P \<Longrightarrow> wait_step E w w' \<Longrightarrow> passed E w0 w' P"
  using run_step by (auto simp: passed_def)

lemma passed_mono: "passed E w0 w P \<Longrightarrow> (\<And>w1. P w1 \<Longrightarrow> Q w1) \<Longrightarrow> passed E w0 w Q"
  by (auto simp: passed_def)

lemma quiet_later: "quiet_seen E w0 w \<Longrightarrow> wait_step E w w' \<Longrightarrow> quiet_seen E w0 w'"
  unfolding quiet_seen_def by (rule passed_later)

lemma reason_later:
  assumes "wait_reason E w0 w pc" and "wait_step E w w'"
    and "ww_now w \<le> ww_now w'" and "ww_cancelled w \<longrightarrow> ww_cancelled w'"
  shows "wait_reason E w0 w' pc"
  using assms(1,3,4) passed_later [OF _ assms(2)] quiet_later [OF _ assms(2)]
  by (cases "(E, w0, w, pc)" rule: wait_reason.cases) auto

lemma read_error_cases:
  assumes "e = ErrPaneUnknown \<or> e \<in> token_errors"
  shows "wait_read_error pid known e =
    (if e = ErrPaneUnknown
     then Command (if known then error_response pid ErrPaneClosed ''pane was destroyed while wait was pending''
                   else pane_not_found pid)
     else Command (invalid_after pid))"
  using assms by (auto simp: wait_read_error_def mapWaitStoreError_def token_errors_def)

text \<open>The answer of a read at \<open>w\<close>, as seen from the next world.\<close>

lemma reason_after_read:
  assumes run: "wait_run E w0 w" and st: "wait_step E w w'" and later: "ww_now w \<le> ww_now w'" "ww_cancelled w \<longrightarrow> ww_cancelled w'"
    and s1: "st_instance s1 = st_instance (ww_store w)" "st_bufs s1 (wq_PaneID (we_req E)) \<noteq> None"
    and known: "known \<longrightarrow> passed E w0 w (pane_known E)"
  shows "wait_reason E w0 w' (after_read E known
    (Store_Read (ww_now w) (wq_PaneID (we_req E)) (wq_After (we_req E)) s1 (ww_store w)))"
    (is "wait_reason E w0 w' (after_read E known ?r)")
proof -
  have "wait_reason E w0 w (after_read E known ?r)"
  proof (cases ?r)
    case (Inl e)
    then have e: "e = ErrPaneUnknown \<and> \<not> pane_known E w \<or> e \<in> token_errors"
      using Store_Read_fails [OF Inl s1(2)] by (simp add: pane_known_def token_errors_def)
    show ?thesis
    proof (cases "e \<in> token_errors")
      case True
      then have "wait_read_error (wq_PaneID (we_req E)) known e = Command (invalid_after (wq_PaneID (we_req E)))"
        using read_error_cases [of e] by (auto simp: token_errors_def)
      moreover have "passed E w0 w (\<lambda>w1. \<exists>s1 err. st_instance s1 = st_instance (ww_store w1) \<and> err \<in> token_errors \<and>
         Store_Read (ww_now w1) (wq_PaneID (we_req E)) (wq_After (we_req E)) s1 (ww_store w1) = Inl err)"
        using Inl True s1(1) by (intro passed_here [OF run]) blast
      ultimately show ?thesis using Inl by (simp add: after_read_def)
    next
      case False
      with e have u: "e = ErrPaneUnknown" "\<not> pane_known E w" by auto
      have "passed E w0 w (\<lambda>w1. \<not> pane_known E w1)"
        using u(2) by (intro passed_here [OF run])
      moreover have "known \<longrightarrow> passed E w0 w (\<lambda>w2. passed E w0 w2 (pane_known E) \<and> \<not> pane_known E w2)"
        using known u(2) by (auto intro: passed_here [OF run])
      ultimately show ?thesis using Inl u(1) read_error_cases [of e] by (simp add: after_read_def)
    qed
  next
    case (Inr x)
    obtain out tok where x: "x = (out, tok)" by (cases x)
    have s: "reads_now E w = Inr (out, tok)"
      using Store_Read_same [OF Inr [unfolded x]] s1(1) by (simp add: reads_now_def)
    then have "pane_known E w"
      by (cases "st_bufs (ww_store w) (wq_PaneID (we_req E))")
        (simp_all add: reads_now_def pane_known_def Store_Read_def)
    then have k: "passed E w0 w (pane_known E)" by (rule passed_here [OF run])
    have m: "wait_match (we_req E) out tok = Some r \<Longrightarrow> passed E w0 w (\<lambda>w1. \<exists>out tok.
        reads_now E w1 = Inr (out, tok) \<and> wait_match (we_req E) out tok = Some r)" for r
      using s by (intro passed_here [OF run]) blast
    show ?thesis using Inr x k m by (auto simp: after_read_def split: option.split)
  qed
  then show ?thesis by (rule reason_later [OF _ st later])
qed

lemma wait_step_mono: "wait_step E w w' \<Longrightarrow> ww_now w \<le> ww_now w' \<and> (ww_cancelled w \<longrightarrow> ww_cancelled w')"
  by (auto elim!: wait_stepE)

lemma wait_reason_step:
  assumes run: "wait_run E w0 w" and ok: "wait_ok inst E w" and h: "wait_reason E w0 w (ww_pc w)"
    and st: "wait_step E w w'"
  shows "wait_reason E w0 w' (ww_pc w')"
proof -
  have later: "ww_now w \<le> ww_now w'" "ww_cancelled w \<longrightarrow> ww_cancelled w'" using wait_step_mono [OF st] by auto
  have here: "passed E w0 w' P" if "P w" for P
    using passed_later [OF passed_here [of E w0 w P, OF run that] st] .
  have pl: "passed E w0 w P \<Longrightarrow> passed E w0 w' P" for P using passed_later [OF _ st] .
  show ?thesis using st
  proof (cases rule: wait_step.cases)
    case (read_unknown known)
    then have nk: "\<not> pane_known E w" by (simp add: pane_known_def)
    have "passed E w0 w (\<lambda>w2. passed E w0 w2 (pane_known E) \<and> \<not> pane_known E w2)" if known
      using h that read_unknown(2) nk by (auto intro: passed_here [OF run])
    then show ?thesis using read_unknown(1) pl here [of "\<lambda>w1. \<not> pane_known E w1", OF nk]
      read_error_cases [of ErrPaneUnknown] by auto
  next
    case (read_first known)
    with h pl show ?thesis by auto
  next
    case (read_second known s1)
    have "wait_reason E w0 w' (after_read E known
        (Store_Read (ww_now w) (wq_PaneID (we_req E)) (wq_After (we_req E)) s1 (ww_store w)))"
      by (rule reason_after_read [OF run st later]) (use ok h read_second(2) in \<open>auto simp: wait_ok_def\<close>)
    with read_second(1) show ?thesis by simp
  next
    case quiet_last
    with h pl here [of "\<lambda>w1. quiet_ref E (ww_store w) = quiet_ref E (ww_store w1)"] show ?thesis by auto
  next
    case (quiet_since ref)
    then have p: "passed E w0 w (pane_known E)" "passed E w0 w (\<lambda>w1. ref = quiet_ref E (ww_store w1))"
      using h by auto
    have "quiet_seen E w0 w'" if "wq_QuietWindow (we_req E) \<le> ww_now w - ref"
      unfolding quiet_seen_def
      by (rule here, rule passed_mono [OF p(2)]) (use that in auto)
    then show ?thesis using quiet_since(1) pl [OF p(1)] by (auto simp: after_since_def Let_def)
  next
    case (quiet_mint tok st')
    then show ?thesis using h ok quiet_later [OF _ st] by (auto simp: wait_ok_def)
  next
    case (select_sig q)
    with h pl show ?thesis by auto
  next
    case (select_quiet q)
    with h pl show ?thesis by auto
  next
    case (others op st')
    with reason_later [OF h st later] show ?thesis by simp
  next
    case (tick d)
    with reason_later [OF h st later] show ?thesis by simp
  next
    case ctx_done
    with reason_later [OF h st later] show ?thesis by simp
  qed auto
qed

lemma wait_reason_run:
  assumes "wait_run E w0 w" and "wait_ok inst E w0" and "ww_pc w0 = WRead False"
  shows "wait_reason E w0 w (ww_pc w)"
  using assms(1) unfolding wait_run_def
proof (induction rule: rtranclp_induct)
  case base
  show ?case by (simp add: assms(3))
next
  case (step w w')
  have run: "wait_run E w0 w" using step.hyps(1) by (simp add: wait_run_def)
  show ?case by (rule wait_reason_step [OF run wait_ok_run [OF run assms(2)] step.IH step.hyps(2)])
qed

subsection \<open>Reaching an outcome\<close>

definition finishes :: "wait_env \<Rightarrow> wait_world \<Rightarrow> bool" where
  "finishes E w \<longleftrightarrow> (\<exists>w' res. wait_run E w w' \<and> ww_pc w' = WDone res)"

lemma finish_step: "wait_step E w w' \<Longrightarrow> finishes E w' \<Longrightarrow> finishes E w"
  unfolding finishes_def wait_run_def by (meson converse_rtranclp_into_rtranclp)

lemma finish_done: "ww_pc w = WDone res \<Longrightarrow> finishes E w"
  unfolding finishes_def using run_refl by blast

lemma after_since_cases: "after_since E ref now = WQuietMint \<or> (\<exists>q. after_since E ref now = WQuietBlock q)"
  by (simp add: after_since_def Let_def)

lemma after_read_cases:
  "(\<exists>res. after_read E known r = WDone res) \<or> after_read E known r = WQuietLast \<or> after_read E known r = WBlock"
proof (cases r)
  case (Inr x)
  then show ?thesis
    by (cases x; cases "wq_Mode (we_req E) = WaitModeQuiescence"; cases "wait_match (we_req E) (fst x) (snd x)")
      (simp_all add: after_read_def)
qed (simp add: after_read_def)

text \<open>
  A step of the goroutine of the wait itself: these are the ones that move its program
  counter. Each lowers the rank, since nobody else raises a signal and the clock stands;
  a signal that waits and a quiet timer that has fired are each good for one more pass.
\<close>

definition wait_acts :: "wait_env \<Rightarrow> wait_world \<Rightarrow> wait_world \<Rightarrow> bool" where
  "wait_acts E w w' \<longleftrightarrow> wait_step E w w' \<and> ww_pc w' \<noteq> ww_pc w"

fun wait_rank :: "instant \<Rightarrow> nat \<Rightarrow> wait_pc \<Rightarrow> nat" where
  "wait_rank now s (WRead known) = 5 + s"
| "wait_rank now s (WRead2 known s1) = 4 + s"
| "wait_rank now s WQuietLast = 3 + s"
| "wait_rank now s (WQuietSince ref) = 2 + s"
| "wait_rank now s WQuietMint = 1"
| "wait_rank now s (WQuietBlock q) = (if q \<le> now then 6 + s else 1 + s)"
| "wait_rank now s WBlock = 1 + s"
| "wait_rank now s (WDone res) = 0"

definition acts_left :: "wait_env \<Rightarrow> wait_world \<Rightarrow> nat" where
  "acts_left E w = wait_rank (ww_now w) (if watch_ready (we_sig E) (ww_store w) then 5 else 0) (ww_pc w)"

lemma acts_left_bound: "acts_left E w \<le> 11"
  by (cases "ww_pc w") (simp_all add: acts_left_def)

lemma recv_not_ready [simp]: "\<not> watch_ready v (watch_recv v s)"
  by (simp add: watch_ready_def watch_recv_def ball_Un)

lemma acts_left_less:
  assumes "wait_acts E w w'"
  shows "acts_left E w' < acts_left E w \<and> ww_now w' = ww_now w \<and> ww_cancelled w' = ww_cancelled w"
proof -
  from assms have "wait_step E w w'" and moved: "ww_pc w' \<noteq> ww_pc w" by (simp_all add: wait_acts_def)
  then show ?thesis
  proof (cases rule: wait_step.cases)
    case (read_second known s1)
    then show ?thesis
      using after_read_cases [of E known "Store_Read (ww_now w) (wq_PaneID (we_req E)) (wq_After (we_req E)) s1 (ww_store w)"]
      by (auto simp: acts_left_def)
  next
    case (quiet_since ref)
    then show ?thesis by (simp add: acts_left_def after_since_def Let_def)
  next
    case (select_sig q)
    then show ?thesis by (auto simp: acts_left_def)
  next
    case (select_timeout q)
    then show ?thesis by (elim disjE) (simp_all add: acts_left_def)
  next
    case (select_ctx q)
    then show ?thesis by (elim disjE) (simp_all add: acts_left_def)
  qed (use moved in \<open>simp_all add: acts_left_def\<close>)
qed

lemma acts_run:
  assumes "(wait_acts E ^^ n) w w'"
  shows "n + acts_left E w' \<le> acts_left E w \<and> wait_run E w w' \<and> ww_now w' = ww_now w \<and>
    ww_cancelled w' = ww_cancelled w"
  using assms
proof (induction n arbitrary: w')
  case 0
  then show ?case by (simp add: run_refl)
next
  case (Suc n)
  then obtain w1 where w1: "(wait_acts E ^^ n) w w1" "wait_acts E w1 w'" by auto
  from acts_left_less [OF w1(2)] Suc.IH [OF w1(1)] run_step [of E w w1 w'] w1(2) show ?case
    by (auto simp: wait_acts_def)
qed

text \<open>Where its goroutine cannot move, a wait is over or in a select with nothing ready.\<close>

definition asleep :: "wait_env \<Rightarrow> wait_world \<Rightarrow> bool" where
  "asleep E w \<longleftrightarrow> (ww_pc w = WBlock \<or> (\<exists>q. ww_pc w = WQuietBlock q \<and> ww_now w < q)) \<and>
     \<not> watch_ready (we_sig E) (ww_store w) \<and> ww_now w < we_deadline E \<and> \<not> ww_cancelled w"

lemma acts_progress:
  assumes "store_rep (ww_store w) H" and "\<nexists>w'. wait_acts E w w'"
  shows "(\<exists>res. ww_pc w = WDone res) \<or> asleep E w"
proof -
  have stuck: "ww_pc w' = ww_pc w" if "wait_step E w w'" for w'
    using assms(2) that by (auto simp: wait_acts_def)
  have select: "\<not> watch_ready (we_sig E) (ww_store w) \<and> ww_now w < we_deadline E \<and> \<not> ww_cancelled w"
    if "ww_pc w = WBlock \<or> ww_pc w = WQuietBlock q" for q
    using that stuck [OF select_sig [OF that]] stuck [OF select_timeout [OF that]] stuck [OF select_ctx [OF that]]
    by (auto simp: not_le [symmetric])
  show ?thesis
  proof (cases "ww_pc w")
    case (WRead known)
    then show ?thesis using stuck [OF read_unknown [OF WRead]] stuck [OF read_first [OF WRead]] by auto
  next
    case (WRead2 known s1)
    then show ?thesis
      using stuck [OF read_second [OF WRead2]] after_read_cases [of E known
        "Store_Read (ww_now w) (wq_PaneID (we_req E)) (wq_After (we_req E)) s1 (ww_store w)"] by auto
  next
    case WQuietLast
    then show ?thesis using stuck [OF quiet_last [OF WQuietLast]] by simp
  next
    case (WQuietSince ref)
    then show ?thesis using stuck [OF quiet_since [OF WQuietSince]] after_since_cases [of E ref "ww_now w"] by auto
  next
    case WQuietMint
    obtain st' where "Store_NewToken (ww_now w) (wq_PaneID (we_req E)) (ww_store w) =
        Some (encodeToken (st_instance (ww_store w)) (wq_PaneID (we_req E))
          (int (length (known_stream H (wq_PaneID (we_req E))))) (ww_now w), st')"
      using Store_NewToken_rep [OF assms(1)] .
    from stuck [OF quiet_mint [OF WQuietMint this]] WQuietMint show ?thesis by simp
  next
    case (WQuietBlock q)
    then show ?thesis using select stuck [OF select_quiet [OF WQuietBlock]] by (auto simp: asleep_def not_le [symmetric])
  next
    case WBlock
    then show ?thesis using select by (simp add: asleep_def)
  qed simp
qed

lemma finish_any:
  assumes "wait_ok inst E w" and "we_deadline E \<le> ww_now w"
  shows "finishes E w"
  using assms
proof (induction "acts_left E w" arbitrary: w rule: less_induct)
  case less
  show ?case
  proof (cases "\<exists>w'. wait_acts E w w'")
    case True
    then obtain w' where w': "wait_acts E w w'" by blast
    then have st: "wait_step E w w'" by (simp add: wait_acts_def)
    show ?thesis
      using less.hyps [of w'] acts_left_less [OF w'] wait_ok_step [OF less.prems(1) st] less.prems(2) finish_step [OF st] by simp
  next
    case False
    from less.prems obtain H where "store_rep (ww_store w) H" by (auto simp: wait_ok_def)
    from acts_progress [OF this False] less.prems(2) show ?thesis by (auto simp: asleep_def intro: finish_done)
  qed
qed

text \<open>A step the wait takes itself, or of the clock or its context: not one of the others.\<close>

definition own_step :: "wait_env \<Rightarrow> wait_world \<Rightarrow> wait_world \<Rightarrow> bool" where
  "own_step E w w' \<longleftrightarrow> wait_step E w w' \<and> (ww_pc w' = ww_pc w \<longrightarrow> ww_store w' = ww_store w)"

definition own_run :: "wait_env \<Rightarrow> wait_world \<Rightarrow> wait_world \<Rightarrow> bool" where
  "own_run E = (own_step E)\<^sup>*\<^sup>*"

lemma own_run_refl: "own_run E w w"
  by (simp add: own_run_def)

lemma own_run_step: "own_run E w0 w \<Longrightarrow> wait_step E w w' \<Longrightarrow> ww_pc w' \<noteq> ww_pc w \<Longrightarrow> own_run E w0 w'"
  unfolding own_run_def by (erule rtranclp.rtrancl_into_rtrancl) (simp add: own_step_def)

lemma own_run_wait: "own_run E w w' \<Longrightarrow> wait_run E w w'"
  unfolding own_run_def wait_run_def by (rule rtranclp_mono [THEN predicate2D]) (auto simp: own_step_def)

text \<open>A read of the store as it is, in the two critical sections one after the other.\<close>

lemma read_alone:
  assumes "ww_pc w = WRead known" and "st_bufs (ww_store w) (wq_PaneID (we_req E)) \<noteq> None"
  shows "own_run E w (w\<lparr>ww_pc := after_read E known (reads_now E w)\<rparr>)"
proof -
  let ?w1 = "w\<lparr>ww_pc := WRead2 known (ww_store w)\<rparr>"
  have "wait_step E w ?w1" by (rule read_first [OF assms])
  from own_run_step [OF own_run_refl this] assms(1) have r1: "own_run E w ?w1" by simp
  have s2: "wait_step E ?w1 (w\<lparr>ww_pc := after_read E known (reads_now E w)\<rparr>)"
    using read_second [of ?w1 known "ww_store w" E] by (simp add: reads_now_def)
  show ?thesis
    by (rule own_run_step [OF r1 s2]) (use after_read_cases [of E known "reads_now E w"] in auto)
qed

lemma reads_output:
  assumes "wait_output E (ww_store w) = Inr out"
  shows "\<exists>tok. reads_now E w = Inr (out, tok)"
  using assms by (auto simp: reads_now_def wait_output_def Store_Read_def
      split: sum.splits option.splits prod.splits if_splits)

text \<open>From a select with matching output in the stream: the signal is there, and taking it
  leads to the answer.\<close>

lemma wake_alone:
  assumes ok: "wait_ok inst E w" and b: "ww_pc w = WBlock"
    and out: "wait_output E (ww_store w) = Inr out" "matches E out"
  shows "\<exists>w' r tok. own_run E w w' \<and> ww_pc w' = WDone (Inr r) \<and> ww_now w' = ww_now w \<and>
    wait_match (we_req E) out tok = Some r"
proof -
  have ready: "watch_ready (we_sig E) (ww_store w)" and mode: "wq_Mode (we_req E) \<noteq> WaitModeQuiescence"
    using ok b out by (auto simp: wait_ok_def)
  let ?st = "watch_recv (we_sig E) (ww_store w)"
  let ?w1 = "w\<lparr>ww_store := ?st, ww_pc := WRead True\<rparr>"
  have same: "wait_output E (ww_store ?w1) = Inr out"
    using out(1) wait_output_cong [of ?st E "ww_store w"] by simp
  from reads_output [OF this] obtain tok where r: "reads_now E ?w1 = Inr (out, tok)" by blast
  have "wait_step E w ?w1" by (rule select_sig [OF _ ready]) (simp add: b)
  from own_run_step [OF own_run_refl this] b have r1: "own_run E w ?w1" by simp
  have "own_run E ?w1 (?w1\<lparr>ww_pc := after_read E True (reads_now E ?w1)\<rparr>)"
    by (rule read_alone) (use output_known [OF same] in simp_all)
  with r1 have run: "own_run E w (?w1\<lparr>ww_pc := after_read E True (reads_now E ?w1)\<rparr>)"
    unfolding own_run_def by (rule rtranclp_trans)
  from out(2) obtain x where x: "wait_match (we_req E) out tok = Some x"
    using wait_match_token [of "we_req E" out "[]" tok] by (auto simp: matches_def)
  with r mode have "after_read E True (reads_now E ?w1) = WDone (Inr x)" by (simp add: after_read_def)
  with run x show ?thesis
    by (intro exI [of _ "?w1\<lparr>ww_pc := WDone (Inr x)\<rparr>"] exI [of _ x] exI [of _ tok]) simp
qed

lemma wake_and_match:
  assumes "wait_ok inst E w" and "ww_pc w = WBlock"
    and "wait_output E (ww_store w) = Inr out" "matches E out"
  shows "\<exists>w' r. wait_run E w w' \<and> ww_pc w' = WDone (Inr r) \<and> ww_now w' = ww_now w"
  using wake_alone [OF assms] own_run_wait by blast

text \<open>The first read of a wait that starts on a readable stream.\<close>

lemma run_read:
  assumes "ww_pc w = WRead known" and "st_bufs (ww_store w) (wq_PaneID (we_req E)) \<noteq> None"
  shows "wait_run E w (w\<lparr>ww_pc := after_read E known (reads_now E w)\<rparr>)"
  by (rule own_run_wait [OF read_alone [OF assms]])

text \<open>A wait asleep on a pane that is gone: it is signalled and answers that the pane closed.\<close>

lemma closed_alone:
  assumes ok: "wait_ok inst E w" and b: "ww_pc w = WBlock"
    and gone: "st_bufs (ww_store w) (wq_PaneID (we_req E)) = None"
  shows "\<exists>w'. own_run E w w' \<and> ww_now w' = ww_now w \<and>
    ww_pc w' = WDone (Inl (wait_read_error (wq_PaneID (we_req E)) True ErrPaneUnknown))"
proof -
  have ready: "watch_ready (we_sig E) (ww_store w)"
    using ok b gone output_known [of E "ww_store w"] by (auto simp: wait_ok_def)
  let ?w1 = "w\<lparr>ww_store := watch_recv (we_sig E) (ww_store w), ww_pc := WRead True\<rparr>"
  let ?w2 = "?w1\<lparr>ww_pc := WDone (Inl (wait_read_error (wq_PaneID (we_req E)) True ErrPaneUnknown))\<rparr>"
  have "wait_step E w ?w1" by (rule select_sig [OF _ ready]) (simp add: b)
  from own_run_step [OF own_run_refl this] b have r1: "own_run E w ?w1" by simp
  have "wait_step E ?w1 ?w2" by (rule read_unknown) (use gone in simp_all)
  from own_run_step [OF r1 this] have "own_run E w ?w2" by simp
  then show ?thesis by (intro exI [of _ ?w2]) simp
qed

text \<open>A request whose checkpoint is offset \<open>length h0\<close> of the pane's stream \<open>h0 @ h1\<close>.\<close>

definition at_checkpoint :: "WaitRequest \<Rightarrow> Store \<Rightarrow> streams \<Rightarrow> bytes \<Rightarrow> bytes \<Rightarrow> instant \<Rightarrow> bool" where
  "at_checkpoint req st H h0 h1 t0 \<longleftrightarrow> store_rep st H \<and> H (wq_PaneID req) = Some (h0 @ h1) \<and>
     wq_After req = encodeToken (st_instance st) (wq_PaneID req) (int (length h0)) t0 \<and>
     int (length h1) \<le> st_capacity st \<and> utf8_valid (st_instance st) \<and> utf8_valid (wq_PaneID req) \<and>
     in_int64 (int (length h0)) \<and> in_int64 t0"

lemma checkpoint_reads:
  assumes "at_checkpoint req st H h0 h1 t0"
  shows "Store_Read now (wq_PaneID req) (wq_After req) st st =
    Inr (h1, encodeToken (st_instance st) (wq_PaneID req) (int (length h0 + length h1)) now)"
  using assms log.rd_at [of st H "wq_PaneID req" h0 h1 t0 now] by (simp add: at_checkpoint_def)

lemma checkpoint_watch:
  "at_checkpoint req st H h0 h1 t0 \<Longrightarrow> at_checkpoint req (snd (Store_Watch pid st)) H h0 h1 t0"
  using Store_Watch_rep [of st H pid] by (simp add: at_checkpoint_def)

lemma checkpoint_start:
  assumes "wait_start req now st = Inr (E, w0)" and "at_checkpoint req st H h0 h1 t0"
  shows "at_checkpoint req (ww_store w0) H h0 h1 t0" and "ww_store w0 = snd (Store_Watch (wq_PaneID req) st)"
  using assms checkpoint_watch [OF assms(2)] by (auto simp: wait_start_def case_prod_beta split: option.splits)

lemma checkpoint_append:
  assumes "at_checkpoint req st H h0 h1 t0" and "int (length (h1 @ p)) \<le> st_capacity st" and "p \<noteq> []"
  obtains st' where "Store_Append t (wq_PaneID req) p st = Some st'"
    "at_checkpoint req st' (H(wq_PaneID req \<mapsto> h0 @ h1 @ p)) h0 (h1 @ p) t0"
proof -
  from assms(1) have H: "store_rep st H" "H (wq_PaneID req) = Some (h0 @ h1)" by (auto simp: at_checkpoint_def)
  from Store_Append_rep [OF H(1), of t "wq_PaneID req" p] obtain st' where
    "Store_Append t (wq_PaneID req) p st = Some st'"
    "store_rep st' (if p = [] then H else H(wq_PaneID req \<mapsto> known_stream H (wq_PaneID req) @ p))"
    "st_instance st' = st_instance st" "st_capacity st' = st_capacity st" .
  with that [of st'] H assms show ?thesis by (simp add: at_checkpoint_def)
qed

lemma checkpoint_output:
  assumes "at_checkpoint (we_req E) st H h0 h1 t0"
  shows "wait_output E st = Inr h1"
  using checkpoint_reads [OF assms, of 0] by (simp add: wait_output_def)

lemma checkpoint_known:
  fixes E :: wait_env
  assumes "at_checkpoint (we_req E) st H h0 h1 t0"
  shows "st_bufs st (wq_PaneID (we_req E)) \<noteq> None"
  by (rule output_known [OF checkpoint_output [OF assms]])

lemma run_to_block:
  assumes "wait_start req now st = Inr (E, w0)" and c: "at_checkpoint req st H h0 h1 t0"
    and "wq_Mode req \<noteq> WaitModeQuiescence" and "\<not> matches E h1"
  shows "wait_run E w0 (w0\<lparr>ww_pc := WBlock\<rparr>)"
proof -
  have H: "store_rep st H" using c by (simp add: at_checkpoint_def)
  note start = wait_ok_start [OF assms(1) H]
  have c0: "at_checkpoint (we_req E) (ww_store w0) H h0 h1 t0"
    using checkpoint_start(1) [OF assms(1) c] start(3) by simp
  have "wait_match req h1 tok = None" for tok
    using assms(4) wait_match_token [of req h1 tok "[]"] start(3) by (simp add: matches_def)
  with checkpoint_reads [OF c0, of "ww_now w0"] assms(3) start(3)
  have "after_read E False (reads_now E w0) = WBlock" by (simp add: reads_now_def after_read_def)
  with run_read [OF start(2) checkpoint_known [OF c0]] show ?thesis by simp
qed

text \<open>A quiescence wait that is left alone answers once its window has passed.\<close>

lemma run_to_mint:
  assumes "wait_start req now st = Inr (E, w0)" and c: "at_checkpoint req st H h0 h1 t0"
    and m: "wq_Mode req = WaitModeQuiescence"
  shows "\<exists>w. wait_run E w0 w \<and> ww_pc w = WQuietMint \<and> ww_store w = ww_store w0"
proof -
  have H: "store_rep st H" using c by (simp add: at_checkpoint_def)
  note start = wait_ok_start [OF assms(1) H]
  have c0: "at_checkpoint (we_req E) (ww_store w0) H h0 h1 t0"
    using checkpoint_start(1) [OF assms(1) c] start(3) by simp
  let ?d = "max 0 (quiet_ref E (ww_store w0) + wq_QuietWindow req - ww_now w0)"
  let ?w1 = "w0\<lparr>ww_pc := WQuietLast\<rparr>"
  let ?w2 = "?w1\<lparr>ww_pc := WQuietSince (quiet_ref E (ww_store w0))\<rparr>"
  let ?w3 = "?w2\<lparr>ww_now := ww_now ?w2 + ?d\<rparr>"
  let ?w4 = "?w3\<lparr>ww_pc := WQuietMint\<rparr>"
  have "after_read E False (reads_now E w0) = WQuietLast"
    using checkpoint_reads [OF c0, of "ww_now w0"] m start(3) by (simp add: reads_now_def after_read_def)
  with run_read [OF start(2) checkpoint_known [OF c0]] have r1: "wait_run E w0 ?w1" by simp
  have "wait_step E ?w1 ?w2" using quiet_last [of ?w1 E] by simp
  note r2 = run_step [OF r1 this]
  have "wait_step E ?w2 ?w3" by (rule tick) simp
  note r3 = run_step [OF r2 this]
  have "wait_step E ?w3 ?w4"
    using quiet_since [of ?w3 "quiet_ref E (ww_store w0)" E] start(3)
    by (simp add: after_since_def Let_def max_def split: if_splits)
  from run_step [OF r3 this] show ?thesis by (intro exI [of _ ?w4]) simp
qed

lemma run_to_quiet:
  assumes "wait_start req now st = Inr (E, w0)" and "at_checkpoint req st H h0 h1 t0"
    and "wq_Mode req = WaitModeQuiescence"
  shows "\<exists>w r. wait_run E w0 w \<and> ww_pc w = WDone (Inr r)"
proof -
  from run_to_mint [OF assms] obtain w where w: "wait_run E w0 w" "ww_pc w = WQuietMint" "ww_store w = ww_store w0"
    by blast
  have "store_rep (ww_store w) H"
    using checkpoint_start(1) [OF assms(1,2)] w(3) by (simp add: at_checkpoint_def)
  then obtain tok st' where "Store_NewToken (ww_now w) (wq_PaneID (we_req E)) (ww_store w) = Some (tok, st')"
    by (metis Store_NewToken_rep)
  from run_step [OF w(1) quiet_mint [OF w(2) this]] show ?thesis by fastforce
qed

lemma wait_start_passes:
  "wait_validate req = None \<Longrightarrow> \<exists>E w0. wait_start req now st = Inr (E, w0)"
  by (auto simp: wait_start_def Let_def case_prod_beta)

subsection \<open>A sample wait\<close>

definition sample_wait :: "WaitMode \<Rightarrow> WaitRequest" where
  "sample_wait mode =
     \<lparr>wq_PaneID = ''%1'', wq_After = encodeToken ''4142'' ''%1'' 0 5, wq_Timeout = 100, wq_Mode = mode,
      wq_SentinelToken = ''t'', wq_QuietWindow = 10, wq_Regex = None\<rparr>"

lemma sample_valid:
  assumes "mode = WaitModeSentinel \<or> mode = WaitModeQuiescence"
  shows "wait_validate (sample_wait mode) = None"
proof -
  have v: "utf8_valid ''4142''" "utf8_valid ''%1''" by code_simp+
  have "encodeToken ''4142'' ''%1'' 0 5 \<noteq> []"
  proof
    assume "encodeToken ''4142'' ''%1'' 0 5 = []"
    moreover have "decodeToken [] = Inl ErrTokenMalformed" by code_simp
    ultimately show False
      using wire.dec_enc [OF v, of 0 5] by (simp add: in_int64_def int64_min_def int64_max_def)
  qed
  then show ?thesis
    using assms wait_validate_ok [of "sample_wait mode"] by (auto simp: sample_wait_def)
qed

lemma sample_start:
  assumes "mode = WaitModeSentinel \<or> mode = WaitModeQuiescence"
  shows "\<exists>st H E w0. store_rep st H \<and> wait_start (sample_wait mode) 20 st = Inr (E, w0) \<and>
    at_checkpoint (sample_wait mode) st H [] [] 5 \<and> st_capacity st = 64 \<and> we_req E = sample_wait mode"
proof -
  have v: "st_instance (Store_New ''AB'' 64) = ''4142''" "utf8_valid ''4142''" "utf8_valid ''%1''" by code_simp+
  obtain st where st: "Store_Ensure ''%1'' (Store_New ''AB'' 64) = Some st" "store_rep st (touched ''%1'' Map.empty)"
    "st_instance st = st_instance (Store_New ''AB'' 64)" "st_capacity st = st_capacity (Store_New ''AB'' 64)"
    using Store_Ensure_rep [OF store_rep_new [of 64 "''AB''"], of "''%1''"] by auto
  from wait_start_passes [OF sample_valid [OF assms]] obtain E w0 where E: "wait_start (sample_wait mode) 20 st = Inr (E, w0)" by blast
  have "at_checkpoint (sample_wait mode) st (touched ''%1'' Map.empty) [] [] 5"
    using st v by (simp add: at_checkpoint_def sample_wait_def in_int64_def int64_min_def int64_max_def
        Store_New_def)
  with st E wait_ok_start(3) [OF E st(2)] show ?thesis
    by (intro exI [of _ st] exI [of _ "touched ''%1'' Map.empty"] exI [of _ E] exI [of _ w0]) (simp add: Store_New_def)
qed

lemma sample_matches:
  fixes E :: wait_env
  assumes "we_req E = sample_wait WaitModeSentinel"
  shows "\<not> matches E []" and "matches E ''__DONE__:t:0''"
proof -
  have "MatchSentinel (StripANSIAndCR []) ''t'' = None" by code_simp
  with assms show "\<not> matches E []" by (simp add: matches_def wait_match_def sample_wait_def)
  have "MatchSentinel (StripANSIAndCR ''__DONE__:t:0'') ''t'' \<noteq> None" by code_simp
  with assms show "matches E ''__DONE__:t:0''" by (simp add: matches_def wait_match_def sample_wait_def)
qed

subsection \<open>Properties\<close>

text \<open>C36: what wait accepts. A missing token is reported first and as MISSING_AFTER, any
  other defect as INVALID_ARGS naming the pane; a request passes exactly when it has a
  token, a positive timeout and what its mode needs, a sentinel token without colon and
  newline, a compiled expression, or a positive quiet window below the timeout.\<close>

theorem wait_validation:
  "(wait_validate req = None \<longleftrightarrow> wq_After req \<noteq> [] \<and> 0 < wq_Timeout req \<and>
     (case wq_Mode req of
        WaitModeSentinel \<Rightarrow> wq_SentinelToken req \<noteq> [] \<and> CHR '':'' \<notin> set (wq_SentinelToken req)
          \<and> ch_nl \<notin> set (wq_SentinelToken req)
      | WaitModeRegex \<Rightarrow> wq_Regex req \<noteq> None
      | WaitModeQuiescence \<Rightarrow> 0 < wq_QuietWindow req \<and> wq_QuietWindow req < wq_Timeout req
      | WaitModeOther \<Rightarrow> False)) \<and>
   map_option er_code (wait_validate req) =
     (if wq_After req = [] then Some ErrMissingAfter
      else if wait_validate req = None then None else Some ErrInvalidArgs)"
  by (auto simp: wait_validate_def validateSentinelToken_def contains_any_def invalid_args_def Let_def
      split: WaitMode.split)

text \<open>C10: no lost wake-up. While the wait is asleep in its select, either a signal is
  pending or the pane is known, the checkpoint still readable and the stream without a
  match; so when a match is in the stream the wait can take the signal at once and answer
  it, without any further output and without the clock moving.\<close>

theorem no_lost_wakeup:
  assumes "wait_start req now st = Inr (E, w0)" and "store_rep st H" and "wait_run E w0 w"
    and "ww_pc w = WBlock"
  shows "(watch_ready (we_sig E) (ww_store w) \<or>
      (\<exists>out. wait_output E (ww_store w) = Inr out \<and> \<not> matches E out)) \<and>
    (\<forall>out. wait_output E (ww_store w) = Inr out \<and> matches E out \<longrightarrow>
      (\<exists>w' r. wait_run E w w' \<and> ww_pc w' = WDone (Inr r) \<and> ww_now w' = ww_now w))"
proof -
  have ok: "wait_ok (st_instance st) E w"
    by (rule wait_ok_run [OF assms(3) wait_ok_start(1) [OF assms(1,2)]])
  then have "watch_ready (we_sig E) (ww_store w) \<or>
      (\<exists>out. wait_output E (ww_store w) = Inr out \<and> \<not> matches E out)"
    using assms(4) by (simp add: wait_ok_def)
  with wake_and_match [OF ok assms(4)] show ?thesis by blast
qed

theorem no_lost_wakeup_witness:
  "\<exists>st E w0 w. wait_start (sample_wait WaitModeSentinel) 20 st = Inr (E, w0) \<and> wait_run E w0 w \<and> ww_pc w = WBlock \<and>
     (watch_ready (we_sig E) (ww_store w) \<or> (\<exists>out. wait_output E (ww_store w) = Inr out \<and> \<not> matches E out))"
proof -
  obtain st H E w0 where s: "store_rep st H" "wait_start (sample_wait WaitModeSentinel) 20 st = Inr (E, w0)"
    "at_checkpoint (sample_wait WaitModeSentinel) st H [] [] 5" "we_req E = sample_wait WaitModeSentinel"
    using sample_start by blast
  have "wait_run E w0 (w0\<lparr>ww_pc := WBlock\<rparr>)"
    by (rule run_to_block [OF s(2,3)]) (use sample_matches [OF s(4)] in \<open>simp_all add: sample_wait_def\<close>)
  with no_lost_wakeup [OF s(2,1) this] s(2) show ?thesis by fastforce
qed

text \<open>C14: an answer is justified. A sentinel or regex answer is the evaluator's, on the
  bytes and with the token of a read of the pane's stream made during the wait; a
  quiescence answer comes after an instant of the wait at which the quiet window had
  passed since the checkpoint and the last output known at an earlier instant of it.\<close>

theorem wait_success_sound:
  assumes "wait_start req now st = Inr (E, w0)" and "store_rep st H" and "wait_run E w0 w"
    and "ww_pc w = WDone (Inr r)"
  shows "if wq_Mode req = WaitModeQuiescence
    then quiet_seen E w0 w \<and> wr_result r = WaitQuiescence \<and> wr_matched r = None \<and> wr_exit_code r = None
    else passed E w0 w (\<lambda>w1. \<exists>out tok. reads_now E w1 = Inr (out, tok) \<and> wait_match req out tok = Some r)"
  using wait_reason_run [OF assms(3) wait_ok_start(1,2) [OF assms(1,2)]] assms(4)
    wait_ok_start(3) [OF assms(1,2)] by (auto simp: quiescence_response_def split: if_splits)

theorem wait_success_sound_witness:
  "\<exists>st E w0 w r. wait_start (sample_wait WaitModeQuiescence) 20 st = Inr (E, w0) \<and> wait_run E w0 w \<and>
     ww_pc w = WDone (Inr r) \<and> quiet_seen E w0 w \<and> wr_result r = WaitQuiescence"
proof -
  obtain st H E w0 where s: "store_rep st H" "wait_start (sample_wait WaitModeQuiescence) 20 st = Inr (E, w0)"
    "at_checkpoint (sample_wait WaitModeQuiescence) st H [] [] 5"
    using sample_start by blast
  obtain w r where w: "wait_run E w0 w" "ww_pc w = WDone (Inr r)"
    using run_to_quiet [OF s(2,3)] by (auto simp: sample_wait_def)
  have "wq_Mode (sample_wait WaitModeQuiescence) = WaitModeQuiescence" by (simp add: sample_wait_def)
  with wait_success_sound [OF s(2,1) w] have "quiet_seen E w0 w \<and> wr_result r = WaitQuiescence" by simp
  with s(2) w show ?thesis by blast
qed

text \<open>C15: a failure is justified. Every failure of the loop is one of five: the context was
  cancelled; TIMEOUT, and the timeout had passed; PANE_CLOSED, and the pane was known at
  an instant of the wait and gone at a later one; PANE_NOT_FOUND, and the pane was unknown
  at an instant of the wait; INVALID_AFTER, and a read of the known pane refused the token.\<close>

theorem wait_failure_sound:
  assumes "wait_start req now st = Inr (E, w0)" and "store_rep st H" and "wait_run E w0 w"
    and "ww_pc w = WDone (Inl e)"
  shows "e = ctx_canceled \<and> ww_cancelled w \<or>
    e = wait_timed_out (wq_PaneID req) \<and> now + wq_Timeout req \<le> ww_now w \<or>
    e = Command (error_response (wq_PaneID req) ErrPaneClosed ''pane was destroyed while wait was pending'') \<and>
      passed E w0 w (\<lambda>w2. passed E w0 w2 (pane_known E) \<and> \<not> pane_known E w2) \<or>
    e = Command (pane_not_found (wq_PaneID req)) \<and> passed E w0 w (\<lambda>w1. \<not> pane_known E w1) \<or>
    e = Command (invalid_after (wq_PaneID req)) \<and>
      passed E w0 w (\<lambda>w1. \<exists>s1 err. st_instance s1 = st_instance (ww_store w1) \<and> err \<in> token_errors \<and>
        Store_Read (ww_now w1) (wq_PaneID req) (wq_After req) s1 (ww_store w1) = Inl err)"
  using wait_reason_run [OF assms(3) wait_ok_start(1,2) [OF assms(1,2)]] assms(4)
    wait_ok_start(3,4) [OF assms(1,2)] by simp

theorem wait_failure_sound_witness:
  "\<exists>st E w0 w. wait_start (sample_wait WaitModeSentinel) 20 st = Inr (E, w0) \<and> wait_run E w0 w \<and>
     ww_pc w = WDone (Inl (wait_timed_out ''%1'')) \<and> 120 \<le> ww_now w"
proof -
  obtain st H E w0 where s: "store_rep st H" "wait_start (sample_wait WaitModeSentinel) 20 st = Inr (E, w0)"
    "at_checkpoint (sample_wait WaitModeSentinel) st H [] [] 5" "we_req E = sample_wait WaitModeSentinel"
    using sample_start by blast
  let ?w1 = "w0\<lparr>ww_pc := WBlock\<rparr>"
  let ?w2 = "?w1\<lparr>ww_now := ww_now ?w1 + 100\<rparr>"
  let ?w3 = "?w2\<lparr>ww_pc := WDone (Inl (wait_timed_out (wq_PaneID (we_req E))))\<rparr>"
  have "wait_run E w0 ?w1"
    by (rule run_to_block [OF s(2,3)]) (use sample_matches [OF s(4)] in \<open>simp_all add: sample_wait_def\<close>)
  moreover have "wait_step E ?w1 ?w2" by (rule tick) simp
  moreover have "wait_step E ?w2 ?w3"
    by (rule select_timeout) (use wait_ok_start(4,5) [OF s(2,1)] in \<open>simp_all add: sample_wait_def\<close>)
  ultimately have run: "wait_run E w0 ?w3" using run_step by blast
  have "120 \<le> ww_now ?w3" using wait_failure_sound [OF s(2,1) run, of "wait_timed_out (wq_PaneID (we_req E))"] s(4)
    by (auto simp: sample_wait_def wait_timed_out_def ctx_canceled_def pane_not_found_def invalid_after_def
        error_response_def error_code_defs)
  with s(2,4) run show ?thesis by (intro exI [of _ st] exI [of _ E] exI [of _ w0] exI [of _ ?w3]) (simp add: sample_wait_def)
qed

text \<open>C16: a wait left alone ends. From every state it can reach, whatever the others did to the
  store before, and whichever ready case its selects take, its goroutine makes at most eleven
  steps of its own while the clock stands and the others rest. Where it cannot go on it has
  an outcome, or it is asleep in a select with no signal, before its quiet timer and its
  deadline and with its context alive; so once the deadline has passed it has an outcome.\<close>

theorem wait_ends:
  assumes "wait_start req now st = Inr (E, w0)" and "store_rep st H" and "wait_run E w0 w"
  shows "(\<forall>n w'. (wait_acts E ^^ n) w w' \<longrightarrow> n \<le> 11) \<and>
    (\<forall>w'. (wait_acts E)\<^sup>*\<^sup>* w w' \<and> (\<nexists>w''. wait_acts E w' w'') \<longrightarrow> (\<exists>res. ww_pc w' = WDone res) \<or> asleep E w') \<and>
    (we_deadline E \<le> ww_now w \<longrightarrow>
      (\<forall>w'. (wait_acts E)\<^sup>*\<^sup>* w w' \<and> (\<nexists>w''. wait_acts E w' w'') \<longrightarrow> (\<exists>res. ww_pc w' = WDone res)))"
proof -
  have ok: "wait_ok (st_instance st) E w"
    by (rule wait_ok_run [OF assms(3) wait_ok_start(1) [OF assms(1,2)]])
  have stop: "((\<exists>res. ww_pc w' = WDone res) \<or> asleep E w') \<and> ww_now w' = ww_now w"
    if "(wait_acts E)\<^sup>*\<^sup>* w w'" and "\<nexists>w''. wait_acts E w' w''" for w'
  proof -
    from that(1) obtain n where "(wait_acts E ^^ n) w w'" by (auto simp: rtranclp_power)
    from acts_run [OF this] have r: "wait_run E w w'" "ww_now w' = ww_now w" by auto
    from wait_ok_run [OF r(1) ok] obtain H' where "store_rep (ww_store w') H'" by (auto simp: wait_ok_def)
    from acts_progress [OF this that(2)] r(2) show ?thesis by blast
  qed
  have "n \<le> 11" if "(wait_acts E ^^ n) w w'" for n w'
    using acts_run [OF that] acts_left_bound [of E w] by linarith
  moreover have "\<exists>res. ww_pc w' = WDone res"
    if "we_deadline E \<le> ww_now w" and "(wait_acts E)\<^sup>*\<^sup>* w w'" and "\<nexists>w''. wait_acts E w' w''" for w'
  proof -
    from stop [OF that(2,3)] that(1) have "\<not> asleep E w'" by (simp add: asleep_def)
    with stop [OF that(2,3)] show ?thesis by blast
  qed
  ultimately show ?thesis using stop by (intro conjI allI impI) blast+
qed

text \<open>A wait whose clock has jumped to the deadline before its first read.\<close>

theorem wait_ends_witness:
  "\<exists>st E w0 w. wait_start (sample_wait WaitModeSentinel) 20 st = Inr (E, w0) \<and> wait_run E w0 w \<and>
     we_deadline E \<le> ww_now w \<and> (\<forall>n w'. (wait_acts E ^^ n) w w' \<longrightarrow> n \<le> 11) \<and>
     (\<forall>w'. (wait_acts E)\<^sup>*\<^sup>* w w' \<and> (\<nexists>w''. wait_acts E w' w'') \<longrightarrow> (\<exists>res. ww_pc w' = WDone res))"
proof -
  obtain st H E w0 where s: "store_rep st H" "wait_start (sample_wait WaitModeSentinel) 20 st = Inr (E, w0)"
    using sample_start by blast
  let ?w = "w0\<lparr>ww_now := ww_now w0 + max 0 (we_deadline E - ww_now w0)\<rparr>"
  have "wait_step E w0 ?w" by (rule tick) simp
  then have run: "wait_run E w0 ?w" by (rule run_step [OF run_refl])
  have late: "we_deadline E \<le> ww_now ?w" by simp
  from wait_ends [OF s(2,1) run] late s(2) run show ?thesis by blast
qed

text \<open>A match can lose against the timer. A wait whose pane prints the match before the
  deadline may still answer TIMEOUT: when it is scheduled only after the deadline both
  cases of the select are ready, and it takes either.\<close>

lemma timeout_despite_match:
  assumes "wait_start req now st = Inr (E, w0)" and "at_checkpoint req st H h0 h1 t0"
    and "wq_Mode req \<noteq> WaitModeQuiescence" and "\<not> matches E h1" and "matches E (h1 @ p)" and "p \<noteq> []"
    and "int (length (h1 @ p)) \<le> st_capacity st"
  shows "\<exists>w. wait_run E w0 w \<and> ww_pc w = WDone (Inl (wait_timed_out (wq_PaneID req))) \<and>
    passed E w0 w (\<lambda>w1. ww_now w1 < we_deadline E \<and> wait_output E (ww_store w1) = Inr (h1 @ p))"
proof -
  have H: "store_rep st H" using assms(2) by (simp add: at_checkpoint_def)
  note start = wait_ok_start [OF assms(1) H]
  have to: "0 < wq_Timeout req"
    using assms(1) wait_validate_ok [of req] by (auto simp: wait_start_def split: option.splits)
  have c0: "at_checkpoint req (ww_store w0) H h0 h1 t0" by (rule checkpoint_start(1) [OF assms(1,2)])
  have cap: "int (length (h1 @ p)) \<le> st_capacity (ww_store w0)"
    using assms(7) checkpoint_start(2) [OF assms(1,2)] by simp
  obtain st' where st': "Store_Append now (wq_PaneID req) p (ww_store w0) = Some st'"
    "at_checkpoint req st' (H(wq_PaneID req \<mapsto> h0 @ h1 @ p)) h0 (h1 @ p) t0"
    using checkpoint_append [OF c0 cap assms(6)] .
  let ?w1 = "w0\<lparr>ww_pc := WBlock\<rparr>"
  let ?w2 = "?w1\<lparr>ww_store := st'\<rparr>"
  let ?w3 = "?w2\<lparr>ww_now := ww_now ?w2 + wq_Timeout req\<rparr>"
  let ?w4 = "?w3\<lparr>ww_pc := WDone (Inl (wait_timed_out (wq_PaneID (we_req E))))\<rparr>"
  have run1: "wait_run E w0 ?w1" by (rule run_to_block [OF assms(1-4)])
  have "wait_step E ?w1 ?w2"
    using others [of E "OpAppend now (wq_PaneID req) p" ?w1 st'] st'(1) by (simp add: others_op_def)
  from run_step [OF run1 this] have run2: "wait_run E w0 ?w2" .
  have s3: "wait_step E ?w2 ?w3" by (rule tick) (use to in simp)
  have s4: "wait_step E ?w3 ?w4" by (rule select_timeout) (use start in simp_all)
  have "wait_run E ?w2 ?w4" using run_step [OF run_step [OF run_refl s3] s4] .
  moreover have "wait_output E (ww_store ?w2) = Inr (h1 @ p)"
    using checkpoint_output [of E st'] st'(2) start(3) by simp
  moreover have "ww_now ?w2 < we_deadline E" using start(4,5) to by simp
  ultimately have "passed E w0 ?w4 (\<lambda>w1. ww_now w1 < we_deadline E \<and> wait_output E (ww_store w1) = Inr (h1 @ p))"
    using run2 unfolding passed_def by blast
  moreover have "wait_run E w0 ?w4" using run_step [OF run_step [OF run2 s3] s4] .
  ultimately show ?thesis using start(3) by (intro exI [of _ ?w4]) simp
qed

lemma timeout_despite_match_example:
  "\<exists>st E w0 w. wait_start (sample_wait WaitModeSentinel) 20 st = Inr (E, w0) \<and> wait_run E w0 w \<and>
     ww_pc w = WDone (Inl (wait_timed_out ''%1'')) \<and>
     passed E w0 w (\<lambda>w1. ww_now w1 < we_deadline E \<and> wait_output E (ww_store w1) = Inr ''__DONE__:t:0'')"
proof -
  obtain st H E w0 where s: "wait_start (sample_wait WaitModeSentinel) 20 st = Inr (E, w0)"
    "at_checkpoint (sample_wait WaitModeSentinel) st H [] [] 5" "st_capacity st = 64"
    "we_req E = sample_wait WaitModeSentinel"
    using sample_start by blast
  from timeout_despite_match [OF s(1,2), of "''__DONE__:t:0''"] sample_matches [OF s(4)] s(1,3)
  show ?thesis by (fastforce simp: sample_wait_def)
qed

text \<open>A quiescence answer can outlive its pane. A pane that is destroyed between the
  evaluation of the quiet window and the minting of the token is answered as quiet, not
  as PANE_CLOSED, and the minting leaves an empty stream for the dead pane in the store.\<close>

lemma quiescence_revives_pane:
  assumes "wait_start req now st = Inr (E, w0)" and "at_checkpoint req st H h0 h1 t0"
    and "wq_Mode req = WaitModeQuiescence"
  shows "\<exists>w r. wait_run E w0 w \<and> ww_pc w = WDone (Inr r) \<and>
    passed E w0 w (\<lambda>w2. passed E w0 w2 (pane_known E) \<and> \<not> pane_known E w2) \<and> pane_known E w"
proof -
  have H: "store_rep st H" using assms(2) by (simp add: at_checkpoint_def)
  note start = wait_ok_start [OF assms(1) H]
  have c0: "at_checkpoint (we_req E) (ww_store w0) H h0 h1 t0"
    using checkpoint_start(1) [OF assms(1,2)] start(3) by simp
  have k0: "pane_known E w0" using checkpoint_known [OF c0] by (simp add: pane_known_def)
  from run_to_mint [OF assms] obtain w4 where w4: "wait_run E w0 w4" "ww_pc w4 = WQuietMint" "ww_store w4 = ww_store w0"
    by blast
  let ?w5 = "w4\<lparr>ww_store := Store_Forget (wq_PaneID req) (ww_store w0)\<rparr>"
  have "wait_step E w4 ?w5"
    using others [of E "OpForget (wq_PaneID req)" w4 "Store_Forget (wq_PaneID req) (ww_store w0)"] w4(3)
    by (simp add: others_op_def)
  note r5 = run_step [OF w4(1) this]
  have u5: "\<not> pane_known E ?w5" using start(3) by (simp add: pane_known_def)
  have "store_rep (ww_store ?w5) (H(wq_PaneID req := None))"
    using c0 Store_Forget_rep by (simp add: at_checkpoint_def)
  from Store_NewToken_rep [OF this, of "ww_now ?w5" "wq_PaneID req"] obtain tok st' where
    m: "Store_NewToken (ww_now ?w5) (wq_PaneID req) (ww_store ?w5) = Some (tok, st')"
    "store_rep st' (touched (wq_PaneID req) (H(wq_PaneID req := None)))" by metis
  let ?w6 = "?w5\<lparr>ww_store := st', ww_pc := WDone (Inr (quiescence_response E tok))\<rparr>"
  have s6: "wait_step E ?w5 ?w6" by (rule quiet_mint) (use m(1) start(3) w4(2) in simp_all)
  have "passed E w0 ?w5 (pane_known E)" unfolding passed_def using r5 k0 run_refl by blast
  with u5 have "passed E w0 ?w5 (\<lambda>w2. passed E w0 w2 (pane_known E) \<and> \<not> pane_known E w2)"
    by (intro passed_here [OF r5]) simp
  note p6 = passed_later [OF this s6]
  have "pane_known E ?w6" using store_rep_dom [OF m(2), of "wq_PaneID req"] start(3) by (simp add: pane_known_def)
  with run_step [OF r5 s6] p6 show ?thesis by (intro exI [of _ ?w6]) auto
qed

lemma quiescence_revives_pane_example:
  "\<exists>st E w0 w r. wait_start (sample_wait WaitModeQuiescence) 20 st = Inr (E, w0) \<and> wait_run E w0 w \<and>
     ww_pc w = WDone (Inr r) \<and> passed E w0 w (\<lambda>w2. \<not> pane_known E w2) \<and> pane_known E w"
proof -
  obtain st H E w0 where s: "wait_start (sample_wait WaitModeQuiescence) 20 st = Inr (E, w0)"
    "at_checkpoint (sample_wait WaitModeQuiescence) st H [] [] 5"
    using sample_start by blast
  from quiescence_revives_pane [OF s] s(1) show ?thesis
    by (fastforce simp: sample_wait_def elim: passed_mono)
qed

end
