(* ===== verification/RawJson.thy ===== *)
theory RawJson
  imports Tokens
begin

section \<open>RawJson: \<open>json.RawMessage\<close> and lines of JSON\<close>

text \<open>
  What the wire protocol of \<open>internal/ipc\<close> needs of \<open>encoding/json\<close> beyond theory Json:
  a member whose value is kept as its text (\<open>json.RawMessage\<close>), the compaction such a
  text goes through when it is written, omitted empty members, and the framing of one
  value per line.
\<close>

subsection \<open>Members that may be omitted\<close>

definition omit_string :: "string \<Rightarrow> bytes \<Rightarrow> (bytes \<times> json) list" where
  "omit_string key s = (if s = [] then [] else [(key, JStr s)])"

definition omit_int :: "string \<Rightarrow> int \<Rightarrow> (bytes \<times> json) list" where
  "omit_int key z = (if z = 0 then [] else [(key, JNum (itoa z))])"

definition omit_bool :: "string \<Rightarrow> bool \<Rightarrow> (bytes \<times> json) list" where
  "omit_bool key b = (if b then [(key, JBool b)] else [])"

definition omit_strings :: "string \<Rightarrow> bytes list \<Rightarrow> (bytes \<times> json) list" where
  "omit_strings key ss = (if ss = [] then [] else [(key, JArr (map JStr ss))])"

lemmas omit_defs = omit_string_def omit_int_def omit_bool_def omit_strings_def

subsection \<open>A slice of strings\<close>

text \<open>
  Decoding into a \<open>[]string\<close> reuses the backing array of the slice: element \<open>i\<close> is
  stored into what the array holds there, so that a \<open>null\<close> keeps it. The result is the
  slice, the backing array and whether no error was recorded; an empty array and \<open>null\<close>
  drop the backing array.
\<close>

fun store_elems :: "string list \<Rightarrow> json list \<Rightarrow> string list \<times> string list \<times> bool" where
  "store_elems backing [] = ([], backing, True)"
| "store_elems backing (v # vs) =
     (let (x, ok) = store_string (case backing of [] \<Rightarrow> [] | b # _ \<Rightarrow> b) v;
          (xs, rest, oks) = store_elems (drop 1 backing) vs
      in (x # xs, x # rest, ok \<and> oks))"

fun store_strings :: "string list \<times> string list \<Rightarrow> json \<Rightarrow> (string list \<times> string list) \<times> bool" where
  "store_strings (cur, backing) (JArr vs) =
     (if vs = [] then (([], []), True)
      else let (xs, arr, ok) = store_elems backing vs in ((xs, arr), ok))"
| "store_strings cur JNull = (([], []), True)"
| "store_strings cur _ = (cur, False)"

lemma store_elems_strs:
  "store_elems [] (map JStr ss) = (ss, ss, True)"
  by (induction ss) simp_all

subsection \<open>Raw messages\<close>

text \<open>
  \<open>appendCompact\<close> with HTML escaping on a text that is valid JSON: white space outside
  string literals goes, the characters \<open>Marshal\<close> escapes inside them are escaped. The
  flag tells that the scan is inside a literal.
\<close>

fun compact_text :: "bool \<Rightarrow> string \<Rightarrow> string" where
  "compact_text lit [] = []"
| "compact_text lit (c # cs) =
     (if \<not> lit then
        (if is_ws c then compact_text False cs else c # compact_text (c = CHR 0x22) cs)
      else if c = CHR 0x22 then c # compact_text False cs
      else if c = CHR 0x5C then
        (case cs of [] \<Rightarrow> [c] | e # r \<Rightarrow> c # e # compact_text True r)
      else if c = CHR ''<'' \<or> c = CHR ''>'' \<or> c = CHR 0x26 then
        escape_ascii c @ compact_text True cs
      else if c = CHR 0xE2 \<and> (take 2 cs = [CHR 0x80, CHR 0xA8] \<or> take 2 cs = [CHR 0x80, CHR 0xA9]) then
        [CHR 0x5C, CHR ''u'', CHR ''2'', CHR ''0'', CHR ''2'', hex_digit (of_char (cs ! 1) mod 16)]
          @ compact_text True (drop 2 cs)
      else c # compact_text True cs)"

definition json_compact :: "string \<Rightarrow> string option" where
  "json_compact s = (if json_parse s = None then None else Some (compact_text False s))"

text \<open>An object whose values are already text.\<close>

definition print_members :: "(bytes \<times> string) list \<Rightarrow> string" where
  "print_members ms =
     [CHR 0x7B] @ join_with '','' (map (\<lambda>(k, t). json_quote k @ '':'' @ t) ms) @ [CHR 0x7D]"

text \<open>
  The members of an object with the text of their values: \<open>RawMessage.UnmarshalJSON\<close>
  gets exactly the bytes from the first to the last of the value.
\<close>

fun raw_members :: "nat \<Rightarrow> nat \<Rightarrow> (bytes \<times> string) list scan" where
  "raw_members 0 d s = None"
| "raw_members (Suc n) d s =
     (case skip_ws s of
        [] \<Rightarrow> None
      | c # r \<Rightarrow>
          if c \<noteq> CHR 0x22 then None
          else case scan_string r of
            None \<Rightarrow> None
          | Some (k, r1) \<Rightarrow>
              (case skip_ws r1 of
                 [] \<Rightarrow> None
               | c1 # r2 \<Rightarrow>
                   if c1 \<noteq> CHR '':'' then None
                   else case parse_value n d (skip_ws r2) of
                     None \<Rightarrow> None
                   | Some (v, r3) \<Rightarrow>
                       (let u = take (length (skip_ws r2) - length r3) (skip_ws r2)
                        in case skip_ws r3 of
                          [] \<Rightarrow> None
                        | c3 # r4 \<Rightarrow>
                            if c3 = CHR 0x7D then Some ([(json_unquote k, u)], r4)
                            else if c3 = CHR '','' then
                              map_option (\<lambda>(kvs, t). ((json_unquote k, u) # kvs, t)) (raw_members n d r4)
                            else None)))"

definition raw_object :: "string \<Rightarrow> (bytes \<times> string) list option" where
  "raw_object s =
     (case skip_ws s of
        [] \<Rightarrow> None
      | c # r \<Rightarrow>
          if c \<noteq> CHR 0x7B then None
          else if take 1 (skip_ws r) = [CHR 0x7D] then Some []
          else map_option fst (raw_members (2 * length s + 1) 1 r))"

text \<open>\<open>Unmarshal\<close> into a struct with a raw field: each field gets the text of its value.\<close>

fun set_raw_members :: "('s \<Rightarrow> bytes \<Rightarrow> string \<Rightarrow> 's \<times> bool) \<Rightarrow> (bytes \<times> string) list \<Rightarrow> 's \<Rightarrow> 's \<times> bool" where
  "set_raw_members f [] s = (s, True)"
| "set_raw_members f ((k, t) # kvs) s =
     (let (s1, ok1) = f s (fold_name k) t; (s2, ok2) = set_raw_members f kvs s1
      in (s2, ok1 \<and> ok2))"

definition raw_unmarshal :: "('s \<Rightarrow> bytes \<Rightarrow> string \<Rightarrow> 's \<times> bool) \<Rightarrow> 's \<Rightarrow> string \<Rightarrow> 's option" where
  "raw_unmarshal f zero s =
     (case json_parse s of
        Some JNull \<Rightarrow> Some zero
      | Some (JObj _) \<Rightarrow>
          (case raw_object s of
             None \<Rightarrow> None
           | Some ms \<Rightarrow> (let (x, ok) = set_raw_members f ms zero in if ok then Some x else None))
      | _ \<Rightarrow> None)"

subsection \<open>Lines\<close>

text \<open>\<open>bufio.Reader.ReadBytes('\n')\<close> on what the peer sent before it stopped writing.\<close>

definition newline :: char where "newline = CHR 0x0A"

definition read_line :: "string \<Rightarrow> string option" where
  "read_line s = map_option (\<lambda>i. take (Suc i) s) (index_byte s newline)"

lemma newline_ws: "is_ws newline" "skip_ws [newline] = []" "ends_token [newline]"
  by (simp_all add: newline_def is_ws_def skip_ws_def ends_token_def is_digit_def byte_in_def)

subsection \<open>A printed value has no white space at its head and no line break\<close>

lemma json_print_head: "json_ints v \<Longrightarrow> \<exists>c r. json_print v = c # r \<and> \<not> is_ws c"
proof (cases v)
  case (JNum l)
  moreover assume "json_ints v"
  ultimately obtain z where "l = itoa z" by auto
  moreover obtain c r where "itoa z = c # r" "is_digit c \<or> c = CHR ''-''" using itoa_head by blast
  ultimately show ?thesis using JNum digit_not_ws by (auto simp: is_ws_def)
qed (auto simp: is_ws_def json_quote_def)

lemma skip_ws_print: "json_ints v \<Longrightarrow> skip_ws (json_print v @ t) = json_print v @ t"
  using json_print_head [of v] by (auto simp: skip_ws_def)

lemma skip_ws_idem [simp]: "skip_ws (skip_ws s) = skip_ws s"
  by (simp add: skip_ws_def)

lemma parse_value_skip: "parse_value n d (skip_ws s) = parse_value n d s"
  by (cases n) (simp_all del: skip_ws_idem add: skip_ws_idem)

lemma hex_digit_plain: "k < 16 \<Longrightarrow> hex_digit k \<noteq> newline"
proof -
  have "list_all (\<lambda>k. hex_digit k \<noteq> newline) [0..<16]" by code_simp
  then show "k < 16 \<Longrightarrow> hex_digit k \<noteq> newline" by (auto simp: list_all_iff)
qed

lemma escape_ascii_line: "newline \<notin> set (escape_ascii c)"
proof -
  have "hex_digit (of_char c div 16) \<noteq> newline" "hex_digit (of_char c mod 16) \<noteq> newline"
    using of_char_less [of c] by (auto intro!: hex_digit_plain simp: less_mult_imp_div_less)
  then show ?thesis by (auto simp: escape_ascii_def newline_def)
qed

lemma json_escape_line: "newline \<notin> set (json_escape s)"
proof (induction s rule: json_escape.induct)
  case (2 c cs)
  show ?case
  proof (cases "(of_char c :: nat) < 0x80")
    case True
    with 2 show ?thesis by (simp add: escape_ascii_line)
  next
    case high: False
    show ?thesis
    proof (cases "utf8_seq (c # cs)")
      case None
      with 2 high show ?thesis by (simp add: newline_def)
    next
      case (Some rn)
      obtain r n where rn: "rn = (r, n)" by (cases rn)
      with Some have seq: "utf8_seq (c # cs) = Some (r, n)" by simp
      have "newline \<notin> set (take n (c # cs))"
        using utf8_seq_high [OF seq high] by (auto simp: newline_def)
      moreover have "newline \<notin> set [CHR 0x5C, CHR ''u'', CHR ''2'', CHR ''0'', CHR ''2'', hex_digit (r mod 16)]"
        using hex_digit_plain [of "r mod 16"] by (simp add: newline_def)
      ultimately show ?thesis using 2(3) [OF high seq refl] high seq by (simp split: if_splits)
    qed
  qed
qed simp

lemma join_with_line:
  "newline \<notin> set sep \<Longrightarrow> \<forall>l \<in> set ls. newline \<notin> set l \<Longrightarrow> newline \<notin> set (join_with sep ls)"
  using set_join_with [of sep ls] by blast

lemma json_print_line: "json_ints v \<Longrightarrow> newline \<notin> set (json_print v)"
proof (induction v)
  case (JNum l)
  then show ?case using itoa_chars by (fastforce simp: newline_def is_digit_def byte_in_def)
next
  case (JArr vs)
  then have "newline \<notin> set (join_with '','' (map json_print vs))"
    by (intro join_with_line) (auto simp: newline_def)
  then show ?case by (simp add: newline_def)
next
  case (JObj kvs)
  then have "newline \<notin> set (join_with '','' (map (\<lambda>(k, v). json_quote k @ '':'' @ json_print v) kvs))"
    using json_escape_line
    by (intro join_with_line) (fastforce simp: newline_def json_quote_def snds.simps)+
  then show ?case by (simp add: newline_def)
qed (use json_escape_line in \<open>auto simp: newline_def json_quote_def\<close>)

lemma read_line_first:
  "newline \<notin> set l \<Longrightarrow> read_line (l @ newline # t) = Some (l @ [newline])"
proof -
  assume l: "newline \<notin> set l"
  have "index_byte (l @ newline # t) newline = Some (length l)" using l by (induction l) auto
  then show ?thesis by (simp add: read_line_def)
qed

lemma json_parse_line:
  assumes "json_ints v" and "json_depth v \<le> max_nesting"
  shows "json_parse (json_print v @ [newline]) = Some (json_norm v)"
proof -
  let ?s = "json_print v @ [newline]"
  from readsD [OF json_ints_reads [OF assms(1)], of 0 "[newline]"] assms(2) obtain N where N:
    "\<forall>n \<ge> N. parse_value n 0 ?s = Some (json_norm v, [newline])" by (auto simp: newline_ws)
  let ?f = "2 * length ?s + 2"
  have "parse_value (max N ?f) 0 ?s = parse_value ?f 0 ?s"
    by (rule parse_fuel) auto
  with N have "parse_value ?f 0 ?s = Some (json_norm v, [newline])" by (metis max.cobounded1)
  then show ?thesis by (simp only: json_parse_def option.case prod.case newline_ws if_True simp_thms)
qed

subsection \<open>Compaction leaves the output of \<open>Marshal\<close> as it is\<close>

lemma compact_high:
  "\<forall>x \<in> set u. 0x80 \<le> (of_char x :: nat) \<Longrightarrow> CHR 0xE2 \<notin> set u \<Longrightarrow>
   compact_text True (u @ w) = u @ compact_text True w"
proof (induction u)
  case (Cons x u)
  then have "x \<noteq> CHR 0x22" "x \<noteq> CHR 0x5C" "x \<noteq> CHR ''<''" "x \<noteq> CHR ''>''" "x \<noteq> CHR 0x26" "x \<noteq> CHR 0xE2"
    by auto
  with Cons show ?case by simp
qed simp

lemma hex_digit_quiet:
  assumes "k < 16"
  shows "compact_text True (hex_digit k # w) = hex_digit k # compact_text True w"
proof -
  have "list_all (\<lambda>k. hex_digit k \<notin> {CHR 0x22, CHR 0x5C, CHR ''<'', CHR ''>'', CHR 0x26, CHR 0xE2}) [0..<16]"
    by code_simp
  with assms have "hex_digit k \<notin> {CHR 0x22, CHR 0x5C, CHR ''<'', CHR ''>'', CHR 0x26, CHR 0xE2}"
    by (auto simp: list_all_iff)
  then show ?thesis by simp
qed

lemma compact_escape_ascii:
  assumes "(of_char c :: nat) < 0x80"
  shows "compact_text True (escape_ascii c @ w) = escape_ascii c @ compact_text True w"
proof -
  have h: "(of_char c div 16 :: nat) < 16" "(of_char c mod 16 :: nat) < 16" "c \<noteq> CHR 0xE2"
    using assms by auto
  show ?thesis
    using hex_digit_quiet [OF h(1)] hex_digit_quiet [OF h(2)] h(3) by (simp add: escape_ascii_def)
qed

text \<open>A well-formed sequence has the byte E2 at most at its head.\<close>

lemma compact_seq:
  assumes seq: "utf8_seq (c # cs) = Some (r, n)" and high: "\<not> (of_char c :: nat) < 0x80"
    and r: "r \<noteq> 0x2028" "r \<noteq> 0x2029"
  shows "compact_text True (take n (c # cs) @ w) = take n (c # cs) @ compact_text True w"
  using seq
proof (cases rule: utf8_seq_cases)
  case one
  with high show ?thesis by simp
next
  case (two b t)
  then have "CHR 0xE2 \<notin> set (take n (c # cs))" by (auto simp: byte_in_def)
  with compact_high [OF utf8_seq_high [OF seq high]] show ?thesis by simp
next
  case (three b d t)
  have bd: "b \<noteq> CHR 0xE2" "d \<noteq> CHR 0xE2" "0x80 \<le> (of_char b :: nat)" "0x80 \<le> (of_char d :: nat)"
    using three by (auto simp: byte_in_def split: if_splits)
  have tail: "compact_text True ([b, d] @ w) = [b, d] @ compact_text True w"
    by (rule compact_high) (use bd in auto)
  have "\<not> (c = CHR 0xE2 \<and> b = CHR 0x80 \<and> (d = CHR 0xA8 \<or> d = CHR 0xA9))"
    using three r by auto
  moreover have "c \<notin> {CHR 0x22, CHR 0x5C, CHR ''<'', CHR ''>'', CHR 0x26}" using high by auto
  ultimately show ?thesis using three tail by simp
next
  case (four b d e t)
  then have "CHR 0xE2 \<notin> set (take n (c # cs))" by (auto simp: byte_in_def split: if_splits)
  with compact_high [OF utf8_seq_high [OF seq high]] show ?thesis by simp
qed

lemma compact_escape:
  "compact_text True (json_escape s @ w) = json_escape s @ compact_text True w"
proof (induction s arbitrary: w rule: json_escape.induct)
  case (2 c cs)
  show ?case
  proof (cases "(of_char c :: nat) < 0x80")
    case True
    with 2 show ?thesis by (simp add: compact_escape_ascii)
  next
    case high: False
    show ?thesis
    proof (cases "utf8_seq (c # cs)")
      case None
      with 2 high show ?thesis by simp
    next
      case (Some rn)
      obtain r n where rn: "rn = (r, n)" by (cases rn)
      with Some have seq: "utf8_seq (c # cs) = Some (r, n)" by simp
      note IH = 2(3) [OF high seq refl]
      show ?thesis
      proof (cases "r = 0x2028 \<or> r = 0x2029")
        case True
        with high seq IH hex_digit_quiet [of "r mod 16"] show ?thesis by auto
      next
        case False
        with high seq IH compact_seq [OF seq high] show ?thesis by simp
      qed
    qed
  qed
qed simp

lemma compact_quote: "compact_text False (json_quote s @ w) = json_quote s @ compact_text False w"
  using compact_escape [of s "CHR 0x22 # w"] by (simp add: json_quote_def is_ws_def)

lemma compact_plain:
  "\<forall>c \<in> set u. \<not> is_ws c \<and> c \<noteq> CHR 0x22 \<Longrightarrow> compact_text False (u @ w) = u @ compact_text False w"
  by (induction u) auto

lemma compact_join:
  assumes "\<forall>v \<in> set vs. \<forall>w. compact_text False (p v @ w) = p v @ compact_text False w"
  shows "compact_text False (join_with '','' (map p vs) @ w) = join_with '','' (map p vs) @ compact_text False w"
  using assms
proof (induction vs arbitrary: w)
  case (Cons v vs)
  then show ?case
    using compact_plain [of "'',''" for w] by (cases vs) (auto simp: is_ws_def)
qed simp

lemma compact_print:
  "json_ints v \<Longrightarrow> compact_text False (json_print v @ w) = json_print v @ compact_text False w"
proof (induction v arbitrary: w)
  case JNull
  show ?case by (rule compact_plain) (auto simp: is_ws_def)
next
  case (JBool b)
  show ?case by (rule compact_plain) (auto simp: is_ws_def)
next
  case (JNum l)
  then have "\<forall>c \<in> set l. is_digit c \<or> c = CHR ''-''" using itoa_chars by auto
  then show ?case
    by (intro compact_plain) (fastforce simp: is_ws_def is_digit_def byte_in_def)
next
  case (JStr s)
  show ?case by (simp add: compact_quote)
next
  case (JArr vs)
  then have "compact_text False (join_with '','' (map json_print vs) @ CHR 0x5D # w) =
      join_with '','' (map json_print vs) @ compact_text False (CHR 0x5D # w)"
    by (intro compact_join) auto
  then show ?case by (simp add: is_ws_def)
next
  case (JObj kvs)
  have "compact_text False (join_with '','' (map (\<lambda>(k, v). json_quote k @ '':'' @ json_print v) kvs) @ CHR 0x7D # w) =
      join_with '','' (map (\<lambda>(k, v). json_quote k @ '':'' @ json_print v) kvs) @ compact_text False (CHR 0x7D # w)"
    using JObj by (intro compact_join) (fastforce simp: snds.simps compact_quote is_ws_def)
  then show ?case by (simp add: is_ws_def)
qed

lemma json_compact_print:
  assumes "json_ints v" and "json_depth v \<le> max_nesting"
  shows "json_compact (json_print v) = Some (json_print v)"
  using json_parse_print [OF assms] compact_print [OF assms(1), of "[]"] by (simp add: json_compact_def)

subsection \<open>An object reads back member by member, the values as their text\<close>

lemma raw_members_print:
  assumes "kvs \<noteq> []" and "\<forall>(k, v) \<in> set kvs. json_ints v"
    and "d + foldr (\<lambda>(k, v) m. max (json_depth v) m) kvs 0 \<le> max_nesting"
  shows "\<exists>N. \<forall>n \<ge> N. raw_members n d
      (join_with '','' (map (\<lambda>(k, v). json_quote k @ '':'' @ json_print v) kvs) @ [CHR 0x7D] @ t)
    = Some (map (\<lambda>(k, v). (utf8_sanitize k, json_print v)) kvs, t)"
  using assms
proof (induction kvs)
  case (Cons kv kvs)
  obtain k v where kv: "kv = (k, v)" by (cases kv)
  have iv: "json_ints v" using Cons.prems(2) kv by simp
  have step: "raw_members (Suc n) d (json_quote k @ '':'' @ json_print v @ c # u) =
      (if c = CHR 0x7D then Some ([(utf8_sanitize k, json_print v)], u)
       else if c = CHR '','' then
         map_option (\<lambda>(kvs, t). ((utf8_sanitize k, json_print v) # kvs, t)) (raw_members n d u)
       else None)"
    if "parse_value n d (json_print v @ c # u) = Some (json_norm v, c # u)"
      and "\<not> is_ws c" for n c u
    using that skip_ws_print [OF iv, of "c # u"]
    by (simp add: json_quote_def skip_ws_def [of "CHR 0x22 # _"] skip_ws_def [of "c # _"]
        skip_ws_def [of "CHR '':'' # _"] is_ws_def [of "CHR 0x22"]
        is_ws_def [of "CHR '':''"] unquote_escape del: scan_string.simps)
  have d: "d + json_depth v \<le> max_nesting"
    "d + foldr (\<lambda>(k, v) m. max (json_depth v) m) kvs 0 \<le> max_nesting"
    using Cons.prems(3) kv by (auto simp: depth_max)
  note rv = json_ints_reads [OF iv]
  show ?case
  proof (cases kvs)
    case Nil
    from readsD [OF rv d(1) ends_token_close(2)] obtain N where N:
      "\<forall>n \<ge> N. parse_value n d (json_print v @ CHR 0x7D # t) = Some (json_norm v, CHR 0x7D # t)"
      by blast
    have "raw_members n d (json_quote k @ '':'' @ json_print v @ CHR 0x7D # t)
        = Some ([(utf8_sanitize k, json_print v)], t)" if "Suc N \<le> n" for n
      using that N step [of "n - 1" "CHR 0x7D" t] by (cases n) (auto simp: is_ws_def)
    with Nil kv show ?thesis by auto
  next
    case (Cons w ws)
    let ?u = "join_with '','' (map (\<lambda>(k, v). json_quote k @ '':'' @ json_print v) kvs) @ [CHR 0x7D] @ t"
    from Cons.prems Cons.IH d Cons obtain M where M:
      "\<forall>n \<ge> M. raw_members n d ?u = Some (map (\<lambda>(k, v). (utf8_sanitize k, json_print v)) kvs, t)"
      by auto
    from readsD [OF rv d(1) ends_token_close(1)] obtain N where N:
      "\<forall>n \<ge> N. parse_value n d (json_print v @ CHR '','' # ?u) = Some (json_norm v, CHR '','' # ?u)"
      by blast
    have "raw_members n d (json_quote k @ '':'' @ json_print v @ CHR '','' # ?u)
        = Some (map (\<lambda>(k, v). (utf8_sanitize k, json_print v)) (kv # kvs), t)"
      if "Suc (max N M) \<le> n" for n
      using that N M step [of "n - 1" "CHR '',''" ?u] kv by (cases n) (auto simp: is_ws_def)
    with Cons kv show ?thesis by (intro exI [of _ "Suc (max N M)"]) simp
  qed
qed simp

text \<open>The text scan accepts what the tree scan accepts, with the same fuel.\<close>

lemma raw_members_total:
  "parse_members n d s = Some (kvs, t) \<Longrightarrow> \<exists>ms. raw_members n d s = Some (ms, t) \<and> map fst ms = map fst kvs"
proof (induction n arbitrary: s kvs)
  case (Suc n)
  obtain r k r1 r2 v r3 c3 r4 where *:
    "skip_ws s = CHR 0x22 # r" "scan_string r = Some (k, r1)" "skip_ws r1 = CHR '':'' # r2"
    "parse_value n d r2 = Some (v, r3)" "skip_ws r3 = c3 # r4"
    "(if c3 = CHR 0x7D then Some ([(json_unquote k, v)], r4)
      else if c3 = CHR '','' then
        map_option (\<lambda>(kvs, t). ((json_unquote k, v) # kvs, t)) (parse_members n d r4)
      else None) = Some (kvs, t)"
    using Suc.prems by (simp del: parse_value.simps split: list.splits if_splits option.splits prod.splits)
  show ?case
  proof (cases "c3 = CHR 0x7D")
    case True
    with * show ?thesis by (auto simp: parse_value_skip)
  next
    case False
    with *(6) obtain kvs' where "c3 = CHR '',''" "parse_members n d r4 = Some (kvs', t)"
      "kvs = (json_unquote k, v) # kvs'"
      by (auto split: if_splits)
    with Suc.IH [of r4 kvs'] * show ?thesis by (auto simp: parse_value_skip)
  qed
qed simp

lemma raw_members_fuel:
  "2 * length s + 1 < n \<Longrightarrow> n \<le> m \<Longrightarrow> raw_members m d s = raw_members n d s"
proof (induction n arbitrary: m s)
  case (Suc n)
  then obtain m' where m: "m = Suc m'" "n \<le> m'" by (cases m) auto
  have v: "parse_value m' d r2 = parse_value n d r2" if "length r2 < length s" for r2
    using parse_fuel(1) [of r2 n m' d] that m Suc.prems by simp
  have k: "raw_members m' d r4 = raw_members n d r4" if "length r4 < length s" for r4
    using Suc.IH [of r4 m'] that m Suc.prems by simp
  show ?case unfolding m(1) raw_members.simps Let_def
    by (intro list.case_cong if_cong option.case_cong prod.case_cong refl arg_cong [of _ _ "map_option _"])
       (auto dest!: skip_ws_ConsD scan_string_length parse_length simp: v k parse_value_skip)
qed simp

lemma raw_object_print:
  assumes "json_ints (JObj kvs)" and "json_depth (JObj kvs) \<le> max_nesting"
  shows "raw_object (json_print (JObj kvs) @ [newline]) =
    Some (map (\<lambda>(k, v). (utf8_sanitize k, json_print v)) kvs)"
proof (cases "kvs = []")
  case True
  then show ?thesis by (simp add: raw_object_def skip_ws_def is_ws_def)
next
  case False
  let ?r = "join_with '','' (map (\<lambda>(k, v). json_quote k @ '':'' @ json_print v) kvs) @ [CHR 0x7D] @ [newline]"
  let ?s = "json_print (JObj kvs) @ [newline]"
  have s: "?s = CHR 0x7B # ?r" by simp
  from raw_members_print [OF False, of 1 "[newline]"] assms obtain N where N:
    "\<forall>n \<ge> N. raw_members n 1 ?r = Some (map (\<lambda>(k, v). (utf8_sanitize k, json_print v)) kvs, [newline])"
    by auto
  have "raw_members (max N (2 * length ?s + 1)) 1 ?r = raw_members (2 * length ?s + 1) 1 ?r"
    by (rule raw_members_fuel) (simp_all add: s)
  with N have m: "raw_members (2 * length ?s + 1) 1 ?r =
      Some (map (\<lambda>(k, v). (utf8_sanitize k, json_print v)) kvs, [newline])"
    by (metis max.cobounded1)
  have q: "skip_ws ?r = ?r" "take 1 ?r = [CHR 0x22]"
    using False by (cases kvs; cases "tl kvs"; force simp: json_quote_def skip_ws_def is_ws_def)+
  have "skip_ws ?s = CHR 0x7B # ?r" unfolding s by (simp add: skip_ws_def is_ws_def)
  with m q show ?thesis unfolding raw_object_def by (simp del: raw_members.simps)
qed

lemma raw_unmarshal_print:
  assumes "json_ints (JObj kvs)" and "json_depth (JObj kvs) \<le> max_nesting"
  shows "raw_unmarshal f zero (json_print (JObj kvs) @ [newline]) =
    (let (x, ok) = set_raw_members f (map (\<lambda>(k, v). (utf8_sanitize k, json_print v)) kvs) zero
     in if ok then Some x else None)"
  using json_parse_line [OF assms] raw_object_print [OF assms]
  by (simp add: raw_unmarshal_def del: json_print.simps)

lemma print_members_print:
  "print_members (map (\<lambda>(k, v). (k, json_print v)) kvs) = json_print (JObj kvs)"
  by (simp add: print_members_def comp_def case_prod_unfold)

lemma set_members_append:
  "set_members f (xs @ ys) s =
    (let (s1, ok1) = set_members f xs s; (s2, ok2) = set_members f ys s1 in (s2, ok1 \<and> ok2))"
  by (induction xs arbitrary: s) (auto simp: Let_def case_prod_unfold)

lemma set_raw_members_append:
  "set_raw_members f (xs @ ys) s =
    (let (s1, ok1) = set_raw_members f xs s; (s2, ok2) = set_raw_members f ys s1 in (s2, ok1 \<and> ok2))"
  by (induction xs arbitrary: s) (auto simp: Let_def case_prod_unfold)

end
