(* ===== verification/Protocol.thy ===== *)
theory Protocol
  imports RawJson
begin

section \<open>Protocol: requests and responses on the wire (internal/ipc/protocol.go)\<close>

text \<open>
  One \<open>Request\<close> per line from the client, one \<open>Response\<close> per line back. Both are
  structs whose empty members are omitted; the body of a response is the JSON text of the
  command's payload and is kept as text by the envelope. The payload types of
  \<open>internal/domain\<close> are given their JSON trees here.
\<close>

subsection \<open>Payloads\<close>

definition list_json :: "ListResponse \<Rightarrow> json" where
  "list_json r = JObj [(''panes'', JArr (map JStr (lr_panes r)))]"

definition snapshot_json :: "SnapshotResponse \<Rightarrow> json" where
  "snapshot_json r = JObj
     ([(''pane_id'', JStr (sr_pane_id r)), (''next'', JStr (sr_next r))]
      @ (case sr_scrollback_text r of None \<Rightarrow> [] | Some s \<Rightarrow> [(''scrollback_text'', JStr s)])
      @ [(''text'', JStr (sr_text r))])"

definition read_json :: "ReadResponse \<Rightarrow> json" where
  "read_json r = JObj
     [(''pane_id'', JStr (rr_pane_id r)), (''next'', JStr (rr_next r)), (''text'', JStr (rr_text r))]"

definition wait_json :: "WaitResponse \<Rightarrow> json" where
  "wait_json r = JObj
     ([(''pane_id'', JStr (wr_pane_id r)), (''next'', JStr (wr_next r)),
       (''result'', JStr (wait_result_string (wr_result r)))]
      @ (case wr_matched r of None \<Rightarrow> [] | Some s \<Rightarrow> [(''matched'', JStr s)])
      @ (case wr_exit_code r of None \<Rightarrow> [] | Some z \<Rightarrow> [(''exit_code'', JNum (itoa z))]))"

definition error_json :: "ErrorResponse \<Rightarrow> json" where
  "error_json e = JObj
     (omit_string ''pane_id'' (er_pane_id e)
      @ [(''code'', JStr (er_code e)), (''message'', JStr (er_message e))])"

subsection \<open>Requests\<close>

type_synonym Op = string

definition OpList :: Op where "OpList = ''list''"
definition OpSnapshot :: Op where "OpSnapshot = ''snapshot''"
definition OpRead :: Op where "OpRead = ''read''"
definition OpText :: Op where "OpText = ''text''"
definition OpKey :: Op where "OpKey = ''key''"
definition OpWait :: Op where "OpWait = ''wait''"
definition OpShutdown :: Op where "OpShutdown = ''shutdown''"

lemmas op_defs = OpList_def OpSnapshot_def OpRead_def OpText_def OpKey_def OpWait_def OpShutdown_def

record Request =
  rq_Op :: Op
  rq_Pane :: PaneID
  rq_After :: Token
  rq_HistoryLines :: int
  rq_HasHistory :: bool
  rq_Text :: string
  rq_Enter :: bool
  rq_Keys :: "string list"
  rq_Mode :: string
  rq_SentinelToken :: string
  rq_Pattern :: string
  rq_QuietMs :: int
  rq_TimeoutMs :: int

definition zero_request :: Request where
  "zero_request = \<lparr>rq_Op = [], rq_Pane = [], rq_After = [], rq_HistoryLines = 0, rq_HasHistory = False,
     rq_Text = [], rq_Enter = False, rq_Keys = [], rq_Mode = [], rq_SentinelToken = [], rq_Pattern = [],
     rq_QuietMs = 0, rq_TimeoutMs = 0\<rparr>"

definition request_members :: "Request \<Rightarrow> (bytes \<times> json) list" where
  "request_members r =
     [(''op'', JStr (rq_Op r))] @ omit_string ''pane'' (rq_Pane r) @ omit_string ''after'' (rq_After r)
     @ omit_int ''history_lines'' (rq_HistoryLines r) @ omit_bool ''has_history'' (rq_HasHistory r)
     @ omit_string ''text'' (rq_Text r) @ omit_bool ''enter'' (rq_Enter r)
     @ omit_strings ''keys'' (rq_Keys r)
     @ omit_string ''mode'' (rq_Mode r) @ omit_string ''sentinel_token'' (rq_SentinelToken r)
     @ omit_string ''pattern'' (rq_Pattern r)
     @ omit_int ''quiet_ms'' (rq_QuietMs r) @ omit_int ''timeout_ms'' (rq_TimeoutMs r)"

definition marshal_request :: "Request \<Rightarrow> string" where
  "marshal_request r = json_print (JObj (request_members r))"

text \<open>The state of decoding: the request and the backing array of its \<open>Keys\<close>.\<close>

type_synonym request_state = "Request \<times> string list"

definition set_request_field :: "request_state \<Rightarrow> bytes \<Rightarrow> json \<Rightarrow> request_state \<times> bool" where
  "set_request_field s key v =
     (let (r, arr) = s in
      if key = ''OP'' then (let (x, ok) = store_string (rq_Op r) v in ((r\<lparr>rq_Op := x\<rparr>, arr), ok))
      else if key = ''PANE'' then (let (x, ok) = store_string (rq_Pane r) v in ((r\<lparr>rq_Pane := x\<rparr>, arr), ok))
      else if key = ''AFTER'' then (let (x, ok) = store_string (rq_After r) v in ((r\<lparr>rq_After := x\<rparr>, arr), ok))
      else if key = ''HISTORY_LINES'' then
        (let (x, ok) = store_int (rq_HistoryLines r) v in ((r\<lparr>rq_HistoryLines := x\<rparr>, arr), ok))
      else if key = ''HAS_HISTORY'' then
        (let (x, ok) = store_bool (rq_HasHistory r) v in ((r\<lparr>rq_HasHistory := x\<rparr>, arr), ok))
      else if key = ''TEXT'' then (let (x, ok) = store_string (rq_Text r) v in ((r\<lparr>rq_Text := x\<rparr>, arr), ok))
      else if key = ''ENTER'' then (let (x, ok) = store_bool (rq_Enter r) v in ((r\<lparr>rq_Enter := x\<rparr>, arr), ok))
      else if key = ''KEYS'' then
        (let ((xs, arr'), ok) = store_strings (rq_Keys r, arr) v in ((r\<lparr>rq_Keys := xs\<rparr>, arr'), ok))
      else if key = ''MODE'' then (let (x, ok) = store_string (rq_Mode r) v in ((r\<lparr>rq_Mode := x\<rparr>, arr), ok))
      else if key = ''SENTINEL_TOKEN'' then
        (let (x, ok) = store_string (rq_SentinelToken r) v in ((r\<lparr>rq_SentinelToken := x\<rparr>, arr), ok))
      else if key = ''PATTERN'' then
        (let (x, ok) = store_string (rq_Pattern r) v in ((r\<lparr>rq_Pattern := x\<rparr>, arr), ok))
      else if key = ''QUIET_MS'' then (let (x, ok) = store_int (rq_QuietMs r) v in ((r\<lparr>rq_QuietMs := x\<rparr>, arr), ok))
      else if key = ''TIMEOUT_MS'' then
        (let (x, ok) = store_int (rq_TimeoutMs r) v in ((r\<lparr>rq_TimeoutMs := x\<rparr>, arr), ok))
      else (s, True))"

definition unmarshal_request :: "string \<Rightarrow> Request option" where
  "unmarshal_request s = map_option fst (json_unmarshal set_request_field (zero_request, []) s)"

subsection \<open>Responses\<close>

record Response =
  rs_OK :: bool
  rs_Body :: string
  rs_Error :: "ErrorResponse option"
  rs_Runtime :: string
  rs_Pid :: int

definition zero_response :: Response where
  "zero_response = \<lparr>rs_OK = False, rs_Body = [], rs_Error = None, rs_Runtime = [], rs_Pid = 0\<rparr>"

definition response_tail :: "Response \<Rightarrow> (bytes \<times> json) list" where
  "response_tail r =
     (case rs_Error r of None \<Rightarrow> [] | Some e \<Rightarrow> [(''error'', error_json e)])
     @ omit_string ''runtime'' (rs_Runtime r) @ omit_int ''pid'' (rs_Pid r)"

definition text_members :: "(bytes \<times> json) list \<Rightarrow> (bytes \<times> string) list" where
  "text_members kvs = map (\<lambda>(k, v). (k, json_print v)) kvs"

text \<open>\<open>None\<close> is the error of \<open>Marshal\<close> on a body that is not JSON.\<close>

definition marshal_response :: "Response \<Rightarrow> string option" where
  "marshal_response r =
     (let ok = text_members [(''ok'', JBool (rs_OK r))] in
      if rs_Body r = [] then Some (print_members (ok @ text_members (response_tail r)))
      else map_option (\<lambda>b. print_members (ok @ [(''body'', b)] @ text_members (response_tail r)))
             (json_compact (rs_Body r)))"

definition zero_error :: ErrorResponse where
  "zero_error = \<lparr>er_pane_id = [], er_code = [], er_message = []\<rparr>"

definition set_error_field :: "ErrorResponse \<Rightarrow> bytes \<Rightarrow> json \<Rightarrow> ErrorResponse \<times> bool" where
  "set_error_field e key v =
     (if key = ''PANE_ID'' then (let (x, ok) = store_string (er_pane_id e) v in (e\<lparr>er_pane_id := x\<rparr>, ok))
      else if key = ''CODE'' then (let (x, ok) = store_string (er_code e) v in (e\<lparr>er_code := x\<rparr>, ok))
      else if key = ''MESSAGE'' then (let (x, ok) = store_string (er_message e) v in (e\<lparr>er_message := x\<rparr>, ok))
      else (e, True))"

text \<open>The pointer field: \<open>null\<close> clears it, an object is decoded into what it points to.\<close>

fun store_error :: "ErrorResponse option \<Rightarrow> json \<Rightarrow> ErrorResponse option \<times> bool" where
  "store_error cur JNull = (None, True)"
| "store_error cur (JObj kvs) =
     (let (e, ok) = set_members set_error_field kvs (case cur of None \<Rightarrow> zero_error | Some e \<Rightarrow> e)
      in (Some e, ok))"
| "store_error cur _ = (cur, False)"

definition set_response_field :: "Response \<Rightarrow> bytes \<Rightarrow> string \<Rightarrow> Response \<times> bool" where
  "set_response_field r key raw =
     (let v = (case json_parse raw of Some v \<Rightarrow> v | None \<Rightarrow> JNull) in
      if key = ''OK'' then (let (x, ok) = store_bool (rs_OK r) v in (r\<lparr>rs_OK := x\<rparr>, ok))
      else if key = ''BODY'' then (r\<lparr>rs_Body := raw\<rparr>, True)
      else if key = ''ERROR'' then (let (x, ok) = store_error (rs_Error r) v in (r\<lparr>rs_Error := x\<rparr>, ok))
      else if key = ''RUNTIME'' then (let (x, ok) = store_string (rs_Runtime r) v in (r\<lparr>rs_Runtime := x\<rparr>, ok))
      else if key = ''PID'' then (let (x, ok) = store_int (rs_Pid r) v in (r\<lparr>rs_Pid := x\<rparr>, ok))
      else (r, True))"

definition unmarshal_response :: "string \<Rightarrow> Response option" where
  "unmarshal_response s = raw_unmarshal set_response_field zero_response s"

subsection \<open>What arrives of a request\<close>

text \<open>The integers of a Go value fit the width of \<open>int\<close>.\<close>

definition request_ints :: "Request \<Rightarrow> bool" where
  "request_ints r \<longleftrightarrow> in_int64 (rq_HistoryLines r) \<and> in_int64 (rq_QuietMs r) \<and> in_int64 (rq_TimeoutMs r)"

definition sanitize_request :: "Request \<Rightarrow> Request" where
  "sanitize_request r = r\<lparr>rq_Op := utf8_sanitize (rq_Op r), rq_Pane := utf8_sanitize (rq_Pane r),
     rq_After := utf8_sanitize (rq_After r), rq_Text := utf8_sanitize (rq_Text r),
     rq_Keys := map utf8_sanitize (rq_Keys r), rq_Mode := utf8_sanitize (rq_Mode r),
     rq_SentinelToken := utf8_sanitize (rq_SentinelToken r), rq_Pattern := utf8_sanitize (rq_Pattern r)\<rparr>"

definition request_utf8 :: "Request \<Rightarrow> bool" where
  "request_utf8 r \<longleftrightarrow> utf8_valid (rq_Op r) \<and> utf8_valid (rq_Pane r) \<and> utf8_valid (rq_After r) \<and>
     utf8_valid (rq_Text r) \<and> list_all utf8_valid (rq_Keys r) \<and> utf8_valid (rq_Mode r) \<and>
     utf8_valid (rq_SentinelToken r) \<and> utf8_valid (rq_Pattern r)"

lemma sanitize_request_utf8: "request_utf8 r \<Longrightarrow> sanitize_request r = r"
  by (simp add: request_utf8_def sanitize_request_def utf8_sanitize_valid list_all_iff map_idI)

lemma omit_ints: "list_all (\<lambda>kv. json_ints (snd kv)) (omit_string k s)"
    "list_all (\<lambda>kv. json_ints (snd kv)) (omit_int k z)"
    "list_all (\<lambda>kv. json_ints (snd kv)) (omit_bool k b)"
    "list_all (\<lambda>kv. json_ints (snd kv)) (omit_strings k ss)"
  by (auto simp: omit_defs)

lemma json_ints_obj: "json_ints (JObj kvs) \<longleftrightarrow> list_all (\<lambda>kv. json_ints (snd kv)) kvs"
  by (auto simp: list_all_iff)

lemma json_depth_obj:
  "json_depth (JObj kvs) \<le> Suc m \<longleftrightarrow> list_all (\<lambda>kv. json_depth (snd kv) \<le> m) kvs"
  by (induction kvs) auto

lemma depth_strs: "foldr (\<lambda>v m. max (json_depth v) m) (map JStr ss) 0 = 0"
  by (induction ss) auto

lemma omit_depth: "list_all (\<lambda>kv. json_depth (snd kv) \<le> 1) (omit_string k s)"
    "list_all (\<lambda>kv. json_depth (snd kv) \<le> 1) (omit_int k z)"
    "list_all (\<lambda>kv. json_depth (snd kv) \<le> 1) (omit_bool k b)"
    "list_all (\<lambda>kv. json_depth (snd kv) \<le> 1) (omit_strings k ss)"
  by (auto simp: omit_defs depth_strs)

lemma request_members_wf:
  "json_ints (JObj (request_members r))" "json_depth (JObj (request_members r)) \<le> 2"
proof -
  show "json_ints (JObj (request_members r))"
    unfolding json_ints_obj request_members_def list_all_append
    by (simp only: omit_ints list.pred_inject snd_conv json_ints.simps simp_thms)
  have "json_depth (JObj (request_members r)) \<le> Suc 1"
    unfolding json_depth_obj request_members_def list_all_append
    by (simp only: omit_depth list.pred_inject snd_conv json_depth.simps simp_thms)
  then show "json_depth (JObj (request_members r)) \<le> 2" by simp
qed

abbreviation read_member :: "bytes \<times> json \<Rightarrow> bytes \<times> json" where
  "read_member \<equiv> \<lambda>(k, v). (utf8_sanitize k, json_norm v)"

lemma request_names:
  "fold_name ''op'' = ''OP''" "fold_name ''pane'' = ''PANE''" "fold_name ''after'' = ''AFTER''"
  "fold_name ''history_lines'' = ''HISTORY_LINES''" "fold_name ''has_history'' = ''HAS_HISTORY''"
  "fold_name ''text'' = ''TEXT''" "fold_name ''enter'' = ''ENTER''" "fold_name ''keys'' = ''KEYS''"
  "fold_name ''mode'' = ''MODE''" "fold_name ''sentinel_token'' = ''SENTINEL_TOKEN''"
  "fold_name ''pattern'' = ''PATTERN''" "fold_name ''quiet_ms'' = ''QUIET_MS''"
  "fold_name ''timeout_ms'' = ''TIMEOUT_MS''"
  by code_simp+

lemma request_keys:
  "utf8_sanitize ''op'' = ''op''" "utf8_sanitize ''pane'' = ''pane''" "utf8_sanitize ''after'' = ''after''"
  "utf8_sanitize ''history_lines'' = ''history_lines''" "utf8_sanitize ''has_history'' = ''has_history''"
  "utf8_sanitize ''text'' = ''text''" "utf8_sanitize ''enter'' = ''enter''" "utf8_sanitize ''keys'' = ''keys''"
  "utf8_sanitize ''mode'' = ''mode''" "utf8_sanitize ''sentinel_token'' = ''sentinel_token''"
  "utf8_sanitize ''pattern'' = ''pattern''" "utf8_sanitize ''quiet_ms'' = ''quiet_ms''"
  "utf8_sanitize ''timeout_ms'' = ''timeout_ms''"
  by code_simp+

text \<open>Each piece of the object sets its field, where the field is still empty.\<close>

abbreviation set_piece :: "(bytes \<times> json) list \<Rightarrow> request_state \<Rightarrow> request_state \<times> bool" where
  "set_piece kvs \<equiv> set_members set_request_field (map read_member kvs)"

lemma empty_fields:
  "rq_Pane r = [] \<Longrightarrow> r\<lparr>rq_Pane := []\<rparr> = r" "rq_After r = [] \<Longrightarrow> r\<lparr>rq_After := []\<rparr> = r"
  "rq_HistoryLines r = 0 \<Longrightarrow> r\<lparr>rq_HistoryLines := 0\<rparr> = r"
  "\<not> rq_HasHistory r \<Longrightarrow> r\<lparr>rq_HasHistory := False\<rparr> = r"
  "rq_Text r = [] \<Longrightarrow> r\<lparr>rq_Text := []\<rparr> = r" "\<not> rq_Enter r \<Longrightarrow> r\<lparr>rq_Enter := False\<rparr> = r"
  "rq_Keys r = [] \<Longrightarrow> r\<lparr>rq_Keys := []\<rparr> = r" "rq_Mode r = [] \<Longrightarrow> r\<lparr>rq_Mode := []\<rparr> = r"
  "rq_SentinelToken r = [] \<Longrightarrow> r\<lparr>rq_SentinelToken := []\<rparr> = r"
  "rq_Pattern r = [] \<Longrightarrow> r\<lparr>rq_Pattern := []\<rparr> = r"
  "rq_QuietMs r = 0 \<Longrightarrow> r\<lparr>rq_QuietMs := 0\<rparr> = r" "rq_TimeoutMs r = 0 \<Longrightarrow> r\<lparr>rq_TimeoutMs := 0\<rparr> = r"
  by simp_all

lemma string_pieces:
  "set_piece [(''op'', JStr s)] (r, arr) = ((r\<lparr>rq_Op := utf8_sanitize s\<rparr>, arr), True)"
  "rq_Pane r = [] \<Longrightarrow> set_piece (omit_string ''pane'' s) (r, arr) = ((r\<lparr>rq_Pane := utf8_sanitize s\<rparr>, arr), True)"
  "rq_After r = [] \<Longrightarrow> set_piece (omit_string ''after'' s) (r, arr) = ((r\<lparr>rq_After := utf8_sanitize s\<rparr>, arr), True)"
  "rq_Text r = [] \<Longrightarrow> set_piece (omit_string ''text'' s) (r, arr) = ((r\<lparr>rq_Text := utf8_sanitize s\<rparr>, arr), True)"
  "rq_Mode r = [] \<Longrightarrow> set_piece (omit_string ''mode'' s) (r, arr) = ((r\<lparr>rq_Mode := utf8_sanitize s\<rparr>, arr), True)"
  "rq_SentinelToken r = [] \<Longrightarrow> set_piece (omit_string ''sentinel_token'' s) (r, arr) =
     ((r\<lparr>rq_SentinelToken := utf8_sanitize s\<rparr>, arr), True)"
  "rq_Pattern r = [] \<Longrightarrow> set_piece (omit_string ''pattern'' s) (r, arr) =
     ((r\<lparr>rq_Pattern := utf8_sanitize s\<rparr>, arr), True)"
  by (simp_all add: omit_string_def request_names request_keys set_request_field_def empty_fields
      del: fold_name.simps utf8_sanitize.simps(2))

lemma int_pieces:
  "in_int64 z \<Longrightarrow> rq_HistoryLines r = 0 \<Longrightarrow>
     set_piece (omit_int ''history_lines'' z) (r, arr) = ((r\<lparr>rq_HistoryLines := z\<rparr>, arr), True)"
  "in_int64 z \<Longrightarrow> rq_QuietMs r = 0 \<Longrightarrow>
     set_piece (omit_int ''quiet_ms'' z) (r, arr) = ((r\<lparr>rq_QuietMs := z\<rparr>, arr), True)"
  "in_int64 z \<Longrightarrow> rq_TimeoutMs r = 0 \<Longrightarrow>
     set_piece (omit_int ''timeout_ms'' z) (r, arr) = ((r\<lparr>rq_TimeoutMs := z\<rparr>, arr), True)"
  by (simp_all add: omit_int_def request_names request_keys set_request_field_def empty_fields
      del: fold_name.simps utf8_sanitize.simps(2))

lemma bool_pieces:
  "\<not> rq_HasHistory r \<Longrightarrow>
     set_piece (omit_bool ''has_history'' b) (r, arr) = ((r\<lparr>rq_HasHistory := b\<rparr>, arr), True)"
  "\<not> rq_Enter r \<Longrightarrow> set_piece (omit_bool ''enter'' b) (r, arr) = ((r\<lparr>rq_Enter := b\<rparr>, arr), True)"
  by (simp_all add: omit_bool_def request_names request_keys set_request_field_def empty_fields
      del: fold_name.simps utf8_sanitize.simps(2))

lemma keys_piece:
  "rq_Keys r = [] \<Longrightarrow> set_piece (omit_strings ''keys'' ss) (r, []) =
     ((r\<lparr>rq_Keys := map utf8_sanitize ss\<rparr>, map utf8_sanitize ss), True)"
  using store_elems_strs [of "map utf8_sanitize ss"]
  by (simp add: omit_strings_def request_names request_keys set_request_field_def empty_fields comp_def
      del: fold_name.simps utf8_sanitize.simps(2))

lemma request_reads:
  assumes "request_ints r"
  shows "set_piece (request_members r) (zero_request, []) = ((sanitize_request r, map utf8_sanitize (rq_Keys r)), True)"
  using assms unfolding request_members_def request_ints_def map_append set_members_append zero_request_def
  by (simp only: string_pieces int_pieces bool_pieces keys_piece Let_def prod.case Request.simps simp_thms)
    (simp add: sanitize_request_def)

lemma request_line:
  assumes "request_ints r"
  shows "unmarshal_request (marshal_request r @ [newline]) = Some (sanitize_request r)"
proof -
  have "json_depth (JObj (request_members r)) \<le> max_nesting"
    using request_members_wf(2) [of r] by (simp add: max_nesting_def)
  then have "json_parse (marshal_request r @ [newline]) = Some (JObj (map read_member (request_members r)))"
    using json_parse_line [OF request_members_wf(1)] by (simp add: marshal_request_def del: json_print.simps)
  then show ?thesis
    using request_reads [OF assms] by (simp add: unmarshal_request_def json_unmarshal_def)
qed

subsection \<open>What arrives of a response\<close>

definition sanitize_error :: "ErrorResponse \<Rightarrow> ErrorResponse" where
  "sanitize_error e = \<lparr>er_pane_id = utf8_sanitize (er_pane_id e), er_code = utf8_sanitize (er_code e),
     er_message = utf8_sanitize (er_message e)\<rparr>"

definition sanitize_response :: "Response \<Rightarrow> Response" where
  "sanitize_response r = r\<lparr>rs_Error := map_option sanitize_error (rs_Error r),
     rs_Runtime := utf8_sanitize (rs_Runtime r)\<rparr>"

text \<open>A body is absent or the output of \<open>Marshal\<close> on a payload.\<close>

definition body_ok :: "string \<Rightarrow> bool" where
  "body_ok b \<longleftrightarrow> b = [] \<or> (\<exists>v. b = json_print v \<and> json_ints v \<and> json_depth v < max_nesting)"

definition response_ok :: "Response \<Rightarrow> bool" where
  "response_ok r \<longleftrightarrow> body_ok (rs_Body r) \<and> in_int64 (rs_Pid r)"

lemma error_json_wf: "json_ints (error_json e)" "json_depth (error_json e) \<le> 1"
proof -
  show "json_ints (error_json e)"
    unfolding error_json_def json_ints_obj list_all_append
    by (simp only: omit_ints list.pred_inject snd_conv json_ints.simps simp_thms)
  have "list_all (\<lambda>kv. json_depth (snd kv) \<le> 0) (omit_string k s)" for k s
    by (auto simp: omit_string_def)
  then have "json_depth (error_json e) \<le> Suc 0"
    unfolding error_json_def json_depth_obj list_all_append by simp
  then show "json_depth (error_json e) \<le> 1" by simp
qed

lemma error_names:
  "fold_name ''pane_id'' = ''PANE_ID''" "fold_name ''code'' = ''CODE''" "fold_name ''message'' = ''MESSAGE''"
  "utf8_sanitize ''pane_id'' = ''pane_id''" "utf8_sanitize ''code'' = ''code''"
  "utf8_sanitize ''message'' = ''message''"
  by code_simp+

lemma error_reads: "store_error None (json_norm (error_json e)) = (Some (sanitize_error e), True)"
  by (cases "er_pane_id e = []")
    (simp_all add: error_json_def omit_string_def error_names set_error_field_def zero_error_def
      sanitize_error_def del: fold_name.simps utf8_sanitize.simps(2))

lemma response_names:
  "fold_name ''ok'' = ''OK''" "fold_name ''body'' = ''BODY''" "fold_name ''error'' = ''ERROR''"
  "fold_name ''runtime'' = ''RUNTIME''" "fold_name ''pid'' = ''PID''"
  "utf8_sanitize ''ok'' = ''ok''" "utf8_sanitize ''body'' = ''body''" "utf8_sanitize ''error'' = ''error''"
  "utf8_sanitize ''runtime'' = ''runtime''" "utf8_sanitize ''pid'' = ''pid''"
  by code_simp+

abbreviation raw_piece :: "(bytes \<times> json) list \<Rightarrow> Response \<Rightarrow> Response \<times> bool" where
  "raw_piece kvs \<equiv> set_raw_members set_response_field (map (\<lambda>(k, v). (utf8_sanitize k, json_print v)) kvs)"

lemma json_parse_leaf:
  "json_parse (json_print (JBool b)) = Some (JBool b)" "json_parse (json_print (JStr s)) = Some (JStr (utf8_sanitize s))"
  "json_parse (json_print (JNum (itoa z))) = Some (JNum (itoa z))"
  "json_parse (json_print (error_json e)) = Some (json_norm (error_json e))"
proof -
  show "json_parse (json_print (error_json e)) = Some (json_norm (error_json e))"
    using error_json_wf [of e] by (intro json_parse_print) (simp_all add: max_nesting_def)
qed (use json_parse_print [of "JBool b"] json_parse_print [of "JStr s"] json_parse_print [of "JNum (itoa z)"]
  in \<open>auto simp del: json_print.simps\<close>)

lemma response_pieces:
  "raw_piece [] r = (r, True)"
  "raw_piece [(''ok'', JBool b)] r = (r\<lparr>rs_OK := b\<rparr>, True)"
  "raw_piece [(''body'', v)] r = (r\<lparr>rs_Body := json_print v\<rparr>, True)"
  "rs_Error r = None \<Longrightarrow> raw_piece [(''error'', error_json e)] r = (r\<lparr>rs_Error := Some (sanitize_error e)\<rparr>, True)"
  "rs_Runtime r = [] \<Longrightarrow> raw_piece (omit_string ''runtime'' s) r = (r\<lparr>rs_Runtime := utf8_sanitize s\<rparr>, True)"
  "in_int64 z \<Longrightarrow> rs_Pid r = 0 \<Longrightarrow> raw_piece (omit_int ''pid'' z) r = (r\<lparr>rs_Pid := z\<rparr>, True)"
  by (simp_all add: omit_string_def omit_int_def response_names set_response_field_def json_parse_leaf error_reads
      del: fold_name.simps utf8_sanitize.simps(2) json_print.simps)

definition response_tree :: "Response \<Rightarrow> json option \<Rightarrow> (bytes \<times> json) list" where
  "response_tree r body = [(''ok'', JBool (rs_OK r))]
     @ (case body of None \<Rightarrow> [] | Some v \<Rightarrow> [(''body'', v)]) @ response_tail r"

lemma response_tree_wf:
  assumes "\<And>v. body = Some v \<Longrightarrow> json_ints v \<and> json_depth v < max_nesting"
  shows "json_ints (JObj (response_tree r body))" "json_depth (JObj (response_tree r body)) \<le> max_nesting"
proof -
  show "json_ints (JObj (response_tree r body))"
    unfolding json_ints_obj response_tree_def response_tail_def list_all_append
    using assms error_json_wf by (simp add: omit_ints split: option.split)
  obtain m where m: "max_nesting = Suc m" "1 \<le> m" by (simp add: max_nesting_def)
  have "list_all (\<lambda>kv. json_depth (snd kv) \<le> m) (omit_string k s)"
    "list_all (\<lambda>kv. json_depth (snd kv) \<le> m) (omit_int k z)" for k s z
    by (auto simp: omit_defs)
  then show "json_depth (JObj (response_tree r body)) \<le> max_nesting"
    unfolding m(1) json_depth_obj response_tree_def response_tail_def list_all_append
    using assms order_trans [OF error_json_wf(2) m(2)] m by (auto split: option.split simp: less_Suc_eq_le)
qed

lemma response_tree_reads:
  assumes "in_int64 (rs_Pid r)"
  shows "raw_piece (response_tree r body) zero_response =
    (sanitize_response r\<lparr>rs_Body := (case body of None \<Rightarrow> [] | Some v \<Rightarrow> json_print v)\<rparr>, True)"
  using assms unfolding response_tree_def response_tail_def map_append set_raw_members_append zero_response_def
  by (cases body; cases "rs_Error r")
    (simp_all only: response_pieces Let_def prod.case Response.simps simp_thms option.case,
      simp_all add: sanitize_response_def)

lemma marshal_tree:
  "rs_Body r = [] \<Longrightarrow> marshal_response r = Some (json_print (JObj (response_tree r None)))"
  "rs_Body r = json_print v \<Longrightarrow> json_ints v \<Longrightarrow> json_depth v < max_nesting \<Longrightarrow>
     marshal_response r = Some (json_print (JObj (response_tree r (Some v))))"
proof -
  have t: "text_members a @ text_members b = text_members (a @ b)"
    "[(k, json_print v)] = text_members [(k, v)]" "print_members (text_members a) = json_print (JObj a)" for a b k
    by (simp_all only: text_members_def print_members_print) (simp_all add: case_prod_unfold)
  show "rs_Body r = [] \<Longrightarrow> marshal_response r = Some (json_print (JObj (response_tree r None)))"
    unfolding marshal_response_def Let_def t
    by (simp only: if_True simp_thms response_tree_def option.case append_Nil)
  assume v: "rs_Body r = json_print v" "json_ints v" "json_depth v < max_nesting"
  then have "json_compact (rs_Body r) = Some (json_print v)" "rs_Body r \<noteq> []"
    using json_compact_print json_print_head [of v] by auto
  then show "marshal_response r = Some (json_print (JObj (response_tree r (Some v))))"
    unfolding marshal_response_def Let_def
    by (simp only: if_False option.map t response_tree_def option.case)
qed

text \<open>The text of a response is one line, and reads back.\<close>

lemma response_line:
  assumes "response_ok r"
  obtains l where "marshal_response r = Some l" "newline \<notin> set l"
    "unmarshal_response (l @ [newline]) = Some (sanitize_response r)"
proof -
  obtain body where b: "\<And>v. body = Some v \<Longrightarrow> json_ints v \<and> json_depth v < max_nesting"
    "marshal_response r = Some (json_print (JObj (response_tree r body)))"
    "rs_Body r = (case body of None \<Rightarrow> [] | Some v \<Rightarrow> json_print v)"
  proof (cases "rs_Body r = []")
    case True
    with that [of None] marshal_tree(1) show ?thesis by simp
  next
    case False
    with assms obtain v where "rs_Body r = json_print v" "json_ints v" "json_depth v < max_nesting"
      by (auto simp: response_ok_def body_ok_def)
    with that [of "Some v"] marshal_tree(2) show ?thesis by simp
  qed
  note wf = response_tree_wf [where r = r, OF b(1)]
  have "unmarshal_response (json_print (JObj (response_tree r body)) @ [newline]) = Some (sanitize_response r)"
    using raw_unmarshal_print [where f = set_response_field and zero = zero_response, OF wf]
      response_tree_reads [of r body] assms b(3)
    by (simp add: unmarshal_response_def response_ok_def sanitize_response_def del: json_print.simps)
  with that b(2) json_print_line [OF wf(1)] show ?thesis by blast
qed

subsection \<open>Messages as lines\<close>

text \<open>
  The contract of the wire that the server and the client rest on: a good message is
  printed as one line, and whoever reads that line gets the message, with its texts made
  well-formed.
\<close>

locale line_codec =
  fixes encode :: "'r \<Rightarrow> string option"
    and decode :: "string \<Rightarrow> 'r option"
    and clean :: "'r \<Rightarrow> 'r"
    and good :: "'r \<Rightarrow> bool"
  assumes encode_good: "good r \<Longrightarrow> \<exists>l. encode r = Some l \<and> newline \<notin> set l \<and> decode (l @ [newline]) = Some (clean r)"
begin

lemma one_line: "good r \<Longrightarrow> encode r = Some l \<Longrightarrow> read_line (l @ newline # t) = Some (l @ [newline])"
  using encode_good [of r] read_line_first by auto

lemma received: "good r \<Longrightarrow> encode r = Some l \<Longrightarrow> decode (l @ [newline]) = Some (clean r)"
  using encode_good [of r] by auto

lemma read_first: "good r \<Longrightarrow> encode r = Some l \<Longrightarrow> Option.bind (read_line (l @ newline # t)) decode = Some (clean r)"
  by (simp add: one_line received)

text \<open>Messages with well-formed texts are told apart by their lines.\<close>

lemma told_apart: "good r \<Longrightarrow> good r' \<Longrightarrow> encode r = encode r' \<Longrightarrow> clean r = clean r'"
  using encode_good [of r] encode_good [of r'] by auto

end

interpretation requests: line_codec "\<lambda>r. Some (marshal_request r)" unmarshal_request sanitize_request request_ints
proof unfold_locales
  fix r assume "request_ints r"
  from request_line [OF this] json_print_line [OF request_members_wf(1), of r]
  show "\<exists>l. Some (marshal_request r) = Some l \<and> newline \<notin> set l \<and> unmarshal_request (l @ [newline]) = Some (sanitize_request r)"
    by (simp add: marshal_request_def)
qed

interpretation responses: line_codec marshal_response unmarshal_response sanitize_response response_ok
proof unfold_locales
  fix r assume "response_ok r"
  then show "\<exists>l. marshal_response r = Some l \<and> newline \<notin> set l \<and> unmarshal_response (l @ [newline]) = Some (sanitize_response r)"
    by (rule response_line) blast
qed

subsection \<open>Payloads are bodies\<close>

lemma body_okI: "json_ints v \<Longrightarrow> json_depth v \<le> 2 \<Longrightarrow> body_ok (json_print v)"
  by (auto simp: body_ok_def max_nesting_def)

lemma payload_bodies:
  "body_ok (json_print (list_json lr))" "body_ok (json_print (snapshot_json sr))"
  "body_ok (json_print (read_json rr))" "body_ok (json_print (wait_json wr))"
  by (rule body_okI; auto simp: list_json_def snapshot_json_def read_json_def wait_json_def depth_strs
        split: option.split)+

lemma body_not_Nil: "json_ints v \<Longrightarrow> json_print v \<noteq> []"
  using json_print_head [of v] by auto

lemma payloads_not_Nil:
  "json_print (list_json lr) \<noteq> []" "json_print (snapshot_json sr) \<noteq> []"
  "json_print (read_json rr) \<noteq> []" "json_print (wait_json wr) \<noteq> []"
  by (simp_all add: list_json_def snapshot_json_def read_json_def wait_json_def)

end
