(* ===== verification/Fmt.thy ===== *)
theory Fmt
  imports Json
begin

section \<open>Fmt: the \<open>%q\<close> verb\<close>

text \<open>
  \<open>strconv.Quote\<close>, which \<open>fmt\<close> uses for \<open>%q\<close>. Which runes outside ASCII are printable
  is the Unicode table of the library, the parameter \<open>printable\<close>.
\<close>

definition hex_of :: "nat \<Rightarrow> nat \<Rightarrow> string" where
  "hex_of digits n = map (\<lambda>i. hex_digit (n div 16 ^ i mod 16)) (rev [0..<digits])"

definition is_print :: "(nat \<Rightarrow> bool) \<Rightarrow> nat \<Rightarrow> bool" where
  "is_print printable r \<longleftrightarrow> (if r < 0x80 then 0x20 \<le> r \<and> r < 0x7F else printable r)"

definition quote_rune :: "(nat \<Rightarrow> bool) \<Rightarrow> nat \<Rightarrow> string" where
  "quote_rune printable r =
     (if r = 0x22 \<or> r = 0x5C then [CHR 0x5C, char_of r]
      else if is_print printable r then encode_rune r
      else if r = 0x07 then [CHR 0x5C, CHR ''a''] else if r = 0x08 then [CHR 0x5C, CHR ''b'']
      else if r = 0x0C then [CHR 0x5C, CHR ''f''] else if r = 0x0A then [CHR 0x5C, CHR ''n'']
      else if r = 0x0D then [CHR 0x5C, CHR ''r''] else if r = 0x09 then [CHR 0x5C, CHR ''t'']
      else if r = 0x0B then [CHR 0x5C, CHR ''v'']
      else if r < 0x20 \<or> r = 0x7F then [CHR 0x5C, CHR ''x''] @ hex_of 2 r
      else if r < 0x10000 then [CHR 0x5C, CHR ''u''] @ hex_of 4 r
      else [CHR 0x5C, CHR ''U''] @ hex_of 8 r)"

fun quote_bytes :: "(nat \<Rightarrow> bool) \<Rightarrow> bytes \<Rightarrow> string" where
  "quote_bytes printable [] = []"
| "quote_bytes printable (c # cs) =
     (case utf8_seq (c # cs) of
        None \<Rightarrow> [CHR 0x5C, CHR ''x''] @ hex_of 2 (of_char c) @ quote_bytes printable cs
      | Some (r, n) \<Rightarrow> quote_rune printable r @ quote_bytes printable (drop (n - 1) cs))"

definition go_quote :: "(nat \<Rightarrow> bool) \<Rightarrow> bytes \<Rightarrow> string" where
  "go_quote printable s = [CHR 0x22] @ quote_bytes printable s @ [CHR 0x22]"

end
