(* ===== verification/Dispatch.thy ===== *)
theory Dispatch
  imports WaitOutcome Protocol Fmt
begin

section \<open>Dispatch: from a request to a response (internal/ipc/dispatch.go)\<close>

text \<open>
  \<open>Dispatch\<close> runs one request against the controller. What it meets besides the request
  is a \<open>backend\<close>: the methods of the port, the instant, the store the second critical
  section of a read finds given the first one's, the outcome of a wait among those theory
  Wait allows, and \<open>regexp.Compile\<close> with the text of its error. The world is the port's
  and the store; \<open>None\<close> is the panic of a store with no capacity.
\<close>

record 'w backend =
  bk_list :: "'w \<Rightarrow> (go_error + PaneID list) \<times> 'w"
  bk_capture :: "PaneID \<Rightarrow> 'w \<Rightarrow> (go_error + string) \<times> 'w"
  bk_scroll :: "PaneID \<Rightarrow> int \<Rightarrow> 'w \<Rightarrow> (go_error + string) \<times> 'w"
  bk_text :: "PaneID \<Rightarrow> string \<Rightarrow> bool \<Rightarrow> 'w \<Rightarrow> go_error option \<times> 'w"
  bk_keys :: "PaneID \<Rightarrow> string list \<Rightarrow> 'w \<Rightarrow> go_error option \<times> 'w"
  bk_now :: instant
  bk_meanwhile :: "Store \<Rightarrow> Store"
  bk_wait :: "WaitRequest \<Rightarrow> Store \<Rightarrow> (go_error + WaitResponse) \<times> Store"
  bk_compile :: "string \<Rightarrow> string + find_index"
  bk_printable :: "nat \<Rightarrow> bool"

definition cmd_err :: "ErrorResponse \<Rightarrow> Response" where
  "cmd_err e = zero_response\<lparr>rs_Error := Some e\<rparr>"

definition runtime_err :: "string \<Rightarrow> Response" where
  "runtime_err msg = zero_response\<lparr>rs_Runtime := msg\<rparr>"

definition ok_response :: "string \<Rightarrow> Response" where
  "ok_response body = zero_response\<lparr>rs_OK := True, rs_Body := body\<rparr>"

definition classify_err :: "go_error \<Rightarrow> Response" where
  "classify_err e = (case e of Command ce \<Rightarrow> cmd_err ce | _ \<Rightarrow> runtime_err (error_string e))"

text \<open>\<open>Marshal\<close> cannot fail on the payloads, structs of strings and integers.\<close>

definition marshal_body :: "('a \<Rightarrow> json) \<Rightarrow> go_error + 'a \<Rightarrow> Response" where
  "marshal_body enc res =
     (case res of Inl e \<Rightarrow> classify_err e | Inr payload \<Rightarrow> ok_response (json_print (enc payload)))"

definition unit_result :: "go_error option \<Rightarrow> Response" where
  "unit_result res = (case res of Some e \<Rightarrow> classify_err e | None \<Rightarrow> ok_response [])"

definition wait_request :: "Request \<Rightarrow> WaitMode \<Rightarrow> find_index option \<Rightarrow> WaitRequest" where
  "wait_request req mode re =
     \<lparr>wq_PaneID = rq_Pane req, wq_After = rq_After req, wq_Timeout = dur_ms (rq_TimeoutMs req),
      wq_Mode = mode, wq_SentinelToken = rq_SentinelToken req,
      wq_QuietWindow = dur_ms (rq_QuietMs req), wq_Regex = re\<rparr>"

definition dispatch_wait :: "'w backend \<Rightarrow> Request \<Rightarrow> Store \<Rightarrow> Response \<times> Store" where
  "dispatch_wait b req st =
     (if rq_TimeoutMs req \<le> 0
        then (cmd_err (invalid_args (rq_Pane req) ''wait requires a positive timeout_ms''), st)
      else
        let parsed =
          (if rq_Mode req = ''sentinel'' then Inr (WaitModeSentinel, None)
           else if rq_Mode req = ''quiescence'' then Inr (WaitModeQuiescence, None)
           else if rq_Mode req = ''regex'' then
             (if rq_Pattern req = []
                then Inl (invalid_args (rq_Pane req) ''regex mode requires pattern'')
              else case bk_compile b (rq_Pattern req) of
                Inl e \<Rightarrow> Inl (error_response (rq_Pane req) ErrInvalidRegex (''invalid pattern: '' @ e))
              | Inr r \<Rightarrow> Inr (WaitModeRegex, Some r))
           else Inl (invalid_args (rq_Pane req) (''unknown wait mode: '' @ rq_Mode req)))
        in case parsed of
             Inl e \<Rightarrow> (cmd_err e, st)
           | Inr (mode, re) \<Rightarrow>
               (let (res, st') = bk_wait b (wait_request req mode re) st
                in (marshal_body wait_json res, st')))"

definition Dispatch :: "'w backend \<Rightarrow> Request \<Rightarrow> 'w \<times> Store \<Rightarrow> (Response \<times> 'w \<times> Store) option" where
  "Dispatch b req ws =
     (let (w, st) = ws; pid = rq_Pane req in
      if rq_Op req = OpList then
        (let (res, w') = List_panes (bk_list b) w in Some (marshal_body list_json res, w', st))
      else if rq_Op req = OpSnapshot then
        map_option (\<lambda>(res, w', st'). (marshal_body snapshot_json res, w', st'))
          (Snapshot (bk_capture b) (bk_scroll b) (bk_now b) pid
             (if rq_HasHistory req then Some (rq_HistoryLines req) else None) w st)
      else if rq_Op req = OpRead then
        (if rq_After req = []
           then Some (cmd_err (error_response pid ErrMissingAfter
                  ''read requires --after; use snapshot to bootstrap''), w, st)
         else Some (marshal_body read_json (Read_cmd (bk_now b) pid (rq_After req) st (bk_meanwhile b st)),
                w, bk_meanwhile b st))
      else if rq_Op req = OpText then
        (let (res, w') = SendText_cmd (bk_text b) pid (rq_Text req) (rq_Enter req) w
         in Some (unit_result res, w', st))
      else if rq_Op req = OpKey then
        (if rq_Keys req = []
           then Some (cmd_err (invalid_args pid ''key requires at least one token''), w, st)
         else let (res, w') = SendKeys_cmd (bk_keys b) pid (rq_Keys req) w
              in Some (unit_result res, w', st))
      else if rq_Op req = OpWait then
        (let (res, st') = dispatch_wait b req st in Some (res, w, st'))
      else Some (runtime_err (''unknown op '' @ go_quote (bk_printable b) (rq_Op req)), w, st))"

subsection \<open>What a wait may answer\<close>

text \<open>
  The outcomes the wait loop can reach: a request refused before it starts, or the final
  state of a run of the loop, whose deferred cancel then drops the watcher.
\<close>

inductive wait_outcome :: "WaitRequest \<Rightarrow> instant \<Rightarrow> Store \<Rightarrow> go_error + WaitResponse \<Rightarrow> Store \<Rightarrow> bool" where
  refused: "wait_start req now st = Inl er \<Longrightarrow> wait_outcome req now st (Inl (Command er)) st"
| ran: "wait_start req now st = Inr (E, w0) \<Longrightarrow> wait_run E w0 w \<Longrightarrow> ww_pc w = WDone res \<Longrightarrow>
    wait_outcome req now st res (Store_cancel (we_sig E) (ww_store w))"

inductive_cases wait_outcomeE: "wait_outcome req now st res st'"

definition store_ok :: "string \<Rightarrow> Store \<Rightarrow> bool" where
  "store_ok inst st \<longleftrightarrow> (\<exists>H. store_rep st H) \<and> st_instance st = inst"

definition honest_waits :: "'w backend \<Rightarrow> bool" where
  "honest_waits b \<longleftrightarrow> (\<forall>req st. store_ok (st_instance st) st \<longrightarrow>
     wait_outcome req (bk_now b) st (fst (bk_wait b req st)) (snd (bk_wait b req st)))"

text \<open>Every wait has an outcome, so there are such backends.\<close>

lemma wait_outcome_exists:
  assumes "store_ok inst st"
  shows "\<exists>res st'. wait_outcome req now st res st'"
proof (cases "wait_start req now st")
  case (Inl er)
  then show ?thesis by (blast intro: wait_outcome.refused)
next
  case (Inr x)
  obtain E w0 where x: "x = (E, w0)" by (cases x)
  from assms obtain H where H: "store_rep st H" by (auto simp: store_ok_def)
  have ok: "wait_ok (st_instance st) E w0" using wait_ok_start(1) [OF _ H] Inr x by blast
  let ?w = "w0\<lparr>ww_now := ww_now w0 + max 0 (we_deadline E - ww_now w0)\<rparr>"
  have "wait_step E w0 ?w" by (rule tick) simp
  moreover have "finishes E ?w" using ok by (auto simp: wait_ok_def intro!: finish_any)
  ultimately have "finishes E w0" by (rule finish_step)
  then show ?thesis using wait_outcome.ran [OF Inr [unfolded x]] by (auto simp: finishes_def)
qed

lemma honest_waiter:
  "\<exists>f. \<forall>req st. store_ok (st_instance st) st \<longrightarrow> wait_outcome req now st (fst (f req st)) (snd (f req st))"
proof -
  have "\<forall>req st. \<exists>p. store_ok (st_instance st) st \<longrightarrow> wait_outcome req now st (fst p) (snd p)"
    using wait_outcome_exists by (metis fst_conv snd_conv)
  then have "\<forall>req. \<exists>g. \<forall>st. store_ok (st_instance st) st \<longrightarrow> wait_outcome req now st (fst (g st)) (snd (g st))"
    by (intro allI choice) blast
  then show ?thesis by (rule choice)
qed

subsection \<open>The shape of the answers\<close>

definition op_codes :: "Op \<Rightarrow> ErrorCode set" where
  "op_codes op =
     (if op = OpSnapshot \<or> op = OpText then {ErrPaneNotFound}
      else if op = OpRead then {ErrMissingAfter, ErrInvalidAfter, ErrPaneNotFound}
      else if op = OpKey then {ErrInvalidArgs, ErrInvalidKey, ErrPaneNotFound}
      else if op = OpWait then {ErrMissingAfter, ErrInvalidArgs, ErrInvalidRegex, ErrInvalidAfter,
        ErrPaneNotFound, ErrPaneClosed, ErrTimeout}
      else {})"

text \<open>The body of a success: the payload of the operation, for the pane asked for.\<close>

definition body_typed :: "Request \<Rightarrow> string \<Rightarrow> bool" where
  "body_typed req body \<longleftrightarrow>
     (if rq_Op req = OpList then \<exists>r. body = json_print (list_json r)
      else if rq_Op req = OpSnapshot then \<exists>r. body = json_print (snapshot_json r) \<and>
        sr_pane_id r = rq_Pane req \<and> (sr_scrollback_text r \<noteq> None \<longleftrightarrow> rq_HasHistory req)
      else if rq_Op req = OpRead then \<exists>r. body = json_print (read_json r) \<and> rr_pane_id r = rq_Pane req
      else if rq_Op req = OpWait then \<exists>r. body = json_print (wait_json r) \<and> wr_pane_id r = rq_Pane req
        \<and> (wr_matched r \<noteq> None \<longleftrightarrow> rq_Mode req \<noteq> ''quiescence'') \<and> (wr_exit_code r \<noteq> None \<longleftrightarrow> rq_Mode req = ''sentinel'')
      else (rq_Op req = OpText \<or> rq_Op req = OpKey) \<and> body = [])"

datatype answer = Success string | CommandError ErrorResponse | RuntimeError string

fun answer_response :: "answer \<Rightarrow> Response" where
  "answer_response (Success body) = ok_response body"
| "answer_response (CommandError e) = cmd_err e"
| "answer_response (RuntimeError msg) = runtime_err msg"

fun answer_typed :: "Request \<Rightarrow> answer \<Rightarrow> bool" where
  "answer_typed req (Success body) \<longleftrightarrow> body_typed req body"
| "answer_typed req (CommandError e) \<longleftrightarrow> er_pane_id e = rq_Pane req \<and> er_code e \<in> op_codes (rq_Op req)"
| "answer_typed req (RuntimeError msg) \<longleftrightarrow> True"

definition well_typed :: "Request \<Rightarrow> Response \<Rightarrow> bool" where
  "well_typed req resp \<longleftrightarrow> (\<exists>a. resp = answer_response a \<and> answer_typed req a)"

named_theorems typed_intros

lemma typed_ok [typed_intros]: "body_typed req body \<Longrightarrow> well_typed req (ok_response body)"
  unfolding well_typed_def by (rule exI [of _ "Success body"]) simp

lemma typed_cmd [typed_intros]:
  "er_pane_id e = rq_Pane req \<Longrightarrow> er_code e \<in> op_codes (rq_Op req) \<Longrightarrow> well_typed req (cmd_err e)"
  unfolding well_typed_def by (rule exI [of _ "CommandError e"]) simp

lemma typed_runtime [typed_intros]: "well_typed req (runtime_err msg)"
  unfolding well_typed_def by (rule exI [of _ "RuntimeError msg"]) simp

text \<open>A command-level error of a handler is about the pane and has a code of the operation.\<close>

definition blames :: "Request \<Rightarrow> go_error \<Rightarrow> bool" where
  "blames req e \<longleftrightarrow> (case e of Command r \<Rightarrow> er_pane_id r = rq_Pane req \<and> er_code r \<in> op_codes (rq_Op req) | _ \<Rightarrow> True)"

lemma blames_command: "command_error (rq_Pane req) codes e \<Longrightarrow> codes \<subseteq> op_codes (rq_Op req) \<Longrightarrow> blames req e"
  by (auto simp: blames_def command_error_def split: go_error.splits)

lemma blames_port: "port_failure e \<Longrightarrow> blames req e"
  by (auto simp: blames_def port_failure_def)

lemma typed_classify [typed_intros]: "blames req e \<Longrightarrow> well_typed req (classify_err e)"
  by (cases e) (auto simp: classify_err_def blames_def intro: typed_intros)

lemma typed_body:
  assumes "\<And>e. res = Inl e \<Longrightarrow> blames req e"
    and "\<And>r. res = Inr r \<Longrightarrow> body_typed req (json_print (enc r))"
  shows "well_typed req (marshal_body enc res)"
  using assms by (auto simp: marshal_body_def split: sum.split intro: typed_intros)

lemma typed_unit:
  assumes "\<And>e. res = Some e \<Longrightarrow> blames req e" and "body_typed req []"
  shows "well_typed req (unit_result res)"
  using assms by (auto simp: unit_result_def split: option.split intro: typed_intros)

lemma ops_distinct [simp]:
  "distinct [OpList, OpSnapshot, OpRead, OpText, OpKey, OpWait, OpShutdown]"
  by (simp add: op_defs)

lemma op_codes_simps [simp]:
  "op_codes OpList = {}" "op_codes OpSnapshot = {ErrPaneNotFound}" "op_codes OpText = {ErrPaneNotFound}"
  "op_codes OpRead = {ErrMissingAfter, ErrInvalidAfter, ErrPaneNotFound}"
  "op_codes OpKey = {ErrInvalidArgs, ErrInvalidKey, ErrPaneNotFound}"
  "op_codes OpWait = {ErrMissingAfter, ErrInvalidArgs, ErrInvalidRegex, ErrInvalidAfter,
        ErrPaneNotFound, ErrPaneClosed, ErrTimeout}"
  by (simp_all add: op_codes_def op_defs)

lemma body_typed_simps [simp]:
  "rq_Op req = OpList \<Longrightarrow> body_typed req body \<longleftrightarrow> (\<exists>r. body = json_print (list_json r))"
  "rq_Op req = OpSnapshot \<Longrightarrow> body_typed req body \<longleftrightarrow> (\<exists>r. body = json_print (snapshot_json r) \<and>
        sr_pane_id r = rq_Pane req \<and> (sr_scrollback_text r \<noteq> None \<longleftrightarrow> rq_HasHistory req))"
  "rq_Op req = OpRead \<Longrightarrow> body_typed req body \<longleftrightarrow>
     (\<exists>r. body = json_print (read_json r) \<and> rr_pane_id r = rq_Pane req)"
  "rq_Op req = OpWait \<Longrightarrow> body_typed req body \<longleftrightarrow> (\<exists>r. body = json_print (wait_json r) \<and> wr_pane_id r = rq_Pane req
        \<and> (wr_matched r \<noteq> None \<longleftrightarrow> rq_Mode req \<noteq> ''quiescence'') \<and> (wr_exit_code r \<noteq> None \<longleftrightarrow> rq_Mode req = ''sentinel''))"
  "rq_Op req = OpText \<Longrightarrow> body_typed req body \<longleftrightarrow> body = []"
  "rq_Op req = OpKey \<Longrightarrow> body_typed req body \<longleftrightarrow> body = []"
  by (simp_all add: body_typed_def op_defs)

lemma read_errors:
  assumes "Read_cmd now pid after s1 s2 = Inl e"
  shows "command_error pid {ErrInvalidAfter, ErrPaneNotFound} e"
proof -
  have t: "e = ErrTokenMalformed" if "decodeToken after = Inl e" for e
    using that by (auto simp: decodeToken_def split: option.splits)
  show ?thesis
    using assms t unfolding Read_cmd_def Store_Read_def
    by (auto split: sum.splits option.splits prod.splits if_splits)
qed

lemma read_pane: "Read_cmd now pid after s1 s2 = Inr r \<Longrightarrow> rr_pane_id r = pid"
  by (auto simp: Read_cmd_def split: sum.splits prod.splits if_splits)

lemma wait_match_typed:
  assumes "wait_match req out tok = Some r"
  shows "wr_pane_id r = wq_PaneID req \<and> wr_matched r \<noteq> None \<and> (wr_exit_code r \<noteq> None \<longleftrightarrow> wq_Mode req = WaitModeSentinel)"
  using assms by (auto simp: wait_match_def split: WaitMode.splits option.splits)

lemma wait_outcome_typed:
  assumes "wait_outcome req now st res st'" and "store_rep st H"
  shows "case res of
      Inl e \<Rightarrow> command_error (wq_PaneID req) (op_codes OpWait) e
    | Inr r \<Rightarrow> wr_pane_id r = wq_PaneID req \<and> (wr_matched r \<noteq> None \<longleftrightarrow> wq_Mode req \<noteq> WaitModeQuiescence)
        \<and> (wr_exit_code r \<noteq> None \<longleftrightarrow> wq_Mode req = WaitModeSentinel)"
  using assms(1)
proof (cases rule: wait_outcome.cases)
  case (refused er)
  then have "wait_validate req = Some er" by (auto simp: wait_start_def Let_def split: option.splits prod.splits)
  then have "er_pane_id er = wq_PaneID req \<and> er_code er \<in> {ErrMissingAfter, ErrInvalidArgs}"
    by (auto simp: wait_validate_def invalid_args_def Let_def split: if_splits WaitMode.splits)
  with refused show ?thesis by auto
next
  case (ran E w0 w)
  note reason = wait_reason_run [OF ran(3) wait_ok_start(1,2) [OF ran(2) assms(2)]]
  have req: "we_req E = req" using wait_ok_start(3) [OF ran(2) assms(2)] .
  show ?thesis
  proof (cases res)
    case (Inl e)
    with reason ran(4) req show ?thesis
      by (auto simp: ctx_canceled_def wait_timed_out_def)
  next
    case (Inr r)
    show ?thesis
    proof (cases "wq_Mode req = WaitModeQuiescence")
      case True
      with reason ran(4) req Inr obtain tok where "r = quiescence_response E tok" by auto
      with True req Inr show ?thesis by (simp add: quiescence_response_def)
    next
      case False
      with reason ran(4) req Inr obtain w1 out tok where "wait_match req out tok = Some r"
        by (auto simp: passed_def)
      with wait_match_typed [OF this] False Inr show ?thesis by simp
    qed
  qed
qed

subsection \<open>Dispatch over any port\<close>

text \<open>Between two critical sections the store only goes through its own operations.\<close>

definition honest_store :: "'w backend \<Rightarrow> bool" where
  "honest_store b \<longleftrightarrow> (\<forall>st. \<exists>xs. bk_meanwhile b st = the (store_run xs st))"

definition honest :: "'w backend \<Rightarrow> bool" where
  "honest b \<longleftrightarrow> honest_waits b \<and> honest_store b"

lemma store_ok_run:
  assumes "store_ok inst st"
  shows "\<exists>st'. store_run xs st = Some st' \<and> store_ok inst st'"
proof -
  from assms obtain H where H: "store_rep st H" "st_instance st = inst" by (auto simp: store_ok_def)
  show ?thesis by (rule store_run_rep [OF H(1), of xs]) (use H(2) in \<open>auto simp: store_ok_def\<close>)
qed

lemma store_ok_meanwhile:
  assumes "honest_store b" and "store_ok inst st"
  shows "store_ok inst (bk_meanwhile b st)"
proof -
  obtain xs where "bk_meanwhile b st = the (store_run xs st)" using assms(1) by (auto simp: honest_store_def)
  with store_ok_run [OF assms(2), of xs] show ?thesis by auto
qed

lemma wait_outcome_store:
  assumes "wait_outcome req now st res st'" and "store_ok inst st"
  shows "store_ok inst st'"
  using assms(1)
proof (cases rule: wait_outcome.cases)
  case (ran E w0 w)
  from assms(2) obtain H where H: "store_rep st H" "st_instance st = inst" by (auto simp: store_ok_def)
  have "wait_ok inst E w" using wait_ok_run [OF ran(3) wait_ok_start(1) [OF ran(2) H(1)]] H(2) by simp
  then obtain H' where "store_rep (ww_store w) H'" "st_instance (ww_store w) = inst" by (auto simp: wait_ok_def)
  then show ?thesis using Store_cancel_rep unfolding ran(1) store_ok_def by (auto simp: Store_cancel_def)
qed (use assms(2) in simp)

lemma mint_ok:
  assumes "store_ok inst st"
  shows "\<exists>tok st'. Store_NewToken now pid st = Some (tok, st') \<and> store_ok inst st'"
proof -
  from assms obtain H where H: "store_rep st H" "st_instance st = inst" by (auto simp: store_ok_def)
  show ?thesis by (rule Store_NewToken_rep [OF H(1), of now pid]) (use H(2) in \<open>auto simp: store_ok_def\<close>)
qed

lemma snapshot_ok:
  assumes "store_ok inst st"
  shows "\<exists>res w' st'. Snapshot cap scr now pid hist w st = Some (res, w', st') \<and> store_ok inst st' \<and>
    (\<forall>r. res = Inr r \<longrightarrow> sr_pane_id r = pid \<and> (sr_scrollback_text r \<noteq> None \<longleftrightarrow> hist \<noteq> None))"
proof -
  have "\<exists>tok st'. Store_NewToken now pid st = Some (tok, st') \<and> store_ok inst st'"
    using mint_ok [OF assms] .
  then obtain tok st' where m: "Store_NewToken now pid st = Some (tok, st')" "store_ok inst st'" by blast
  show ?thesis
    using m assms unfolding Snapshot_def
    by (auto simp: Let_def split: prod.split sum.split option.split)
qed

text \<open>A wait is answered with what its mode promises.\<close>

lemma dispatch_wait_typed:
  assumes "honest_waits b" and "store_ok inst st" and "rq_Op req = OpWait"
  shows "well_typed req (fst (dispatch_wait b req st)) \<and> store_ok inst (snd (dispatch_wait b req st))"
proof -
  from assms(2) obtain H where H: "store_rep st H" by (auto simp: store_ok_def)
  have run: "well_typed req (fst (let (res, st') = bk_wait b (wait_request req mode re) st in (marshal_body wait_json res, st')))
      \<and> store_ok inst (snd (let (res, st') = bk_wait b (wait_request req mode re) st in (marshal_body wait_json res, st')))"
    if "mode = WaitModeSentinel \<longleftrightarrow> rq_Mode req = ''sentinel''" "mode = WaitModeQuiescence \<longleftrightarrow> rq_Mode req = ''quiescence''"
    for mode re
  proof -
    let ?q = "wait_request req mode re"
    have o: "wait_outcome ?q (bk_now b) st (fst (bk_wait b ?q st)) (snd (bk_wait b ?q st))"
      using assms(1,2) by (auto simp: honest_waits_def store_ok_def)
    have q: "wq_PaneID ?q = rq_Pane req" "wq_Mode ?q = mode" by (simp_all add: wait_request_def)
    have "well_typed req (marshal_body wait_json (fst (bk_wait b ?q st)))"
      using wait_outcome_typed [OF o H] assms(3) that q
      by (intro typed_body) (auto intro!: blames_command)
    with wait_outcome_store [OF o assms(2)] show ?thesis by (simp add: case_prod_beta)
  qed
  have e: "well_typed req (cmd_err (invalid_args (rq_Pane req) m))"
    "well_typed req (cmd_err (error_response (rq_Pane req) ErrInvalidRegex m))" for m
    using assms(3) by (auto simp: invalid_args_def intro: typed_intros)
  show ?thesis
    unfolding dispatch_wait_def Let_def
    using run [of WaitModeSentinel None] run [of WaitModeQuiescence None] run [of WaitModeRegex] e assms(2)
    by (auto split: sum.split)
qed

definition uses_port ::
  "('w \<Rightarrow> (go_error + PaneID list) \<times> 'w) \<Rightarrow> (PaneID \<Rightarrow> 'w \<Rightarrow> (go_error + string) \<times> 'w)
    \<Rightarrow> (PaneID \<Rightarrow> int \<Rightarrow> 'w \<Rightarrow> (go_error + string) \<times> 'w) \<Rightarrow> (PaneID \<Rightarrow> string \<Rightarrow> bool \<Rightarrow> 'w \<Rightarrow> go_error option \<times> 'w)
    \<Rightarrow> (PaneID \<Rightarrow> string list \<Rightarrow> 'w \<Rightarrow> go_error option \<times> 'w) \<Rightarrow> 'w backend \<Rightarrow> bool" where
  "uses_port l c s t k b \<longleftrightarrow> bk_list b = l \<and> bk_capture b = c \<and> bk_scroll b = s \<and> bk_text b = t \<and> bk_keys b = k"

context port
begin

lemma snapshot_usable:
  "usable w \<Longrightarrow> Snapshot capture scroll now pid hist w st = Some (res, w', st') \<Longrightarrow> usable w'"
  using usable_ops unfolding Snapshot_def
  by (auto simp: Let_def split: prod.splits sum.splits option.splits) (metis snd_conv)+

lemma dispatch_snapshot:
  assumes "rq_Op req = OpSnapshot" and "store_ok inst st" and u: "usable w"
    and h: "hist = (if rq_HasHistory req then Some n else None)"
  shows "\<exists>res w' st'. Snapshot capture scroll now (rq_Pane req) hist w st = Some (res, w', st') \<and>
    well_typed req (marshal_body snapshot_json res) \<and> store_ok inst st' \<and> usable w'"
proof -
  obtain res w' st' where r: "Snapshot capture scroll now (rq_Pane req) hist w st = Some (res, w', st')"
    "store_ok inst st'" "\<And>r. res = Inr r \<Longrightarrow> sr_pane_id r = rq_Pane req \<and> (sr_scrollback_text r \<noteq> None \<longleftrightarrow> hist \<noteq> None)"
    using snapshot_ok [OF assms(2), of capture scroll now "rq_Pane req" hist w] by blast
  have "well_typed req (marshal_body snapshot_json res)"
    using r snapshot_errors [OF u] assms(1) h
    by (intro typed_body) (auto intro!: blames_command [where codes = "{ErrPaneNotFound}"] split: if_splits)
  with r snapshot_usable [OF u r(1)] show ?thesis by blast
qed

lemma dispatch_typed:
  assumes b: "uses_port list_panes capture scroll send_text send_keys b" "honest b"
    and st: "store_ok inst st" and u: "usable w"
  shows "\<exists>resp w' st'. Dispatch b req (w, st) = Some (resp, w', st') \<and> well_typed req resp \<and>
    store_ok inst st' \<and> usable w'"
proof -
  note ports = b(1) [unfolded uses_port_def]
  note ops = usable_ops [OF u]
  consider "rq_Op req = OpList" | "rq_Op req = OpSnapshot" | "rq_Op req = OpRead" | "rq_Op req = OpText"
    | "rq_Op req = OpKey" | "rq_Op req = OpWait"
    | "rq_Op req \<notin> {OpList, OpSnapshot, OpRead, OpText, OpKey, OpWait}" by blast
  then show ?thesis
  proof cases
    case 1
    obtain res w' where r: "List_panes list_panes w = (res, w')" by (cases "List_panes list_panes w")
    have "usable w'" using r ops by (auto simp: List_panes_def split: prod.splits sum.splits)
    moreover have "well_typed req (marshal_body list_json res)"
      using list_error [OF u] r 1 by (intro typed_body) (auto intro: blames_port)
    ultimately show ?thesis using 1 st r ports by (simp add: Dispatch_def)
  next
    case 2
    from dispatch_snapshot [OF 2 st u refl, of "bk_now b" "rq_HistoryLines req"] 2 ports show ?thesis
      by (auto simp: Dispatch_def op_defs)
  next
    case 3
    have m: "store_ok inst (bk_meanwhile b st)"
      using b(2) by (intro store_ok_meanwhile [OF _ st]) (simp add: honest_def)
    have "well_typed req (marshal_body read_json (Read_cmd (bk_now b) (rq_Pane req) (rq_After req) st (bk_meanwhile b st)))"
      using read_errors read_pane 3
      by (intro typed_body) (auto intro!: blames_command [where codes = "{ErrInvalidAfter, ErrPaneNotFound}"])
    moreover have "well_typed req (cmd_err (error_response (rq_Pane req) ErrMissingAfter msg))" for msg
      using 3 by (auto intro: typed_intros)
    ultimately show ?thesis using 3 st u m by (cases "rq_After req = []") (simp_all add: Dispatch_def op_defs Let_def)
  next
    case 4
    obtain res w' where r: "SendText_cmd send_text (rq_Pane req) (rq_Text req) (rq_Enter req) w = (res, w')"
      by (cases "SendText_cmd send_text (rq_Pane req) (rq_Text req) (rq_Enter req) w")
    have "usable w'" using r ops by (auto simp: SendText_cmd_def split: prod.splits option.splits if_splits) (metis snd_conv)+
    moreover have "well_typed req (unit_result res)"
      using text_errors [OF u] r 4 by (intro typed_unit) (auto intro!: blames_command)
    ultimately show ?thesis using 4 st r ports by (simp add: Dispatch_def op_defs)
  next
    case 5
    obtain res w' where r: "SendKeys_cmd send_keys (rq_Pane req) (rq_Keys req) w = (res, w')"
      by (cases "SendKeys_cmd send_keys (rq_Pane req) (rq_Keys req) w")
    have "usable w'" using r ops by (auto simp: SendKeys_cmd_def split: prod.splits option.splits if_splits) (metis snd_conv)+
    moreover have "well_typed req (unit_result res)"
      using key_errors [OF u] r 5 by (intro typed_unit) (auto intro!: blames_command [where codes = "{ErrPaneNotFound, ErrInvalidKey}"])
    moreover have "well_typed req (cmd_err (invalid_args (rq_Pane req) msg))" for msg
      using 5 by (auto simp: invalid_args_def intro: typed_intros)
    ultimately show ?thesis using 5 st r ports u by (cases "rq_Keys req = []") (simp_all add: Dispatch_def op_defs Let_def)
  next
    case 6
    have "honest_waits b" using b(2) by (simp add: honest_def)
    from dispatch_wait_typed [OF this st 6] 6 u show ?thesis
      by (auto simp: Dispatch_def op_defs case_prod_beta)
  next
    case 7
    then show ?thesis using st u by (auto simp: Dispatch_def intro: typed_intros)
  qed
qed

end

lemma typed_response_ok: "well_typed req resp \<Longrightarrow> response_ok resp"
proof -
  assume "well_typed req resp"
  then obtain a where a: "resp = answer_response a" "answer_typed req a" by (auto simp: well_typed_def)
  have "body_typed req body \<Longrightarrow> body_ok body" for body
    using payload_bodies by (auto simp: body_typed_def body_ok_def split: if_splits)
  with a show ?thesis
    by (cases a) (auto simp: response_ok_def ok_response_def cmd_err_def runtime_err_def zero_response_def
        body_ok_def in_int64_def int64_min_def int64_max_def)
qed

subsection \<open>Many requests\<close>

text \<open>
  The requests a daemon answers one after the other, each with the backend of its moment
  and with what the subscription and the other handlers did to the store before it.
\<close>

fun serve_all :: "('w backend \<times> store_op list \<times> Request) list \<Rightarrow> 'w \<times> Store \<Rightarrow> (Response list \<times> 'w \<times> Store) option" where
  "serve_all [] ws = Some ([], ws)"
| "serve_all ((b, ops, req) # rest) (w, st) =
     Option.bind (store_run ops st) (\<lambda>st1.
     Option.bind (Dispatch b req (w, st1)) (\<lambda>(resp, ws').
       map_option (\<lambda>(resps, ws''). (resp # resps, ws'')) (serve_all rest ws')))"

context port
begin

lemma serve_typed:
  assumes "\<forall>(b, ops, req) \<in> set reqs. uses_port list_panes capture scroll send_text send_keys b \<and> honest b"
    and "store_ok inst st" and "usable w"
  shows "\<exists>resps w' st'. serve_all reqs (w, st) = Some (resps, w', st') \<and>
    list_all2 (\<lambda>(b, ops, req) resp. well_typed req resp) reqs resps \<and> store_ok inst st' \<and> usable w'"
  using assms
proof (induction reqs arbitrary: w st)
  case (Cons x reqs)
  obtain b ops req where x: "x = (b, ops, req)" by (cases x)
  from store_ok_run [OF Cons.prems(2), of ops] obtain st1 where
    st1: "store_run ops st = Some st1" "store_ok inst st1" by blast
  have b: "uses_port list_panes capture scroll send_text send_keys b" "honest b" using Cons.prems(1) x by auto
  from dispatch_typed [OF b st1(2) Cons.prems(3), of req] obtain resp w2 st2 where
    d: "Dispatch b req (w, st1) = Some (resp, w2, st2)" "well_typed req resp" "store_ok inst st2" "usable w2" by blast
  from Cons.IH [OF _ d(3,4)] Cons.prems(1) obtain resps w' st' where
    "serve_all reqs (w2, st2) = Some (resps, w', st')"
    "list_all2 (\<lambda>(b, ops, req) resp. well_typed req resp) reqs resps" "store_ok inst st'" "usable w'" by auto
  with x st1 d show ?case by simp
qed simp

end

subsection \<open>Durations on the wire\<close>

lemma dur_ms_exact: "0 \<le> t \<Longrightarrow> t \<le> 9223372036854 \<Longrightarrow> dur_ms t = t * millisecond"
  by (simp add: dur_ms_def millisecond_def wrap64_id in_int64_def int64_min_def int64_max_def)

subsection \<open>Properties\<close>

definition adapter_backend :: "'w tmux \<Rightarrow> Opts \<Rightarrow> 'w backend \<Rightarrow> bool" where
  "adapter_backend tmux opts b \<longleftrightarrow>
     uses_port (Adapter_ListPanes tmux opts) (Adapter_CapturePane tmux opts) (Adapter_CaptureScrollback tmux opts)
       (Adapter_SendText tmux opts) (Adapter_SendKeys tmux opts) b \<and> honest b"

lemma adapter_backend_exists: "\<exists>b. adapter_backend tmux opts b \<and> bk_printable b = p"
proof -
  obtain f where f: "\<forall>req st. store_ok (st_instance st) st \<longrightarrow> wait_outcome req 0 st (fst (f req st)) (snd (f req st))"
    using honest_waiter by blast
  let ?b = "\<lparr>bk_list = Adapter_ListPanes tmux opts, bk_capture = Adapter_CapturePane tmux opts,
    bk_scroll = Adapter_CaptureScrollback tmux opts, bk_text = Adapter_SendText tmux opts,
    bk_keys = Adapter_SendKeys tmux opts, bk_now = 0, bk_meanwhile = \<lambda>st. st, bk_wait = f,
    bk_compile = \<lambda>_. Inl [], bk_printable = p\<rparr>"
  have "\<exists>xs. st = the (store_run xs st)" for st by (rule exI [of _ "[]"]) simp
  with f have "adapter_backend tmux opts ?b"
    by (simp add: adapter_backend_def uses_port_def honest_def honest_waits_def honest_store_def)
  then show ?thesis by (intro exI [of _ ?b]) simp
qed

text \<open>C7: the daemon never gets stuck and every answer has the type of its request. Over the
  tmux adapter, whatever tmux answers, whatever the requests and whatever the subscription
  and other handlers do to the store in between, every request is answered; the answer is
  a success with exactly the operation's payload for the pane asked for, a command error
  that names the pane with a code documented for the operation, or a runtime failure; and
  the store it leaves still stands for streams, under the instance of the daemon.\<close>

theorem dispatch_type_sound:
  assumes "0 < capacity" and "\<forall>(b, ops, req) \<in> set reqs. adapter_backend tmux opts b"
  shows "\<exists>resps w' st'. serve_all reqs (w, Store_New rnd capacity) = Some (resps, w', st') \<and>
    list_all2 (\<lambda>(b, ops, req) resp. well_typed req resp) reqs resps \<and> store_ok (hex_encode rnd) st'"
proof -
  have "store_ok (hex_encode rnd) (Store_New rnd capacity)"
    using store_rep_new [OF assms(1), of rnd] by (auto simp: store_ok_def Store_New_def)
  moreover have "\<forall>(b, ops, req) \<in> set reqs. uses_port (Adapter_ListPanes tmux opts) (Adapter_CapturePane tmux opts)
      (Adapter_CaptureScrollback tmux opts) (Adapter_SendText tmux opts) (Adapter_SendKeys tmux opts) b \<and> honest b"
    using assms(2) by (auto simp: adapter_backend_def)
  ultimately show ?thesis using adapter.serve_typed [OF _ _ TrueI, of reqs tmux opts _ _ w] by blast
qed

theorem dispatch_type_sound_witness:
  "\<exists>(b :: nat backend) resps w' st'. serve_all [(b, [OpAppend 1 ''%1'' ''x''], zero_request\<lparr>rq_Op := OpRead\<rparr>),
      (b, [], zero_request\<lparr>rq_Op := ''bogus''\<rparr>)] (0, Store_New ''AB'' 8) = Some (resps, w', st') \<and>
     length resps = 2 \<and> well_typed (zero_request\<lparr>rq_Op := OpRead\<rparr>) (resps ! 0)"
proof -
  obtain b :: "nat backend" where b: "adapter_backend (\<lambda>argv n. (\<lparr>tr_err = None, tr_stdout = [], tr_stderr = []\<rparr>, n))
      \<lparr>op_SocketPath = [], op_SocketName = []\<rparr> b"
    using adapter_backend_exists by blast
  let ?reqs = "[(b, [OpAppend 1 ''%1'' ''x''], zero_request\<lparr>rq_Op := OpRead\<rparr>), (b, [], zero_request\<lparr>rq_Op := ''bogus''\<rparr>)]"
  from dispatch_type_sound [of 8 ?reqs _ _ 0 "''AB''"] b obtain resps w' st' where
    "serve_all ?reqs (0, Store_New ''AB'' 8) = Some (resps, w', st')"
    "list_all2 (\<lambda>(b, ops, req) resp. well_typed req resp) ?reqs resps" by fastforce
  then show ?thesis by (intro exI [of _ b] exI [of _ resps]) (auto simp: list_all2_Cons1)
qed

text \<open>C39: the timeout of a wait is exact up to 9223372036854 ms and wrong above. The duration
  the controller gets fits 64 bits; it is the requested number of milliseconds exactly for
  the requests within the bound, and the same holds of the quiet window. Above it the
  product wraps: the first value past the bound becomes a negative timeout, which the
  controller refuses, and 18446744073710 ms becomes a wait of less than a millisecond.\<close>

theorem wait_duration_bounds:
  assumes "0 < rq_TimeoutMs req" and "0 \<le> rq_QuietMs req"
  shows "in_int64 (wq_Timeout (wait_request req mode re)) \<and>
    (wq_Timeout (wait_request req mode re) = rq_TimeoutMs req * millisecond \<longleftrightarrow> rq_TimeoutMs req \<le> 9223372036854) \<and>
    (wq_QuietWindow (wait_request req mode re) = rq_QuietMs req * millisecond \<longleftrightarrow> rq_QuietMs req \<le> 9223372036854) \<and>
    (rq_TimeoutMs req = 9223372036855 \<longrightarrow> wq_Timeout (wait_request req mode re) < 0) \<and>
    (rq_TimeoutMs req = 18446744073710 \<longrightarrow> 0 < wq_Timeout (wait_request req mode re) \<and>
      wq_Timeout (wait_request req mode re) < millisecond)"
proof (intro conjI impI)
  have exact: "dur_ms t = t * millisecond \<longleftrightarrow> t \<le> 9223372036854" if "0 \<le> t" for t
  proof
    assume "dur_ms t = t * millisecond"
    then have "in_int64 (t * millisecond)" using wrap64_range [of "t * millisecond"] by (simp add: dur_ms_def)
    then show "t \<le> 9223372036854" by (simp add: in_int64_def int64_max_def millisecond_def)
  qed (use that in \<open>rule dur_ms_exact\<close>)
  show "in_int64 (wq_Timeout (wait_request req mode re))"
    by (simp add: wait_request_def dur_ms_def wrap64_range)
  show "wq_Timeout (wait_request req mode re) = rq_TimeoutMs req * millisecond \<longleftrightarrow> rq_TimeoutMs req \<le> 9223372036854"
    "wq_QuietWindow (wait_request req mode re) = rq_QuietMs req * millisecond \<longleftrightarrow> rq_QuietMs req \<le> 9223372036854"
    using assms exact by (simp_all add: wait_request_def)
next
  assume "rq_TimeoutMs req = 9223372036855"
  then show "wq_Timeout (wait_request req mode re) < 0"
    by (simp add: wait_request_def dur_ms_def millisecond_def wrap64_code)
next
  assume "rq_TimeoutMs req = 18446744073710"
  then show "0 < wq_Timeout (wait_request req mode re)" "wq_Timeout (wait_request req mode re) < millisecond"
    by (simp_all add: wait_request_def dur_ms_def millisecond_def wrap64_code)
qed

theorem wait_duration_bounds_witness:
  "wq_Timeout (wait_request (zero_request\<lparr>rq_TimeoutMs := 5000\<rparr>) WaitModeSentinel None) = 5000000000"
  using wait_duration_bounds [of "zero_request\<lparr>rq_TimeoutMs := 5000\<rparr>" WaitModeSentinel None]
  by (simp add: zero_request_def millisecond_def)

end
