(* ===== verification/Server.thy ===== *)
theory Server
  imports Dispatch
begin

section \<open>Server: one request per connection (internal/ipc/server.go, client.go)\<close>

text \<open>
  \<open>handle\<close> reads one line, decodes it, answers it and closes. \<open>Call\<close> writes one line
  and reads one back. The texts of the errors of \<open>encoding/json\<close> are parameters: the
  program only passes them on. A connection is what the peer sends back for the bytes it
  gets, with the instant the last of them arrives, or nothing ever; \<open>None\<close> as the outcome
  of a call is a call that never returns.
\<close>

subsection \<open>The server's side\<close>

definition write_response :: "(string \<Rightarrow> string) \<Rightarrow> Response \<Rightarrow> string" where
  "write_response marshal_error r =
     (case marshal_response r of
        Some b \<Rightarrow> b
      | None \<Rightarrow> (case marshal_response (runtime_err (marshal_error (rs_Body r))) of Some b \<Rightarrow> b | None \<Rightarrow> []))
     @ [newline]"

text \<open>What is written to the connection, whether \<open>Shutdown\<close> is called, and the world after.\<close>

definition Server_handle ::
  "'w backend \<Rightarrow> (string \<Rightarrow> string) \<Rightarrow> (string \<Rightarrow> string) \<Rightarrow> int \<Rightarrow> bool \<Rightarrow> string \<Rightarrow> 'w \<times> Store
    \<Rightarrow> (string \<times> bool \<times> 'w \<times> Store) option" where
  "Server_handle b unmarshal_error marshal_error pid has_shutdown input ws =
     (case read_line input of
        None \<Rightarrow> Some ([], False, ws)
      | Some line \<Rightarrow>
          (case unmarshal_request line of
             None \<Rightarrow> Some (write_response marshal_error
                 (runtime_err (''malformed request: '' @ unmarshal_error line)), False, ws)
           | Some req \<Rightarrow>
               if rq_Op req = OpShutdown
               then Some (write_response marshal_error (zero_response\<lparr>rs_OK := True, rs_Pid := pid\<rparr>), has_shutdown, ws)
               else map_option (\<lambda>(resp, ws'). (write_response marshal_error resp, False, ws')) (Dispatch b req ws)))"

subsection \<open>The client's side\<close>

datatype connection =
    DialFails string
  | WriteFails string
  | Peer "string \<Rightarrow> (string \<times> instant) option" string string

text \<open>The two texts of a peer are the errors of a read at the end of the stream and after the deadline.\<close>

definition call_deadline :: "instant \<Rightarrow> duration \<Rightarrow> instant option" where
  "call_deadline now overall = (if overall > 0 then Some (now + overall) else None)"

definition Client_Call ::
  "(string \<Rightarrow> string) \<Rightarrow> instant \<Rightarrow> connection \<Rightarrow> Request \<Rightarrow> duration \<Rightarrow> (string + Response) option" where
  "Client_Call unmarshal_error now conn req overall =
     (case conn of
        DialFails e \<Rightarrow> Some (Inl e)
      | WriteFails e \<Rightarrow> Some (Inl e)
      | Peer answer eof late \<Rightarrow>
          (case (answer (marshal_request req @ [newline]), call_deadline now overall) of
             (None, None) \<Rightarrow> None
           | (None, Some d) \<Rightarrow> Some (Inl late)
           | (Some (out, at), dl) \<Rightarrow>
               if (case dl of Some d \<Rightarrow> d \<le> at | None \<Rightarrow> False) then Some (Inl late)
               else (case read_line out of
                       None \<Rightarrow> Some (Inl eof)
                     | Some line \<Rightarrow>
                         (case unmarshal_response line of
                            None \<Rightarrow> Some (Inl (unmarshal_error line))
                          | Some resp \<Rightarrow> Some (Inr resp)))))"

text \<open>\<open>Ping\<close> succeeds on any response, also on the failure of the \<open>list\<close> it carries.\<close>

definition Client_Ping :: "(string \<Rightarrow> string) \<Rightarrow> instant \<Rightarrow> connection \<Rightarrow> string option option" where
  "Client_Ping unmarshal_error now conn =
     map_option (\<lambda>r. case r of Inl e \<Rightarrow> Some e | Inr _ \<Rightarrow> None)
       (Client_Call unmarshal_error now conn (zero_request\<lparr>rq_Op := OpList\<rparr>) (2 * second))"

subsection \<open>A call meets a handler\<close>

lemma write_read:
  assumes "response_ok r"
  shows "read_line (write_response me r) = Some (write_response me r) \<and>
    unmarshal_response (write_response me r) = Some (sanitize_response r)"
  using responses.encode_good [OF assms] responses.one_line [OF assms, of _ "[]"]
  by (auto simp: write_response_def)

lemma handle_request:
  assumes "request_ints r"
  shows "Server_handle b ue me pid sd (marshal_request r @ [newline]) ws =
    (if rq_Op (sanitize_request r) = OpShutdown
     then Some (write_response me (zero_response\<lparr>rs_OK := True, rs_Pid := pid\<rparr>), sd, ws)
     else map_option (\<lambda>(resp, ws'). (write_response me resp, False, ws')) (Dispatch b (sanitize_request r) ws))"
  using requests.one_line [OF assms refl, of "[]"] requests.received [OF assms refl]
  by (simp add: Server_handle_def)

text \<open>The daemon at the other end of a connection, answering at an instant.\<close>

definition daemon_peer ::
  "'w backend \<Rightarrow> (string \<Rightarrow> string) \<Rightarrow> (string \<Rightarrow> string) \<Rightarrow> int \<Rightarrow> 'w \<times> Store \<Rightarrow> instant \<Rightarrow> string \<Rightarrow> string \<Rightarrow> connection" where
  "daemon_peer b ue me pid ws at eof late =
     Peer (\<lambda>input. map_option (\<lambda>(out, _). (out, at)) (Server_handle b ue me pid True input ws)) eof late"

lemma call_answered:
  assumes "request_ints req" and "rq_Op (sanitize_request req) \<noteq> OpShutdown"
    and "Dispatch b (sanitize_request req) ws = Some (resp, ws')" and "response_ok resp"
    and "overall \<le> 0 \<or> at < now + overall"
  shows "Client_Call cu now (daemon_peer b ue me pid ws at eof late) req overall = Some (Inr (sanitize_response resp))"
  using assms(2-5) write_read [OF assms(4), of me]
  by (auto simp: Client_Call_def daemon_peer_def handle_request [OF assms(1)] call_deadline_def)

subsection \<open>Listening and closing\<close>

text \<open>
  The life of daemons on one socket path. A daemon that starts dials the path, removes the
  file and binds; a daemon that closes marks itself closed, closes its listener, which
  unlinks the name, and removes the name once more. The name may change hands between any
  two of these steps. The path is bound to the listener of a daemon, \<open>None\<close> when there is
  no file; a file whose daemon no longer listens is stale.
\<close>

datatype daemon_pc = Idle | Probed | Cleared | Serving | Marked | Unlinked | Exited

record sock =
  sk_path :: "nat option"
  sk_pc :: "nat \<Rightarrow> daemon_pc"

definition accepts :: "sock \<Rightarrow> nat \<Rightarrow> bool" where
  "accepts s d \<longleftrightarrow> sk_pc s d = Serving \<or> sk_pc s d = Marked"

text \<open>A dial of the path reaches a daemon.\<close>

definition reachable_daemon :: "sock \<Rightarrow> nat option" where
  "reachable_daemon s = (case sk_path s of Some d \<Rightarrow> if accepts s d then Some d else None | None \<Rightarrow> None)"

inductive sock_step :: "sock \<Rightarrow> sock \<Rightarrow> bool" where
  bound_already: "sk_pc s d = Idle \<Longrightarrow> reachable_daemon s \<noteq> None \<Longrightarrow>
    sock_step s (s\<lparr>sk_pc := (sk_pc s)(d := Exited)\<rparr>)"
| probe: "sk_pc s d = Idle \<Longrightarrow> reachable_daemon s = None \<Longrightarrow> sock_step s (s\<lparr>sk_pc := (sk_pc s)(d := Probed)\<rparr>)"
| clear: "sk_pc s d = Probed \<Longrightarrow> sock_step s (s\<lparr>sk_path := None, sk_pc := (sk_pc s)(d := Cleared)\<rparr>)"
| bind: "sk_pc s d = Cleared \<Longrightarrow> sk_path s = None \<Longrightarrow>
    sock_step s (s\<lparr>sk_path := Some d, sk_pc := (sk_pc s)(d := Serving)\<rparr>)"
| bind_fails: "sk_pc s d = Cleared \<Longrightarrow> sk_path s \<noteq> None \<Longrightarrow> sock_step s (s\<lparr>sk_pc := (sk_pc s)(d := Exited)\<rparr>)"
| setup_fails: "sk_pc s d = Cleared \<Longrightarrow> sock_step s (s\<lparr>sk_pc := (sk_pc s)(d := Exited)\<rparr>)"
| mark_closed: "sk_pc s d = Serving \<Longrightarrow> sock_step s (s\<lparr>sk_pc := (sk_pc s)(d := Marked)\<rparr>)"
| close_listener: "sk_pc s d = Marked \<Longrightarrow> sock_step s (s\<lparr>sk_path := None, sk_pc := (sk_pc s)(d := Unlinked)\<rparr>)"
| remove_name: "sk_pc s d = Unlinked \<Longrightarrow> sock_step s (s\<lparr>sk_path := None, sk_pc := (sk_pc s)(d := Exited)\<rparr>)"
| killed: "sk_pc s d \<noteq> Idle \<Longrightarrow> sock_step s (s\<lparr>sk_pc := (sk_pc s)(d := Exited)\<rparr>)"

inductive_cases sock_stepE: "sock_step s s'"

text \<open>The stages of a daemon are ordered, and it only ever goes forward in them.\<close>

fun stage :: "daemon_pc \<Rightarrow> nat" where
  "stage Idle = 0"
| "stage Probed = 1"
| "stage Cleared = 2"
| "stage Serving = 3"
| "stage Marked = 4"
| "stage Unlinked = 5"
| "stage Exited = 6"

lemma stage_inj: "stage a = stage b \<Longrightarrow> a = b"
  by (cases a; cases b) simp_all

instantiation daemon_pc :: linorder
begin

definition less_eq_daemon_pc :: "daemon_pc \<Rightarrow> daemon_pc \<Rightarrow> bool" where
  "less_eq_daemon_pc a b \<longleftrightarrow> stage a \<le> stage b"

definition less_daemon_pc :: "daemon_pc \<Rightarrow> daemon_pc \<Rightarrow> bool" where
  "less_daemon_pc a b \<longleftrightarrow> stage a < stage b"

instance
  by standard (auto simp: less_eq_daemon_pc_def less_daemon_pc_def intro: stage_inj)

end

lemma stage_max: "stage pc \<le> 6"
  by (cases pc) simp_all

lemma sock_step_forward: "sock_step s s' \<Longrightarrow> sk_pc s d \<le> sk_pc s' d"
  unfolding less_eq_daemon_pc_def
  by (induction rule: sock_step.induct) (use stage_max in auto)

lemma sock_run_forward: "sock_step\<^sup>*\<^sup>* s s' \<Longrightarrow> sk_pc s d \<le> sk_pc s' d"
  by (induction rule: rtranclp_induct) (auto dest: sock_step_forward [of _ _ d] intro: order_trans)

text \<open>So a daemon that has exited never answers again.\<close>

lemma exited_for_good:
  assumes "sk_pc s d = Exited" and "sock_step\<^sup>*\<^sup>* s s'"
  shows "sk_pc s' d = Exited" and "reachable_daemon s' \<noteq> Some d"
proof -
  show e: "sk_pc s' d = Exited"
    using sock_run_forward [OF assms(2), of d] assms(1) by (cases "sk_pc s' d") (simp_all add: less_eq_daemon_pc_def)
  then show "reachable_daemon s' \<noteq> Some d"
    by (auto simp: reachable_daemon_def accepts_def split: option.split)
qed

subsection \<open>Properties\<close>

lemma shutdown_answer: "response_ok (zero_response\<lparr>rs_OK := True, rs_Pid := pid\<rparr>) \<longleftrightarrow> in_int64 pid"
  by (simp add: response_ok_def body_ok_def zero_response_def)

text \<open>A payload of well-formed UTF-8 is not changed on the way; an ill-formed byte is.\<close>

lemma ill_formed_text_altered:
  "rq_Text (sanitize_request (zero_request\<lparr>rq_Text := [CHR 0xFF]\<rparr>)) = [CHR 0xEF, CHR 0xBF, CHR 0xBD]"
proof -
  have "utf8_sanitize [CHR 0xFF] = [CHR 0xEF, CHR 0xBF, CHR 0xBD]" by (simp add: utf8_seq.simps Let_def encode_rune_def, code_simp)
  then show ?thesis by (simp add: sanitize_request_def zero_request_def del: utf8_sanitize.simps)
qed

text \<open>C6: a call over the socket is a call of \<open>Dispatch\<close>. For every request whose integers fit
  their type and that is not a shutdown, the daemon's handler answers with one line, and
  the client that reads it in time gets the response \<open>Dispatch\<close> gives, its body byte for
  byte; the only change either side can see is that strings that are not well-formed UTF-8
  arrive with U+FFFD in the place of the ill-formed bytes, so a request of well-formed
  strings arrives as it was sent.\<close>

theorem call_over_wire:
  assumes "adapter_backend tmux opts b" and "store_ok inst st"
    and "request_ints req" and "rq_Op req \<noteq> OpShutdown" and "utf8_valid (rq_Op req)"
    and "overall \<le> 0 \<or> at < now + overall"
  shows "\<exists>resp w' st'. Dispatch b (sanitize_request req) (w, st) = Some (resp, w', st') \<and>
    Client_Call cu now (daemon_peer b ue me pid (w, st) at eof late) req overall = Some (Inr (sanitize_response resp)) \<and>
    rs_Body (sanitize_response resp) = rs_Body resp \<and> rs_OK (sanitize_response resp) = rs_OK resp \<and>
    (request_utf8 req \<longrightarrow> sanitize_request req = req)"
proof -
  from assms(1) have b: "uses_port (Adapter_ListPanes tmux opts) (Adapter_CapturePane tmux opts)
      (Adapter_CaptureScrollback tmux opts) (Adapter_SendText tmux opts) (Adapter_SendKeys tmux opts) b" "honest b"
    by (simp_all add: adapter_backend_def)
  from adapter.dispatch_typed [OF b assms(2) TrueI, of "sanitize_request req" w] obtain resp w' st' where
    d: "Dispatch b (sanitize_request req) (w, st) = Some (resp, w', st')" "well_typed (sanitize_request req) resp" by blast
  have "rq_Op (sanitize_request req) \<noteq> OpShutdown"
    using assms(4,5) by (simp add: sanitize_request_def utf8_sanitize_valid)
  note call = call_answered [OF assms(3) this d(1) typed_response_ok [OF d(2)] assms(6)]
  show ?thesis
    by (intro exI conjI impI, rule d(1), rule call)
      (simp_all add: sanitize_response_def sanitize_request_utf8)
qed

theorem call_over_wire_witness:
  "\<exists>(b :: nat backend) resp. Client_Call (\<lambda>_. []) 0 (daemon_peer b (\<lambda>_. []) (\<lambda>_. []) 7 (0, Store_New ''AB'' 8) 5 [] [])
     (zero_request\<lparr>rq_Op := OpText, rq_Pane := ''%1'', rq_Text := ''ls''\<rparr>) 10 = Some (Inr resp)"
proof -
  obtain b :: "nat backend" where b: "adapter_backend (\<lambda>argv n. (\<lparr>tr_err = None, tr_stdout = [], tr_stderr = []\<rparr>, n))
      \<lparr>op_SocketPath = [], op_SocketName = []\<rparr> b"
    using adapter_backend_exists by blast
  let ?req = "zero_request\<lparr>rq_Op := OpText, rq_Pane := ''%1'', rq_Text := ''ls''\<rparr>"
  have st: "store_ok (st_instance (Store_New ''AB'' 8)) (Store_New ''AB'' 8)"
    using store_rep_new [of 8 "''AB''"] by (auto simp: store_ok_def)
  have "request_ints ?req" by (simp add: request_ints_def zero_request_def in_int64_def int64_min_def int64_max_def)
  moreover have "utf8_valid OpText" unfolding op_defs by code_simp
  ultimately show ?thesis
    using call_over_wire [OF b st, of ?req 10 5 0 0 "\<lambda>_. []" "\<lambda>_. []" "\<lambda>_. []" 7 "[]" "[]"]
    by (auto simp: zero_request_def op_defs)
qed

end
