(* ===== verification/Sockets.thy ===== *)
theory Sockets
  imports Server
begin

section \<open>Sockets: which tmux server, which daemon (internal/ipc/socket.go)\<close>

text \<open>
  Which tmux server a command is for, and where its daemon's socket is. The environment
  (\<open>$TMUX\<close>, \<open>$XDG_RUNTIME_DIR\<close>, the effective user id, the temporary and the working
  directory) is a record; SHA-256 is a parameter.
\<close>

subsection \<open>Paths\<close>

record environ =
  env_TMUX :: string
  env_XDG :: string
  env_uid :: int
  env_tmpdir :: string
  env_cwd :: "string + string"

definition slash :: char where "slash = CHR 0x2F"

text \<open>
  \<open>filepath.Clean\<close>: the elements between slashes one by one; empty ones and dots go, two
  dots take the element before with them, at the root they go.
\<close>

fun clean_elems :: "bool \<Rightarrow> string list \<Rightarrow> string list \<Rightarrow> string list" where
  "clean_elems rooted out [] = out"
| "clean_elems rooted out (e # es) =
     (if e = [] \<or> e = ''.'' then clean_elems rooted out es
      else if e = ''..'' then
        (if out \<noteq> [] \<and> last out \<noteq> ''..'' then clean_elems rooted (butlast out) es
         else if rooted then clean_elems rooted out es
         else clean_elems rooted (out @ [e]) es)
      else clean_elems rooted (out @ [e]) es)"

definition path_clean :: "string \<Rightarrow> string" where
  "path_clean p =
     (let rooted = (take 1 p = [slash]); out = clean_elems rooted [] (split_on slash p)
      in if rooted then [slash] @ join_with [slash] out
         else if out = [] then ''.'' else join_with [slash] out)"

text \<open>\<open>filepath.Join\<close> ignores empty elements.\<close>

definition path_join :: "string list \<Rightarrow> string" where
  "path_join es =
     (let es' = dropWhile (\<lambda>e. e = []) es
      in if es' = [] then [] else path_clean (join_with [slash] es'))"

definition path_abs :: "environ \<Rightarrow> string \<Rightarrow> string + string" where
  "path_abs env p =
     (if take 1 p = [slash] then Inr (path_clean p)
      else case env_cwd env of Inl e \<Rightarrow> Inl e | Inr wd \<Rightarrow> Inr (path_join [wd, p]))"

subsection \<open>Which tmux server, which daemon socket\<close>

definition uid_dir :: "environ \<Rightarrow> string" where
  "uid_dir env = ''/tmp/tmux-'' @ itoa (env_uid env)"

definition ResolveTmuxSocket :: "environ \<Rightarrow> string \<Rightarrow> string \<Rightarrow> string + string" where
  "ResolveTmuxSocket env socketPath socketName =
     (if socketPath \<noteq> [] \<and> socketName \<noteq> []
        then Inl ''--tmux-socket and --tmux-socket-name are mutually exclusive''
      else if socketPath \<noteq> [] then path_abs env socketPath
      else if socketName \<noteq> [] then Inr (path_join [uid_dir env, socketName])
      else if env_TMUX env \<noteq> [] then
        (case index_byte (env_TMUX env) (CHR '','') of
           Some i \<Rightarrow> Inr (take i (env_TMUX env))
         | None \<Rightarrow> Inr (env_TMUX env))
      else Inr (path_join [uid_dir env, ''default'']))"

definition daemonDir :: "environ \<Rightarrow> string" where
  "daemonDir env =
     (if env_XDG env \<noteq> [] then path_join [env_XDG env, ''tpctl'']
      else path_join [env_tmpdir env, ''tpctl-'' @ itoa (env_uid env)])"

text \<open>\<open>mkdir\<close> is the outcome of \<open>os.MkdirAll\<close> on the directory.\<close>

definition DaemonSocketPath ::
  "(bytes \<Rightarrow> bytes) \<Rightarrow> (string \<Rightarrow> string option) \<Rightarrow> environ \<Rightarrow> string \<Rightarrow> string + string" where
  "DaemonSocketPath sha256 mkdir env tmuxSocket =
     (let dir = daemonDir env in
      case mkdir dir of
        Some e \<Rightarrow> Inl (''mkdir '' @ dir @ '': '' @ e)
      | None \<Rightarrow> Inr (path_join [dir, hex_encode (take 8 (sha256 tmuxSocket)) @ ''.sock'']))"

subsection \<open>Cleaned paths\<close>

definition plain_elem :: "string \<Rightarrow> bool" where
  "plain_elem e \<longleftrightarrow> e \<noteq> [] \<and> e \<noteq> ''.'' \<and> slash \<notin> set e"

text \<open>What cleaning leaves: plain elements, the two-dot ones in front and only of a relative path.\<close>

definition clean_list :: "bool \<Rightarrow> string list \<Rightarrow> bool" where
  "clean_list rooted out \<longleftrightarrow> list_all plain_elem out \<and>
     (\<exists>k xs. out = replicate k ''..'' @ xs \<and> ''..'' \<notin> set xs \<and> (rooted \<longrightarrow> k = 0))"

lemma clean_list_snoc:
  assumes "clean_list rooted out" and "plain_elem e" and "e \<noteq> ''..''"
  shows "clean_list rooted (out @ [e])"
proof -
  from assms(1) obtain k xs where "out = replicate k ''..'' @ xs" "''..'' \<notin> set xs" "rooted \<longrightarrow> k = 0"
    by (auto simp: clean_list_def)
  with assms show ?thesis
    unfolding clean_list_def by (intro conjI exI [of _ k] exI [of _ "xs @ [e]"]) (auto simp: clean_list_def)
qed

lemma clean_list_butlast:
  assumes "clean_list rooted out" shows "clean_list rooted (butlast out)"
proof -
  from assms obtain k xs where o: "out = replicate k ''..'' @ xs" "''..'' \<notin> set xs" "rooted \<longrightarrow> k = 0"
    "list_all plain_elem out" unfolding clean_list_def by blast
  show ?thesis
  proof (cases "xs = []")
    case True
    with o have "butlast out = replicate (k - 1) ''..'' @ []" by (simp add: butlast_conv_take)
    with o show ?thesis unfolding clean_list_def
      by (intro conjI exI [of _ "k - 1"] exI [of _ "[]"]) (auto simp: list_all_iff dest: in_set_butlastD)
  next
    case False
    with o show ?thesis unfolding clean_list_def
      by (intro conjI exI [of _ k] exI [of _ "butlast xs"])
        (auto simp: list_all_iff butlast_append dest: in_set_butlastD)
  qed
qed

lemma clean_list_dots:
  assumes "clean_list False out" and "out = [] \<or> last out = ''..''"
  shows "clean_list False (out @ [''..''])"
proof -
  from assms(1) obtain k xs where o: "out = replicate k ''..'' @ xs" "''..'' \<notin> set xs" "list_all plain_elem out"
    by (auto simp: clean_list_def)
  have "xs = []"
  proof (rule ccontr)
    assume "xs \<noteq> []"
    with o assms(2) have "last xs = ''..''" by (cases k) auto
    with o(2) \<open>xs \<noteq> []\<close> last_in_set show False by metis
  qed
  with o show ?thesis unfolding clean_list_def
    by (intro conjI exI [of _ "Suc k"] exI [of _ "[]"])
      (auto simp: plain_elem_def slash_def replicate_append_same)
qed

lemma clean_elems_clean:
  "clean_list rooted out \<Longrightarrow> \<forall>e \<in> set es. slash \<notin> set e \<Longrightarrow> clean_list rooted (clean_elems rooted out es)"
proof (induction rooted out es rule: clean_elems.induct)
  case (2 rooted out e es)
  show ?case
  proof (cases "e = [] \<or> e = ''.''")
    case False
    show ?thesis
    proof (cases "e = ''..''")
      case True
      with False 2 clean_list_butlast [of rooted out] clean_list_dots [of out] show ?thesis
        by (cases "out \<noteq> [] \<and> last out \<noteq> ''..''"; cases rooted) auto
    next
      case n: False
      with False 2 clean_list_snoc [of rooted out e] show ?thesis by (auto simp: plain_elem_def)
    qed
  qed (use 2 in auto)
qed simp

lemma clean_elems_id: "clean_list rooted (out @ es) \<Longrightarrow> clean_elems rooted out es = out @ es"
proof (induction es arbitrary: out)
  case (Cons e es)
  have e: "plain_elem e" using Cons.prems by (auto simp: clean_list_def)
  have rest: "clean_elems rooted (out @ [e]) es = out @ e # es" using Cons.IH [of "out @ [e]"] Cons.prems by simp
  have dots: "\<not> rooted \<and> (out = [] \<or> last out = ''..'')" if "e = ''..''"
  proof -
    from Cons.prems obtain k xs where o: "out @ e # es = replicate k ''..'' @ xs" "''..'' \<notin> set xs" "rooted \<longrightarrow> k = 0"
      by (auto simp: clean_list_def)
    have "length out < k"
    proof (rule ccontr)
      assume "\<not> length out < k"
      then have "(replicate k ''..'' @ xs) ! length out = xs ! (length out - k)" by (simp add: nth_append)
      then have "e = xs ! (length out - k)" unfolding o(1) [symmetric] by simp
      moreover have "length out - k < length xs"
        using arg_cong [OF o(1), of length] \<open>\<not> length out < k\<close> by simp
      ultimately show False using that o(2) nth_mem by metis
    qed
    then have "out = replicate (length out) ''..''"
      using arg_cong [OF o(1), of "take (length out)"] by simp
    moreover have "\<not> rooted" using \<open>length out < k\<close> o(3) by auto
    ultimately show ?thesis by (metis last_replicate length_0_conv)
  qed
  show ?case using e rest dots by (auto simp: plain_elem_def)
qed simp

lemma split_on_cons_sep: "split_on c (c # s) = [] # split_on c s"
  using split_on_append_sep [of c "[]"] by simp

lemma clean_split:
  assumes "clean_list rooted out" and "out \<noteq> []"
  shows "split_on slash (join_with [slash] out) = out"
  using assms by (intro split_join) (auto simp: clean_list_def list_all_iff plain_elem_def)

lemma join_head:
  assumes "list_all plain_elem out" and "out \<noteq> []"
  shows "join_with [slash] out \<noteq> [] \<and> take 1 (join_with [slash] out) \<noteq> [slash]"
proof -
  obtain e es where o: "out = e # es" using assms(2) by (cases out) auto
  with assms(1) obtain c cs where "e = c # cs" "c \<noteq> slash" by (cases e) (auto simp: plain_elem_def)
  with o show ?thesis by (cases es) auto
qed

lemma path_clean_idem: "path_clean (path_clean p) = path_clean p"
proof -
  let ?r = "take 1 p = [slash]"
  let ?out = "clean_elems ?r [] (split_on slash p)"
  have "clean_list ?r []" by (simp add: clean_list_def)
  then have c: "clean_list ?r ?out" by (rule clean_elems_clean) (use split_on_no_sep in blast)
  have i: "clean_elems ?r [] ?out = ?out" using clean_elems_id [of ?r "[]"] c by simp
  show ?thesis
  proof (cases ?r)
    case True
    have "clean_elems True [] (split_on slash (slash # join_with [slash] ?out)) = ?out"
      using i True clean_split [OF c] by (cases "?out = []") (simp_all add: split_on_cons_sep)
    with True show ?thesis by (simp add: path_clean_def Let_def)
  next
    case False
    show ?thesis
    proof (cases "?out = []")
      case True
      have "path_clean ''.'' = ''.''" by code_simp
      with False True show ?thesis by (simp add: path_clean_def Let_def)
    next
      case n: False
      have "list_all plain_elem ?out" using c by (simp add: clean_list_def)
      from join_head [OF this n] have "take 1 (join_with [slash] ?out) \<noteq> [slash]" by simp
      with False n i clean_split [OF c n] show ?thesis by (simp add: path_clean_def Let_def)
    qed
  qed
qed

lemma path_clean_rooted: "take 1 p = [slash] \<Longrightarrow> take 1 (path_clean p) = [slash]"
  by (simp add: path_clean_def Let_def)

subsection \<open>Properties\<close>

text \<open>C38: which tmux server a command is for. The two socket flags exclude each other; a path
  goes before a name, a name before \<open>$TMUX\<close>, \<open>$TMUX\<close> before the default server of the
  user. With an absolute working directory every path that comes from a flag or from the
  default is absolute and clean, so that spellings with repeated slashes, dots and
  relative parts give the same path and hence the same daemon; what comes from \<open>$TMUX\<close> is
  its part before the first comma as it is.\<close>

theorem tmux_socket_canonical:
  assumes "env_cwd env = Inr wd" and "take 1 wd = [slash]"
  shows "(socketPath \<noteq> [] \<and> socketName \<noteq> [] \<longrightarrow> (\<exists>e. ResolveTmuxSocket env socketPath socketName = Inl e)) \<and>
    (socketPath = [] \<or> socketName = [] \<longrightarrow>
      (\<exists>r. ResolveTmuxSocket env socketPath socketName = Inr r \<and>
        (socketPath \<noteq> [] \<or> socketName \<noteq> [] \<or> env_TMUX env = [] \<longrightarrow> take 1 r = [slash] \<and> path_clean r = r) \<and>
        (socketPath \<noteq> [] \<longrightarrow> r = path_clean (if take 1 socketPath = [slash] then socketPath else wd @ [slash] @ socketPath)) \<and>
        (socketPath = [] \<and> socketName \<noteq> [] \<longrightarrow> r = path_clean (uid_dir env @ [slash] @ socketName)) \<and>
        (socketPath = [] \<and> socketName = [] \<and> env_TMUX env = [] \<longrightarrow> r = path_clean (uid_dir env @ ''/default'')) \<and>
        (socketPath = [] \<and> socketName = [] \<longrightarrow> env_TMUX env \<noteq> [] \<longrightarrow>
          r = takeWhile (\<lambda>c. c \<noteq> CHR '','') (env_TMUX env))))"
proof -
  have wd: "wd \<noteq> []" "uid_dir env \<noteq> []" "take 1 (uid_dir env) = [slash]" "CHR ''/'' = slash"
    using assms(2) by (auto simp: uid_dir_def slash_def)
  have head: "take (Suc 0) (path_clean (a @ b)) = [slash]" if "take 1 a = [slash]" for a b
  proof -
    have "take 1 (a @ b) = [slash]" using that by (cases a) auto
    then show ?thesis using path_clean_rooted by simp
  qed
  have abs: "path_abs env socketPath =
      Inr (path_clean (if take 1 socketPath = [slash] then socketPath else wd @ [slash] @ socketPath))"
    using assms wd by (simp add: path_abs_def path_join_def)
  have under: "path_join [uid_dir env, n] = path_clean (uid_dir env @ [slash] @ n)" for n
    using wd by (simp add: path_join_def)
  have tmux: "(case index_byte t c of Some i \<Rightarrow> Inr (take i t) | None \<Rightarrow> Inr t) = (Inr (takeWhile (\<lambda>x. x \<noteq> c) t) :: string + string)"
    for t :: string and c
    by (induction t) (auto split: option.splits simp del: index_byte_None)
  show ?thesis
    using abs under tmux wd head [OF assms(2)] head [OF wd(3)] path_clean_idem path_clean_rooted
    by (auto simp: ResolveTmuxSocket_def)
qed

theorem tmux_socket_canonical_witness:
  "ResolveTmuxSocket \<lparr>env_TMUX = [], env_XDG = [], env_uid = 7, env_tmpdir = ''/tmp'', env_cwd = Inr ''/home/u''\<rparr> ''../x//t.sock'' []
     = Inr ''/home/x/t.sock''"
proof -
  have "take 1 ''/home/u'' = [slash]" "path_clean (''/home/u'' @ [slash] @ ''../x//t.sock'') = ''/home/x/t.sock''"
    "take 1 ''../x//t.sock'' \<noteq> [slash]" by code_simp+
  with tmux_socket_canonical [of "\<lparr>env_TMUX = [], env_XDG = [], env_uid = 7, env_tmpdir = ''/tmp'', env_cwd = Inr ''/home/u''\<rparr>"
      "''/home/u''" "''../x//t.sock''" "[]"] show ?thesis by auto
qed

end
