(* ===== verification/Startup.thy ===== *)
theory Startup
  imports Sockets
begin

section \<open>Startup: the race for the daemon (internal/ipc/autospawn.go)\<close>

text \<open>
  Clients that run \<open>EnsureDaemon\<close> for one tmux server and the daemons they start. A ping
  that succeeds has reached a daemon that accepts; a ping may fail at any time, since the
  \<open>list\<close> it carries can outlast its two seconds. The lock is the advisory lock on the
  file next to the socket. Daemons are numbered in the order they are started.
\<close>

datatype client_pc =
    FastPing
  | WantLock
  | Locked
  | Spawning
  | Ready
  | Failed

record spawn_world =
  sp_sock :: sock
  sp_started :: nat
  sp_lock :: "nat option"
  sp_client :: "nat \<Rightarrow> client_pc"

text \<open>The flags say which faults may happen: a daemon is closed or killed, a client gives
  up polling or is killed.\<close>

record faults =
  ft_closing :: bool
  ft_giving_up :: bool

definition set_client :: "nat \<Rightarrow> client_pc \<Rightarrow> spawn_world \<Rightarrow> spawn_world" where
  "set_client c pc s = s\<lparr>sp_client := (sp_client s)(c := pc)\<rparr>"

definition leave :: "nat \<Rightarrow> client_pc \<Rightarrow> spawn_world \<Rightarrow> spawn_world" where
  "leave c pc s = (set_client c pc s)\<lparr>sp_lock := None\<rparr>"

definition pings :: "spawn_world \<Rightarrow> bool" where
  "pings s \<longleftrightarrow> reachable_daemon (sp_sock s) \<noteq> None"

definition opens :: "sock \<Rightarrow> sock \<Rightarrow> bool" where
  "opens s s' \<longleftrightarrow> (\<forall>d. sk_pc s d \<noteq> sk_pc s' d \<longrightarrow> sk_pc s d \<in> {Idle, Probed, Cleared})"

inductive ensure_step :: "faults \<Rightarrow> spawn_world \<Rightarrow> spawn_world \<Rightarrow> bool" for ft where
  fast_hit: "sp_client s c = FastPing \<Longrightarrow> pings s \<Longrightarrow> ensure_step ft s (set_client c Ready s)"
| fast_miss: "sp_client s c = FastPing \<Longrightarrow> ensure_step ft s (set_client c WantLock s)"
| no_path: "sp_client s c = FastPing \<Longrightarrow> ensure_step ft s (set_client c Failed s)"
| lock_fails: "sp_client s c = WantLock \<Longrightarrow> ensure_step ft s (set_client c Failed s)"
| lock: "sp_client s c = WantLock \<Longrightarrow> sp_lock s = None \<Longrightarrow>
    ensure_step ft s (set_client c Locked s\<lparr>sp_lock := Some c\<rparr>)"
| recheck_hit: "sp_client s c = Locked \<Longrightarrow> pings s \<Longrightarrow> ensure_step ft s (leave c Ready s)"
| spawn: "sp_client s c = Locked \<Longrightarrow> ensure_step ft s (set_client c Spawning s\<lparr>sp_started := Suc (sp_started s)\<rparr>)"
| spawn_fails: "sp_client s c = Locked \<Longrightarrow> ensure_step ft s (leave c Failed s)"
| poll_hit: "sp_client s c = Spawning \<Longrightarrow> pings s \<Longrightarrow> ensure_step ft s (leave c Ready s)"
| give_up: "sp_client s c = Spawning \<Longrightarrow> ft_giving_up ft \<Longrightarrow> ensure_step ft s (leave c Failed s)"
| daemon: "sock_step (sp_sock s) k \<Longrightarrow> (\<And>d. sk_pc (sp_sock s) d \<noteq> sk_pc k d \<Longrightarrow> d < sp_started s) \<Longrightarrow>
    opens (sp_sock s) k \<or> ft_closing ft \<Longrightarrow> ensure_step ft s (s\<lparr>sp_sock := k\<rparr>)"

inductive_cases ensure_stepE: "ensure_step ft s s'"

definition ensure_run :: "faults \<Rightarrow> spawn_world \<Rightarrow> spawn_world \<Rightarrow> bool" where
  "ensure_run ft = (ensure_step ft)\<^sup>*\<^sup>*"

text \<open>The start: no daemon of this race exists; the path may hold a stale file.\<close>

definition spawn_start :: "spawn_world \<Rightarrow> bool" where
  "spawn_start s \<longleftrightarrow> sp_started s = 0 \<and> sp_lock s = None \<and> (\<forall>c. sp_client s c = FastPing) \<and>
     (\<forall>d. sk_pc (sp_sock s) d = Idle) \<and> reachable_daemon (sp_sock s) = None"

text \<open>A daemon on its way to serving, and one that serves.\<close>

definition starting :: "spawn_world \<Rightarrow> nat \<Rightarrow> bool" where
  "starting s d \<longleftrightarrow> d < sp_started s \<and> sk_pc (sp_sock s) d \<in> {Idle, Probed, Cleared}"

definition active :: "spawn_world \<Rightarrow> nat \<Rightarrow> bool" where
  "active s d \<longleftrightarrow> sk_pc (sp_sock s) d = Serving"

text \<open>
  Whoever holds the lock is in the locked part. While no daemon is reachable, none
  serves, at most one is on its way, and then the lock holder is polling for it; once one
  is reachable, it alone serves and whoever else was started has not probed the path yet
  or has exited.
\<close>

definition lock_inv :: "spawn_world \<Rightarrow> bool" where
  "lock_inv s \<longleftrightarrow> (\<forall>c. sp_client s c = Locked \<or> sp_client s c = Spawning \<longrightarrow> sp_lock s = Some c)"

definition kinds_inv :: "spawn_world \<Rightarrow> bool" where
  "kinds_inv s \<longleftrightarrow> (\<forall>d. sk_pc (sp_sock s) d \<in> {Idle, Probed, Cleared, Serving, Exited} \<and>
     (sp_started s \<le> d \<longrightarrow> sk_pc (sp_sock s) d = Idle))"

definition reach_inv :: "spawn_world \<Rightarrow> bool" where
  "reach_inv s \<longleftrightarrow>
     (case reachable_daemon (sp_sock s) of
        Some d \<Rightarrow> \<forall>d'. d' \<noteq> d \<longrightarrow> sk_pc (sp_sock s) d' \<in> {Idle, Exited}
      | None \<Rightarrow> (\<forall>d. \<not> active s d) \<and> (\<forall>c. sp_client s c \<noteq> Ready) \<and>
          (\<forall>d d'. starting s d \<longrightarrow> starting s d' \<longrightarrow> d = d') \<and>
          (\<forall>d. starting s d \<longrightarrow> (\<exists>c. sp_client s c = Spawning)))"

definition spawn_inv :: "spawn_world \<Rightarrow> bool" where
  "spawn_inv s \<longleftrightarrow> lock_inv s \<and> kinds_inv s \<and> reach_inv s"

lemma reach_invD:
  assumes "reach_inv s"
  shows "reachable_daemon (sp_sock s) = Some r \<Longrightarrow> d \<noteq> r \<Longrightarrow> sk_pc (sp_sock s) d \<in> {Idle, Exited}"
    and "reachable_daemon (sp_sock s) = None \<Longrightarrow> \<not> active s d"
    and "reachable_daemon (sp_sock s) = None \<Longrightarrow> sp_client s c \<noteq> Ready"
    and "reachable_daemon (sp_sock s) = None \<Longrightarrow> starting s d \<Longrightarrow> starting s d' \<Longrightarrow> d = d'"
    and "reachable_daemon (sp_sock s) = None \<Longrightarrow> starting s d \<Longrightarrow> \<exists>c. sp_client s c = Spawning"
  using assms unfolding reach_inv_def by (simp, simp, simp, simp, fastforce)

lemma reach_invI:
  assumes "\<And>r d. reachable_daemon (sp_sock s) = Some r \<Longrightarrow> d \<noteq> r \<Longrightarrow> sk_pc (sp_sock s) d \<in> {Idle, Exited}"
    and "reachable_daemon (sp_sock s) = None \<Longrightarrow> (\<forall>d. \<not> active s d) \<and> (\<forall>c. sp_client s c \<noteq> Ready) \<and>
      (\<forall>d d'. starting s d \<longrightarrow> starting s d' \<longrightarrow> d = d') \<and> (\<forall>d. starting s d \<longrightarrow> (\<exists>c. sp_client s c = Spawning))"
  shows "reach_inv s"
  using assms unfolding reach_inv_def by (cases "reachable_daemon (sp_sock s)") simp_all

lemma reach_simps:
  "reachable_daemon (s\<lparr>sk_pc := (sk_pc s)(d := pc)\<rparr>) =
     (case sk_path s of None \<Rightarrow> None
      | Some d' \<Rightarrow> if (if d' = d then pc \<in> {Serving, Marked} else accepts s d') then Some d' else None)"
  "reachable_daemon (s\<lparr>sk_path := None, sk_pc := f\<rparr>) = None"
  by (auto simp: reachable_daemon_def accepts_def split: option.split)

lemma spawn_inv_start: "spawn_start s \<Longrightarrow> spawn_inv s"
  by (auto simp: spawn_inv_def spawn_start_def starting_def active_def lock_inv_def kinds_inv_def intro!: reach_invI)

text \<open>A client's step leaves the daemons alone.\<close>

lemma spawn_inv_frame:
  assumes "spawn_inv s" and "sp_sock s' = sp_sock s" "sp_started s' = sp_started s"
    and "\<And>c. sp_client s' c = Locked \<or> sp_client s' c = Spawning \<Longrightarrow> sp_lock s' = Some c"
    and "\<And>c. \<not> pings s \<Longrightarrow> sp_client s' c = Ready \<Longrightarrow> sp_client s c = Ready"
    and "\<And>c. \<not> pings s \<Longrightarrow> sp_client s c = Spawning \<Longrightarrow> sp_client s' c = Spawning"
  shows "spawn_inv s'"
proof -
  have same: "starting s' = starting s" "active s' = active s" "kinds_inv s' = kinds_inv s"
    by (simp_all add: fun_eq_iff starting_def active_def kinds_inv_def assms(2,3))
  have r: "reach_inv s" using assms(1) by (simp add: spawn_inv_def)
  have "reach_inv s'"
  proof (rule reach_invI, unfold assms(2) same)
    fix r d assume "reachable_daemon (sp_sock s) = Some r" "d \<noteq> r"
    then show "sk_pc (sp_sock s) d \<in> {Idle, Exited}" by (rule reach_invD(1) [OF r])
  next
    assume n: "reachable_daemon (sp_sock s) = None"
    then have "\<not> pings s" by (simp add: pings_def)
    with assms(5,6) reach_invD(2-5) [OF r n] show "(\<forall>d. \<not> active s d) \<and> (\<forall>c. sp_client s' c \<noteq> Ready) \<and>
      (\<forall>d d'. starting s d \<longrightarrow> starting s d' \<longrightarrow> d = d') \<and> (\<forall>d. starting s d \<longrightarrow> (\<exists>c. sp_client s' c = Spawning))"
      by meson
  qed
  with assms(1,4) same(3) show ?thesis by (simp add: spawn_inv_def lock_inv_def)
qed

lemma lock_holder: "spawn_inv s \<Longrightarrow> sp_client s c = Locked \<or> sp_client s c = Spawning \<Longrightarrow> sp_lock s = Some c"
  by (auto simp: spawn_inv_def lock_inv_def)

lemma spawn_inv_spawn:
  assumes "spawn_inv s" and "sp_client s c = Locked"
  shows "spawn_inv (set_client c Spawning s\<lparr>sp_started := Suc (sp_started s)\<rparr>)"
proof -
  let ?s = "set_client c Spawning s\<lparr>sp_started := Suc (sp_started s)\<rparr>"
  have h: "sp_lock s = Some c" using lock_holder [OF assms(1)] assms(2) by blast
  have n: "sp_client s x \<noteq> Spawning" for x
    using lock_holder [OF assms(1), of x] h assms(2) by (cases "x = c") auto
  have k: "lock_inv ?s" "kinds_inv ?s"
    using assms(1) h by (auto simp: spawn_inv_def lock_inv_def kinds_inv_def set_client_def)
  have r: "reach_inv s" using assms(1) by (simp add: spawn_inv_def)
  have "reach_inv ?s"
  proof (rule reach_invI)
    fix r d assume "reachable_daemon (sp_sock ?s) = Some r" "d \<noteq> r"
    with reach_invD(1) [OF r] show "sk_pc (sp_sock ?s) d \<in> {Idle, Exited}" by (simp add: set_client_def)
  next
    assume "reachable_daemon (sp_sock ?s) = None"
    then have u: "reachable_daemon (sp_sock s) = None" by (simp add: set_client_def)
    have "\<not> starting s d" for d using reach_invD(5) [OF r u] n by blast
    then have "d = sp_started s" if "starting ?s d" for d
      using that by (auto simp: starting_def set_client_def less_Suc_eq)
    moreover have "sp_client ?s c = Spawning" by (simp add: set_client_def)
    ultimately show "(\<forall>d. \<not> active ?s d) \<and> (\<forall>c. sp_client ?s c \<noteq> Ready) \<and>
      (\<forall>d d'. starting ?s d \<longrightarrow> starting ?s d' \<longrightarrow> d = d') \<and> (\<forall>d. starting ?s d \<longrightarrow> (\<exists>c. sp_client ?s c = Spawning))"
      using reach_invD(2,3) [OF r u] by (auto simp: active_def set_client_def)
  qed
  with k show ?thesis by (simp add: spawn_inv_def)
qed

text \<open>
  A step of a daemon that neither closes nor dies while it serves: when a daemon is
  reachable, the others can only exit; when none is, the one on its way goes on.
\<close>

lemma inv_kinds:
  assumes "spawn_inv s"
  shows "sk_pc (sp_sock s) d \<in> {Idle, Probed, Cleared, Serving, Exited}"
    and "sk_pc (sp_sock s) d \<noteq> Idle \<Longrightarrow> d < sp_started s"
  using assms by (auto simp: spawn_inv_def kinds_inv_def not_less [symmetric])

lemma spawn_inv_sock:
  assumes inv: "spawn_inv s" and own: "\<And>d. sk_pc (sp_sock s) d \<noteq> sk_pc k d \<Longrightarrow> d < sp_started s"
    and kinds: "\<And>d. sk_pc k d \<in> {Idle, Probed, Cleared, Serving, Exited}"
    and reach: "reach_inv (s\<lparr>sp_sock := k\<rparr>)"
  shows "spawn_inv (s\<lparr>sp_sock := k\<rparr>)"
proof -
  have "sk_pc k d = Idle" if "sp_started s \<le> d" for d
    using own [of d] inv_kinds(2) [OF inv, of d] that by (metis not_less)
  then show ?thesis using inv kinds reach by (simp add: spawn_inv_def lock_inv_def kinds_inv_def)
qed

lemma spawn_inv_others:
  assumes inv: "spawn_inv s" and own: "\<And>d. sk_pc (sp_sock s) d \<noteq> sk_pc k d \<Longrightarrow> d < sp_started s"
    and "sk_path k = Some t" "sk_pc k t = Serving" and others: "\<And>d. d \<noteq> t \<Longrightarrow> sk_pc k d \<in> {Idle, Exited}"
  shows "spawn_inv (s\<lparr>sp_sock := k\<rparr>)"
proof (rule spawn_inv_sock [OF inv own])
  fix d show "sk_pc k d \<in> {Idle, Probed, Cleared, Serving, Exited}"
    using assms(4) others [of d] by (cases "d = t") auto
next
  have "reachable_daemon k = Some t" using assms(3,4) by (simp add: reachable_daemon_def accepts_def)
  with others show "reach_inv (s\<lparr>sp_sock := k\<rparr>)" by (intro reach_invI) simp_all
qed

lemma spawn_inv_reached:
  assumes inv: "spawn_inv s" and step: "sock_step (sp_sock s) k"
    and own: "\<And>d. sk_pc (sp_sock s) d \<noteq> sk_pc k d \<Longrightarrow> d < sp_started s" and opens: "opens (sp_sock s) k"
    and r: "reachable_daemon (sp_sock s) = Some t"
  shows "spawn_inv (s\<lparr>sp_sock := k\<rparr>)"
proof -
  let ?k = "sp_sock s"
  have "reach_inv s" using inv by (simp add: spawn_inv_def)
  then have others: "sk_pc ?k d \<in> {Idle, Exited}" if "d \<noteq> t" for d using reach_invD(1) r that by blast
  have t: "sk_path ?k = Some t" "sk_pc ?k t = Serving"
    using r inv_kinds(1) [OF inv, of t] by (auto simp: reachable_daemon_def accepts_def split: option.splits if_splits)
  have exits: "spawn_inv (s\<lparr>sp_sock := k\<rparr>)" if "k = ?k\<lparr>sk_pc := (sk_pc ?k)(d := Exited)\<rparr>" "d \<noteq> t" for d
    using that t others by (intro spawn_inv_others [OF inv own]) auto
  have still: "sk_pc k t = Serving"
  proof (rule ccontr)
    assume "sk_pc k t \<noteq> Serving"
    with opens t(2) have "sk_pc ?k t \<in> {Idle, Probed, Cleared}" unfolding opens_def by metis
    with t(2) show False by simp
  qed
  from step show ?thesis
  proof cases
    case (bound_already d)
    with t show ?thesis by (intro exits [of d]) auto
  next
    case (killed d)
    with still show ?thesis by (intro exits [of d]) auto
  next
    case (clear d)
    with others [of d] t show ?thesis by (cases "d = t") simp_all
  next
    case (bind_fails d)
    with others [of d] t show ?thesis by (cases "d = t") simp_all
  next
    case (setup_fails d)
    with others [of d] t show ?thesis by (cases "d = t") simp_all
  next
    case (mark_closed d)
    with others [of d] still show ?thesis by (cases "d = t") simp_all
  next
    case (close_listener d)
    with inv_kinds(1) [OF inv, of d] show ?thesis by simp
  next
    case (remove_name d)
    with inv_kinds(1) [OF inv, of d] show ?thesis by simp
  qed (use r t in simp_all)
qed

lemma spawn_inv_unreached:
  assumes inv: "spawn_inv s" and own: "\<And>d. sk_pc (sp_sock s) d \<noteq> sk_pc k d \<Longrightarrow> d < sp_started s"
    and "reachable_daemon (sp_sock s) = None" and n: "reachable_daemon k = None"
    and p: "sk_pc k = (sk_pc (sp_sock s))(d := pc)"
    and q: "pc = Probed \<and> starting s d \<or> pc = Cleared \<and> starting s d \<or> pc = Exited"
  shows "spawn_inv (s\<lparr>sp_sock := k\<rparr>)"
proof (rule spawn_inv_sock [OF inv own])
  let ?s = "s\<lparr>sp_sock := k\<rparr>"
  have "reach_inv s" using inv by (simp add: spawn_inv_def)
  note u = reach_invD(2-5) [OF this assms(3)]
  show "sk_pc k x \<in> {Idle, Probed, Cleared, Serving, Exited}" for x
    using p q inv_kinds(1) [OF inv, of x] by auto
  have g: "starting s x" if "starting ?s x" for x
    using that p q by (auto simp: starting_def split: if_splits)
  have "\<not> active ?s x" for x using p q u(1) [of x] by (auto simp: active_def)
  then show "reach_inv ?s"
    using u(2) u(3) [OF g g] u(4) [OF g] by (intro reach_invI) (simp_all add: n)
qed

lemma spawn_inv_starting:
  assumes inv: "spawn_inv s" and step: "sock_step (sp_sock s) k"
    and own: "\<And>d. sk_pc (sp_sock s) d \<noteq> sk_pc k d \<Longrightarrow> d < sp_started s"
    and none: "reachable_daemon (sp_sock s) = None"
  shows "spawn_inv (s\<lparr>sp_sock := k\<rparr>)"
proof -
  let ?k = "sp_sock s"
  have "reach_inv s" using inv by (simp add: spawn_inv_def)
  note u = reach_invD(2-5) [OF this none]
  note kinds = inv_kinds(1) [OF inv]
  note sub = spawn_inv_unreached [OF inv own none]
  have noserve: "sk_pc ?k d \<noteq> Serving" for d using u(1) [of d] by (simp add: active_def)
  have start: "starting s d" if "sk_pc ?k d = Probed \<or> sk_pc ?k d = Cleared" for d
    using inv_kinds(2) [OF inv, of d] that by (auto simp: starting_def)
  have idle: "sk_pc ?k d' \<in> {Idle, Exited}" if "sk_pc ?k d = Cleared" "d' \<noteq> d" for d d'
    using kinds [of d'] u(3) [OF start start, of d d'] noserve that by auto
  have path: "reachable_daemon (?k\<lparr>sk_pc := (sk_pc ?k)(d := pc)\<rparr>) = None" if "pc \<in> {Probed, Exited}" for d pc
    using none that by (auto simp: reachable_daemon_def accepts_def split: option.splits if_splits)
  from step show ?thesis
  proof cases
    case (probe d)
    then have "starting s d" using own [of d] by (auto simp: starting_def)
    with probe path show ?thesis by (intro sub [where d = d and pc = Probed]) simp_all
  next
    case (clear d)
    with start show ?thesis by (intro sub [where d = d and pc = Cleared]) (simp_all add: reach_simps)
  next
    case (bind d)
    with idle [of d] show ?thesis by (intro spawn_inv_others [OF inv own, where t = d]) auto
  next
    case (bind_fails d)
    with path show ?thesis by (intro sub [where d = d and pc = Exited]) simp_all
  next
    case (setup_fails d)
    with path show ?thesis by (intro sub [where d = d and pc = Exited]) simp_all
  next
    case (killed d)
    with path show ?thesis by (intro sub [where d = d and pc = Exited]) simp_all
  next
    case (mark_closed d)
    with noserve [of d] show ?thesis by simp
  next
    case (close_listener d)
    with kinds [of d] show ?thesis by simp
  next
    case (remove_name d)
    with kinds [of d] show ?thesis by simp
  qed (use none in simp)
qed

lemma spawn_inv_daemon:
  assumes "spawn_inv s" and "sock_step (sp_sock s) k"
    and "\<And>d. sk_pc (sp_sock s) d \<noteq> sk_pc k d \<Longrightarrow> d < sp_started s" and "opens (sp_sock s) k"
  shows "spawn_inv (s\<lparr>sp_sock := k\<rparr>)"
  using spawn_inv_reached [OF assms] spawn_inv_starting [OF assms(1-3)]
  by (cases "reachable_daemon (sp_sock s)") simp_all

lemma lock_exclusive:
  "spawn_inv s \<Longrightarrow> sp_client s c = Locked \<or> sp_client s c = Spawning \<Longrightarrow> c' \<noteq> c \<Longrightarrow>
   sp_client s c' \<noteq> Locked \<and> sp_client s c' \<noteq> Spawning"
  using lock_holder [of s c] lock_holder [of s c'] by auto

lemma spawn_inv_leave:
  assumes "spawn_inv s" and "sp_client s c = Locked \<or> sp_client s c = Spawning" and "pc \<in> {Ready, Failed}"
    and "pings s \<or> pc = Failed \<and> sp_client s c = Locked"
  shows "spawn_inv (leave c pc s)"
  by (rule spawn_inv_frame [OF assms(1)])
    (use assms lock_exclusive [OF assms(1,2)] in \<open>auto simp: set_client_def leave_def split: if_splits\<close>)

lemma spawn_inv_client:
  assumes "spawn_inv s" and "sp_client s c = FastPing \<or> sp_client s c = WantLock"
    and "pc = WantLock \<or> pc = Failed \<or> pc = Ready \<and> pings s"
  shows "spawn_inv (set_client c pc s)"
  by (rule spawn_inv_frame [OF assms(1)])
    (use assms(2,3) lock_holder [OF assms(1)] in \<open>auto simp: set_client_def split: if_splits\<close>)

lemma spawn_inv_step:
  assumes inv: "spawn_inv s" and step: "ensure_step ft s s'" and "\<not> ft_closing ft" "\<not> ft_giving_up ft"
  shows "spawn_inv s'"
  using step
proof cases
  case (spawn c)
  with spawn_inv_spawn [OF inv] show ?thesis by simp
next
  case (daemon k)
  with spawn_inv_daemon [OF inv] assms(3) show ?thesis by simp
next
  case (lock c)
  with lock_holder [OF inv] show ?thesis
    by (intro spawn_inv_frame [OF inv]) (auto simp: set_client_def split: if_splits)
next
  case (recheck_hit c)
  with spawn_inv_leave [OF inv, of c] show ?thesis by simp
next
  case (spawn_fails c)
  with spawn_inv_leave [OF inv, of c] show ?thesis by simp
next
  case (poll_hit c)
  with spawn_inv_leave [OF inv, of c] show ?thesis by simp
next
  case (fast_hit c)
  with spawn_inv_client [OF inv, of c] show ?thesis by simp
next
  case (no_path c)
  with spawn_inv_client [OF inv, of c] show ?thesis by simp
next
  case (lock_fails c)
  with spawn_inv_client [OF inv, of c] show ?thesis by simp
next
  case (fast_miss c)
  with spawn_inv_client [OF inv, of c] show ?thesis by simp
qed (use assms(4) in simp)

lemma spawn_inv_run:
  assumes "ensure_run ft s0 s" and "spawn_start s0" and "\<not> ft_closing ft" "\<not> ft_giving_up ft"
  shows "spawn_inv s"
  using assms(1) unfolding ensure_run_def
proof (induction rule: rtranclp_induct)
  case base
  show ?case by (rule spawn_inv_start [OF assms(2)])
next
  case (step s s')
  show ?case by (rule spawn_inv_step [OF step.IH step.hyps(2) assms(3,4)])
qed

lemma inv_active: "spawn_inv s \<Longrightarrow> active s d \<Longrightarrow> reachable_daemon (sp_sock s) = Some d"
proof -
  assume i: "spawn_inv s" and d: "active s d"
  then have r: "reach_inv s" by (simp add: spawn_inv_def)
  show "reachable_daemon (sp_sock s) = Some d"
  proof (cases "reachable_daemon (sp_sock s)")
    case None
    with reach_invD(2) [OF r] d show ?thesis by blast
  next
    case (Some t)
    with reach_invD(1) [OF r Some, of d] d show ?thesis by (auto simp: active_def)
  qed
qed

subsection \<open>Concrete runs\<close>

definition no_daemon :: spawn_world where
  "no_daemon = \<lparr>sp_sock = \<lparr>sk_path = None, sk_pc = \<lambda>_. Idle\<rparr>, sp_started = 0, sp_lock = None,
     sp_client = \<lambda>_. FastPing\<rparr>"

lemma no_daemon_start: "spawn_start no_daemon"
  by (simp add: spawn_start_def no_daemon_def reachable_daemon_def)

definition with_daemon :: "nat \<Rightarrow> daemon_pc \<Rightarrow> nat option \<Rightarrow> spawn_world \<Rightarrow> spawn_world" where
  "with_daemon d pc path s = s\<lparr>sp_sock := (sp_sock s)\<lparr>sk_path := path, sk_pc := (sk_pc (sp_sock s))(d := pc)\<rparr>\<rparr>"

lemma run_then: "ensure_run ft s0 s \<Longrightarrow> ensure_step ft s s' \<Longrightarrow> ensure_run ft s0 s'"
  unfolding ensure_run_def by (rule rtranclp.rtrancl_into_rtrancl)

lemma run_start: "ensure_run ft s s"
  by (simp add: ensure_run_def)

text \<open>A client misses, gets the lock and starts the next daemon.\<close>

lemma run_spawn:
  assumes "ensure_run ft s0 s" and "sp_client s c = FastPing" and "sp_lock s = None"
  shows "ensure_run ft s0 (set_client c Spawning s\<lparr>sp_lock := Some c, sp_started := Suc (sp_started s)\<rparr>)"
proof -
  note 1 = run_then [OF assms(1) fast_miss [OF assms(2)]]
  note 2 = run_then [OF 1 lock [of _ c]]
  note 3 = run_then [OF 2 spawn [of _ c]]
  have e: "set_client c Spawning (set_client c Locked (set_client c WantLock s)\<lparr>sp_lock := Some c\<rparr>)
        \<lparr>sp_started := Suc (sp_started (set_client c Locked (set_client c WantLock s)\<lparr>sp_lock := Some c\<rparr>))\<rparr> =
      set_client c Spawning s\<lparr>sp_lock := Some c, sp_started := Suc (sp_started s)\<rparr>"
    by (simp add: set_client_def)
  show ?thesis using 3 unfolding e by (simp add: set_client_def assms(3))
qed

lemma run_daemon:
  assumes "ensure_run ft s0 s" and "d < sp_started s" and "sk_pc (sp_sock s) d \<in> {Idle, Probed, Cleared}"
    and "sock_step (sp_sock s) ((sp_sock s)\<lparr>sk_path := path, sk_pc := (sk_pc (sp_sock s))(d := pc)\<rparr>)"
  shows "ensure_run ft s0 (with_daemon d pc path s)"
proof (rule run_then [OF assms(1)])
  show "ensure_step ft s (with_daemon d pc path s)"
    unfolding with_daemon_def
    by (rule daemon [OF assms(4)]) (use assms(2,3) in \<open>auto simp: opens_def split: if_splits\<close>)
qed

lemma run_probe:
  assumes "ensure_run ft s0 s" and "d < sp_started s" and "sk_pc (sp_sock s) d = Idle" "sk_path (sp_sock s) = None"
  shows "ensure_run ft s0 (with_daemon d Probed None s)"
proof (rule run_daemon [OF assms(1,2)])
  have n: "reachable_daemon (sp_sock s) = None" using assms(4) by (simp add: reachable_daemon_def)
  have same: "sp_sock s\<lparr>sk_path := None, sk_pc := f\<rparr> = sp_sock s\<lparr>sk_pc := f\<rparr>" for f
    by (simp flip: assms(4))
  show "sk_pc (sp_sock s) d \<in> {Idle, Probed, Cleared}" using assms(3) by simp
  show "sock_step (sp_sock s) (sp_sock s\<lparr>sk_path := None, sk_pc := (sk_pc (sp_sock s))(d := Probed)\<rparr>)"
    using probe [OF assms(3) n] by (simp only: same)
qed

lemma run_clear:
  assumes "ensure_run ft s0 s" and "d < sp_started s" and "sk_pc (sp_sock s) d = Probed"
  shows "ensure_run ft s0 (with_daemon d Cleared None s)"
  by (rule run_daemon [OF assms(1,2)]) (use clear [OF assms(3)] assms(3) in simp_all)

lemma run_bind:
  assumes "ensure_run ft s0 s" and "d < sp_started s" and "sk_pc (sp_sock s) d = Cleared" "sk_path (sp_sock s) = None"
  shows "ensure_run ft s0 (with_daemon d Serving (Some d) s)"
  by (rule run_daemon [OF assms(1,2)]) (use bind [OF assms(3,4)] assms(3) in simp_all)

lemma world_sel [simp]:
  "sp_started (with_daemon d pc path s) = sp_started s" "sp_lock (with_daemon d pc path s) = sp_lock s"
  "sp_client (with_daemon d pc path s) = sp_client s" "sk_path (sp_sock (with_daemon d pc path s)) = path"
  "sk_pc (sp_sock (with_daemon d pc path s)) = (sk_pc (sp_sock s))(d := pc)"
  "sp_sock (set_client c cpc s) = sp_sock s" "sp_client (set_client c cpc s) = (sp_client s)(c := cpc)"
  "sp_started (set_client c cpc s) = sp_started s" "sp_lock (set_client c cpc s) = sp_lock s"
  "sp_sock (leave c cpc s) = sp_sock s" "sp_client (leave c cpc s) = (sp_client s)(c := cpc)"
  "sp_started (leave c cpc s) = sp_started s" "sp_lock (leave c cpc s) = None"
  by (simp_all add: with_daemon_def set_client_def leave_def)

lemma no_daemon_sel [simp]:
  "sp_started no_daemon = 0" "sp_lock no_daemon = None" "sp_client no_daemon c = FastPing"
  "sk_path (sp_sock no_daemon) = None" "sk_pc (sp_sock no_daemon) d = Idle"
  by (simp_all add: no_daemon_def)

lemma run_closing:
  assumes "ensure_run ft s0 s" and "d < sp_started s" and "ft_closing ft"
    and "sock_step (sp_sock s) ((sp_sock s)\<lparr>sk_path := path, sk_pc := (sk_pc (sp_sock s))(d := pc)\<rparr>)"
  shows "ensure_run ft s0 (with_daemon d pc path s)"
proof (rule run_then [OF assms(1)])
  show "ensure_step ft s (with_daemon d pc path s)"
    unfolding with_daemon_def
    by (rule daemon [OF assms(4)]) (use assms(2,3) in \<open>auto split: if_splits\<close>)
qed

text \<open>
  A closing daemon removes the name a second time, after its listener has unlinked it: a
  daemon that bound the path in between serves on, but nothing leads to it any more.
\<close>

lemma close_unlinks_successor:
  "\<exists>s. ensure_run \<lparr>ft_closing = True, ft_giving_up = False\<rparr> no_daemon s \<and>
     active s 1 \<and> reachable_daemon (sp_sock s) = None"
proof -
  note 1 = run_spawn [OF run_start [of "\<lparr>ft_closing = True, ft_giving_up = False\<rparr>" no_daemon], of 0, simplified]
  note 2 = run_probe [OF 1, of 0, simplified]
  note 3 = run_clear [OF 2, of 0, simplified]
  note 4 = run_bind [OF 3, of 0, simplified]
  note 5 = run_then [OF 4 poll_hit [of _ 0], simplified pings_def reachable_daemon_def accepts_def, simplified]
  have m: "sock_step k (k\<lparr>sk_path := Some 0, sk_pc := (sk_pc k)(0 := Marked)\<rparr>)"
    if "sk_path k = Some 0" "sk_pc k 0 = Serving" for k
    using mark_closed [OF that(2)] by (simp flip: that(1))
  note 6 = run_closing [OF 5 _ _ m, simplified]
  note 7 = run_closing [OF 6 _ _ close_listener [of _ 0], simplified]
  note 8 = run_spawn [OF 7, of 1, simplified]
  note 9 = run_probe [OF 8, of 1, simplified]
  note 10 = run_clear [OF 9, of 1, simplified]
  note 11 = run_bind [OF 10, of 1, simplified]
  note 12 = run_closing [OF 11 _ _ remove_name [of _ 0], simplified]
  show ?thesis by (rule exI, rule conjI, rule 12) (simp add: active_def reachable_daemon_def)
qed

text \<open>
  Giving up opens the race. A command stops polling after two seconds although the daemon
  it started may still be on its way, and releases the lock. Then the next command starts
  a second daemon, and when the first one, which has already probed the path, removes the
  file and binds, both serve and the socket of the second is gone: it runs on, subscribed
  to the tmux server, and no command can reach or stop it.
\<close>

lemma slow_start_orphans:
  "\<exists>s. ensure_run \<lparr>ft_closing = False, ft_giving_up = True\<rparr> no_daemon s \<and>
     active s 0 \<and> active s 1 \<and> reachable_daemon (sp_sock s) = Some 0"
proof -
  note 1 = run_spawn [OF run_start [of "\<lparr>ft_closing = False, ft_giving_up = True\<rparr>" no_daemon], of 0, simplified]
  note 2 = run_probe [OF 1, of 0, simplified]
  note 3 = run_then [OF 2 give_up [of _ 0], simplified]
  note 4 = run_spawn [OF 3, of 1, simplified]
  note 5 = run_probe [OF 4, of 1, simplified]
  note 6 = run_clear [OF 5, of 1, simplified]
  note 7 = run_bind [OF 6, of 1, simplified]
  note 8 = run_clear [OF 7, of 0, simplified]
  note 9 = run_bind [OF 8, of 0, simplified]
  show ?thesis by (rule exI, rule conjI, rule 9) (simp add: active_def reachable_daemon_def accepts_def)
qed

subsection \<open>No client is stuck\<close>

text \<open>
  Whatever was closed, killed or given up before: the lock is free or held by a client
  that can let go of it, and the next daemon to be started has not run yet.
\<close>

definition open_inv :: "spawn_world \<Rightarrow> bool" where
  "open_inv s \<longleftrightarrow> (\<forall>h. sp_lock s = Some h \<longrightarrow> sp_client s h = Locked \<or> sp_client s h = Spawning) \<and>
     (\<forall>d. sp_started s \<le> d \<longrightarrow> sk_pc (sp_sock s) d = Idle)"

lemma open_inv_step:
  assumes "open_inv s" and "ensure_step ft s s'"
  shows "open_inv s'"
  using assms(2)
proof cases
  case (daemon k)
  have "sk_pc k d = Idle" if "sp_started s \<le> d" for d
    using daemon(3) [of d] assms(1) that by (metis open_inv_def not_less)
  with daemon(1) assms(1) show ?thesis by (simp add: open_inv_def)
qed (use assms(1) in \<open>auto simp: open_inv_def set_client_def leave_def\<close>)

lemma open_inv_run:
  assumes "ensure_run ft s0 s" and "spawn_start s0"
  shows "open_inv s"
  using assms(1) unfolding ensure_run_def
proof (induction rule: rtranclp_induct)
  case base
  with assms(2) show ?case by (simp add: open_inv_def spawn_start_def)
qed (rule open_inv_step)

definition can_reach :: "faults \<Rightarrow> spawn_world \<Rightarrow> (spawn_world \<Rightarrow> bool) \<Rightarrow> bool" where
  "can_reach ft s P \<longleftrightarrow> (\<exists>s'. ensure_run ft s s' \<and> P s')"

lemma can_now: "P s \<Longrightarrow> can_reach ft s P"
  using run_start by (auto simp: can_reach_def)

lemma can_step: "ensure_step ft s s' \<Longrightarrow> can_reach ft s' P \<Longrightarrow> can_reach ft s P"
  unfolding can_reach_def ensure_run_def by (meson converse_rtranclp_into_rtranclp)

lemma can_daemon:
  assumes "d < sp_started s" and "sk_pc (sp_sock s) d \<in> {Idle, Probed, Cleared}"
    and "sock_step (sp_sock s) ((sp_sock s)\<lparr>sk_path := path, sk_pc := (sk_pc (sp_sock s))(d := pc)\<rparr>)"
    and "can_reach ft (with_daemon d pc path s) P"
  shows "can_reach ft s P"
proof -
  from assms(4) obtain s' where s': "ensure_run ft (with_daemon d pc path s) s'" "P s'" by (auto simp: can_reach_def)
  have "ensure_run ft s s'"
    using run_daemon [OF run_start assms(1-3), of ft] s'(1) unfolding ensure_run_def by (rule rtranclp_trans)
  with s'(2) show ?thesis by (auto simp: can_reach_def)
qed

lemma poll_ready:
  "sp_client s c = Spawning \<Longrightarrow> pings s \<Longrightarrow> can_reach ft s (\<lambda>s'. sp_client s' c = Ready)"
  by (rule can_step [OF poll_hit], assumption+, rule can_now) simp

text \<open>A client whose fresh daemon has not run yet becomes ready.\<close>

lemma fresh_ready:
  assumes "sp_client s c = Spawning" and "d < sp_started s" and "sk_pc (sp_sock s) d = Idle"
  shows "can_reach ft s (\<lambda>s'. sp_client s' c = Ready)"
proof (cases "pings s")
  case True
  with assms(1) show ?thesis by (rule poll_ready)
next
  case False
  let ?k = "sp_sock s"
  have r: "reachable_daemon ?k = None" using False by (simp add: pings_def)
  have same: "?k\<lparr>sk_path := sk_path ?k, sk_pc := f\<rparr> = ?k\<lparr>sk_pc := f\<rparr>" for f by simp
  let ?s1 = "with_daemon d Probed (sk_path ?k) s"
  let ?s2 = "with_daemon d Cleared None ?s1"
  let ?s3 = "with_daemon d Serving (Some d) ?s2"
  have "can_reach ft ?s3 (\<lambda>s'. sp_client s' c = Ready)"
    using assms(1) by (intro poll_ready) (simp_all add: pings_def reachable_daemon_def accepts_def)
  then have "can_reach ft ?s2 (\<lambda>s'. sp_client s' c = Ready)"
    using assms(2) bind [of "sp_sock ?s2" d] by (intro can_daemon [where d = d and s = "?s2" and pc = Serving and path = "Some d"]) simp_all
  then have "can_reach ft ?s1 (\<lambda>s'. sp_client s' c = Ready)"
    using assms(2) clear [of "sp_sock ?s1" d] by (intro can_daemon [where d = d and s = "?s1" and pc = Cleared and path = "None"]) simp_all
  then show ?thesis
    using assms(2,3) probe [OF assms(3) r] by (intro can_daemon [where d = d and s = "s" and pc = Probed and path = "sk_path ?k"]) (simp_all add: same)
qed

lemma locked_ready:
  assumes "open_inv s" and "sp_client s c = Locked"
  shows "can_reach ft s (\<lambda>s'. sp_client s' c = Ready)"
  by (rule can_step [OF spawn [of _ c, OF assms(2)]], rule fresh_ready [of _ _ "sp_started s"])
    (use assms(1) in \<open>simp_all add: set_client_def open_inv_def\<close>)

lemma waiting_ready:
  assumes "open_inv s" and "sp_client s c = WantLock" and "ft_giving_up ft"
  shows "can_reach ft s (\<lambda>s'. sp_client s' c = Ready)"
proof -
  have free: "can_reach ft s (\<lambda>s'. sp_client s' c = Ready)"
    if "open_inv s" "sp_client s c = WantLock" "sp_lock s = None" for s
    using lock [OF that(2,3), of ft] open_inv_step [OF that(1) lock [OF that(2,3)]]
    by (elim can_step) (rule locked_ready, simp_all add: set_client_def)
  show ?thesis
  proof (cases "sp_lock s")
    case None
    with free assms(1,2) show ?thesis by blast
  next
    case (Some h)
    have "ensure_step ft s (leave h Failed s)"
      using assms(1,3) Some spawn_fails [of s h ft] give_up [of s h ft] by (auto simp: open_inv_def)
    moreover have "h \<noteq> c" using assms(1,2) Some by (auto simp: open_inv_def)
    ultimately show ?thesis
      using can_step [OF _ free [of "leave h Failed s"]] open_inv_step [OF assms(1)] assms(2) by fastforce
  qed
qed

subsection \<open>Properties\<close>

text \<open>C8: the startup race has at most one winner. However many commands find no daemon and
  interleave, and whatever pings time out, as long as no command gives up polling and no
  daemon is closed or killed: at most one daemon serves, it is the one the socket path
  leads to, every command that got a client reaches it, and only the holder of the lock is
  between its second ping and the end of its polling.\<close>

theorem one_daemon:
  assumes "spawn_start s0" and "ensure_run ft s0 s" and "\<not> ft_closing ft" and "\<not> ft_giving_up ft"
  shows "(active s d \<longrightarrow> reachable_daemon (sp_sock s) = Some d) \<and>
    (active s d \<and> active s d' \<longrightarrow> d = d') \<and>
    (sp_client s c = Ready \<longrightarrow> (\<exists>r. reachable_daemon (sp_sock s) = Some r \<and> active s r)) \<and>
    (sp_client s c \<in> {Locked, Spawning} \<longrightarrow> sp_lock s = Some c)"
proof -
  have inv: "spawn_inv s" by (rule spawn_inv_run [OF assms(2,1,3,4)])
  then have r: "reach_inv s" and k: "kinds_inv s" by (simp_all add: spawn_inv_def)
  have "\<exists>r. reachable_daemon (sp_sock s) = Some r \<and> active s r" if "sp_client s c = Ready"
  proof (cases "reachable_daemon (sp_sock s)")
    case None
    with reach_invD(3) [OF r] that show ?thesis by blast
  next
    case (Some t)
    then have "sk_pc (sp_sock s) t \<in> {Serving, Marked}"
      by (auto simp: reachable_daemon_def accepts_def split: option.splits if_splits)
    moreover have "sk_pc (sp_sock s) t \<noteq> Marked" using k by (auto simp: kinds_inv_def dest: spec [of _ t])
    ultimately show ?thesis using Some by (simp add: active_def)
  qed
  moreover have "d = d'" if "active s d" "active s d'"
    using inv_active [OF inv that(1)] inv_active [OF inv that(2)] by simp
  ultimately show ?thesis using inv_active [OF inv] lock_holder [OF inv, of c] by blast
qed

theorem one_daemon_witness:
  "\<exists>s. ensure_run \<lparr>ft_closing = False, ft_giving_up = False\<rparr> no_daemon s \<and> active s 0 \<and>
     reachable_daemon (sp_sock s) = Some 0"
proof -
  note 1 = run_spawn [OF run_start [of "\<lparr>ft_closing = False, ft_giving_up = False\<rparr>" no_daemon], of 0, simplified]
  note 2 = run_probe [OF 1, of 0, simplified]
  note 3 = run_clear [OF 2, of 0, simplified]
  note 4 = run_bind [OF 3, of 0, simplified]
  have "active (with_daemon 0 Serving (Some 0) (with_daemon 0 Cleared None (with_daemon 0 Probed None
      (set_client 0 Spawning no_daemon\<lparr>sp_lock := Some 0, sp_started := Suc 0\<rparr>)))) 0" by (simp add: active_def)
  with 4 one_daemon [OF no_daemon_start 4, of 0 0 0] show ?thesis by auto
qed

text \<open>C9: no command is stuck in the race. From every state the race can get into, whatever
  daemons were closed or killed and whatever commands failed or gave up before, a command
  that has not started a daemon yet can still get its client, and every command can end,
  those that poll for a daemon that never comes by giving up.\<close>

theorem clients_never_stuck:
  assumes "spawn_start s0" and "ensure_run ft s0 s" and "ft_giving_up ft"
  shows "(sp_client s c \<notin> {Spawning, Failed} \<longrightarrow> (\<exists>s'. ensure_run ft s s' \<and> sp_client s' c = Ready)) \<and>
    (\<exists>s'. ensure_run ft s s' \<and> sp_client s' c \<in> {Ready, Failed})"
proof -
  have inv: "open_inv s" by (rule open_inv_run [OF assms(2,1)])
  have ready: "can_reach ft s (\<lambda>s'. sp_client s' c = Ready)" if n: "sp_client s c \<notin> {Spawning, Failed}"
  proof (cases "sp_client s c")
    case FastPing
    from open_inv_step [OF inv fast_miss [OF this]] have "open_inv (set_client c WantLock s)" .
    then show ?thesis by (rule can_step [OF fast_miss [OF FastPing] waiting_ready]) (simp_all add: assms(3))
  qed (use n inv assms(3) locked_ready waiting_ready can_now in auto)
  have "can_reach ft s (\<lambda>s'. sp_client s' c \<in> {Ready, Failed})"
  proof (cases "sp_client s c = Spawning")
    case True
    from can_step [OF give_up [OF this assms(3)] can_now] show ?thesis by simp
  next
    case False
    with ready can_now [of "\<lambda>s'. sp_client s' c \<in> {Ready, Failed}" s ft] show ?thesis by (auto simp: can_reach_def)
  qed
  with ready show ?thesis unfolding can_reach_def by blast
qed

theorem clients_never_stuck_witness:
  "\<exists>s'. ensure_run \<lparr>ft_closing = True, ft_giving_up = True\<rparr>
      (set_client 3 Spawning no_daemon\<lparr>sp_lock := Some 3, sp_started := 1\<rparr>) s' \<and> sp_client s' 5 = Ready"
proof -
  have "ensure_run \<lparr>ft_closing = True, ft_giving_up = True\<rparr> no_daemon
      (set_client 3 Spawning no_daemon\<lparr>sp_lock := Some 3, sp_started := 1\<rparr>)"
    using run_spawn [OF run_start, of no_daemon 3] by simp
  from clients_never_stuck [OF no_daemon_start this, of 5] show ?thesis by simp
qed

end
