(* ===== verification/Flags.thy ===== *)
theory Flags
  imports Strconv
begin

section \<open>Flags: the part of package \<open>flag\<close> the program uses\<close>

text \<open>
  A \<open>FlagSet\<close> with \<open>ContinueOnError\<close>: its flags with their values, string, integer or
  boolean. \<open>Parse\<close> goes through the arguments until the first that is no flag, or past a
  double dash. Integers are read by \<open>strconv.ParseInt\<close> with base 0, which admits a sign, a
  base prefix and underscores between digits.
\<close>

subsection \<open>Integers\<close>

definition lower :: "char \<Rightarrow> char" where
  "lower c = (if byte_in 65 90 c then char_of (of_char c + 32 :: nat) else c)"

definition digit_any :: "char \<Rightarrow> nat option" where
  "digit_any c =
     (if is_digit c then Some (digit_val c)
      else if byte_in 97 122 (lower c) then Some (of_char (lower c) - 87)
      else None)"

text \<open>\<open>ParseUint\<close>: the base and the digits after its prefix.\<close>

definition int_base :: "string \<Rightarrow> nat \<times> string" where
  "int_base s =
     (if take 1 s \<noteq> ''0'' then (10, s)
      else if 3 \<le> length s \<and> lower (s ! 1) = CHR ''b'' then (2, drop 2 s)
      else if 3 \<le> length s \<and> lower (s ! 1) = CHR ''o'' then (8, drop 2 s)
      else if 3 \<le> length s \<and> lower (s ! 1) = CHR ''x'' then (16, drop 2 s)
      else (8, drop 1 s))"

fun scan_base :: "nat \<Rightarrow> int \<Rightarrow> string \<Rightarrow> int option" where
  "scan_base base n [] = Some n"
| "scan_base base n (c # cs) =
     (if c = CHR ''_'' then scan_base base n cs
      else case digit_any c of
        None \<Rightarrow> None
      | Some d \<Rightarrow> if base \<le> d then None else scan_base base (n * int base + int d) cs)"

text \<open>\<open>underscoreOK\<close>: the class of the last character is a digit, an underscore or another.\<close>

fun underscores_ok :: "bool \<Rightarrow> char \<Rightarrow> string \<Rightarrow> bool" where
  "underscores_ok hex saw [] \<longleftrightarrow> saw \<noteq> CHR ''_''"
| "underscores_ok hex saw (c # cs) \<longleftrightarrow>
     (if is_digit c \<or> hex \<and> byte_in 97 102 (lower c) then underscores_ok hex (CHR ''0'') cs
      else if c = CHR ''_'' then saw = CHR ''0'' \<and> underscores_ok hex (CHR ''_'') cs
      else saw \<noteq> CHR ''_'' \<and> underscores_ok hex (CHR ''!'') cs)"

definition underscoreOK :: "string \<Rightarrow> bool" where
  "underscoreOK s =
     (if 2 \<le> length s \<and> take 1 s = ''0'' \<and> lower (s ! 1) \<in> {CHR ''b'', CHR ''o'', CHR ''x''}
      then underscores_ok (lower (s ! 1) = CHR ''x'') (CHR ''0'') (drop 2 s)
      else underscores_ok False (CHR ''^'') s)"

definition parse_int0 :: "string \<Rightarrow> int option" where
  "parse_int0 s =
     (let (neg, u) = (case s of
           c # r \<Rightarrow> if c = CHR ''+'' then (False, r) else if c = CHR ''-'' then (True, r) else (False, s)
         | [] \<Rightarrow> (False, []));
          (base, ds) = int_base u
      in if u = [] then None
         else case scan_base base 0 ds of
           None \<Rightarrow> None
         | Some n \<Rightarrow>
             if CHR ''_'' \<in> set ds \<and> \<not> underscoreOK u then None
             else (let z = (if neg then - n else n) in if in_int64 z then Some z else None))"

definition parse_bool :: "string \<Rightarrow> bool option" where
  "parse_bool s =
     (if s \<in> {''1'', ''t'', ''T'', ''true'', ''TRUE'', ''True''} then Some True
      else if s \<in> {''0'', ''f'', ''F'', ''false'', ''FALSE'', ''False''} then Some False
      else None)"

subsection \<open>Flag sets\<close>

datatype flag_val = FString string | FInt int | FBool bool

type_synonym flags = "(string \<times> flag_val) list"

datatype flag_error =
    ErrHelp
  | BadFlagSyntax string
  | NotDefined string
  | NeedsArgument string
  | InvalidValue string string

text \<open>What an argument is to \<open>parseOne\<close>.\<close>

datatype flag_token =
    NoFlag
  | Terminator
  | BadToken
  | FlagToken string "string option"

definition flag_token :: "string \<Rightarrow> flag_token" where
  "flag_token s =
     (if length s < 2 \<or> take 1 s \<noteq> ''-'' then NoFlag
      else if s = ''--'' then Terminator
      else let name = (if take 2 s = ''--'' then drop 2 s else drop 1 s)
           in if name = [] \<or> take 1 name = ''-'' \<or> take 1 name = ''='' then BadToken
              else case index_byte name (CHR ''='') of
                None \<Rightarrow> FlagToken name None
              | Some i \<Rightarrow> FlagToken (take i name) (Some (drop (Suc i) name)))"

definition flag_set :: "string \<Rightarrow> flag_val \<Rightarrow> flags \<Rightarrow> flags" where
  "flag_set name v fs = map (\<lambda>(k, x). if k = name then (k, v) else (k, x)) fs"

text \<open>\<open>Value.Set\<close> on the kind of the flag.\<close>

fun set_value :: "flag_val \<Rightarrow> string \<Rightarrow> flag_val option" where
  "set_value (FString _) s = Some (FString s)"
| "set_value (FInt _) s = map_option FInt (parse_int0 s)"
| "set_value (FBool _) s = map_option FBool (parse_bool s)"

fun is_bool_flag :: "flag_val \<Rightarrow> bool" where
  "is_bool_flag (FBool _) = True"
| "is_bool_flag _ = False"

fun flag_parse :: "flags \<Rightarrow> string list \<Rightarrow> flag_error + flags \<times> string list" where
  "flag_parse fs [] = Inr (fs, [])"
| "flag_parse fs (s # args) =
     (case flag_token s of
        NoFlag \<Rightarrow> Inr (fs, s # args)
      | Terminator \<Rightarrow> Inr (fs, args)
      | BadToken \<Rightarrow> Inl (BadFlagSyntax s)
      | FlagToken name val \<Rightarrow>
          (case map_of fs name of
             None \<Rightarrow> if name = ''help'' \<or> name = ''h'' then Inl ErrHelp else Inl (NotDefined name)
           | Some cur \<Rightarrow>
               if is_bool_flag cur then
                 (let v = (case val of Some v \<Rightarrow> v | None \<Rightarrow> ''true'')
                  in case set_value cur v of
                       None \<Rightarrow> Inl (InvalidValue name v)
                     | Some x \<Rightarrow> flag_parse (flag_set name x fs) args)
               else
                 (case val of
                    Some v \<Rightarrow>
                      (case set_value cur v of
                         None \<Rightarrow> Inl (InvalidValue name v)
                       | Some x \<Rightarrow> flag_parse (flag_set name x fs) args)
                  | None \<Rightarrow>
                      (case args of
                         [] \<Rightarrow> Inl (NeedsArgument name)
                       | v # args' \<Rightarrow>
                           (case set_value cur v of
                              None \<Rightarrow> Inl (InvalidValue name v)
                            | Some x \<Rightarrow> flag_parse (flag_set name x fs) args')))))"

definition string_flag :: "string \<Rightarrow> flags \<Rightarrow> string" where
  "string_flag name fs = (case map_of fs name of Some (FString s) \<Rightarrow> s | _ \<Rightarrow> [])"

definition int_flag :: "string \<Rightarrow> flags \<Rightarrow> int" where
  "int_flag name fs = (case map_of fs name of Some (FInt z) \<Rightarrow> z | _ \<Rightarrow> 0)"

definition bool_flag :: "string \<Rightarrow> flags \<Rightarrow> bool" where
  "bool_flag name fs = (case map_of fs name of Some (FBool b) \<Rightarrow> b | _ \<Rightarrow> False)"

end
