(* ===== verification/CliArgs.thy ===== *)
theory CliArgs
  imports Startup Flags
begin

section \<open>CliArgs: arguments, output and the call of a command (internal/cli/app.go)\<close>

text \<open>
  What the commands share: hoisting the global flags, moving flags before positionals,
  the usage texts, the output of a response and the call to the daemon. The outcome of a
  command is what it prints and its exit code; \<open>None\<close> is a command that never returns.
  Parameters of a run are the environment, the outcome of \<open>EnsureDaemon\<close> for a tmux
  socket, the clock, the build information, and the texts that packages \<open>flag\<close> and
  \<open>encoding/json\<close> print.
\<close>

record build_info =
  bi_version :: string
  bi_settings :: "(string \<times> string) list"

record cli_env =
  ce_environ :: environ
  ce_ensure :: "string \<Rightarrow> string + connection"
  ce_now :: instant
  ce_defaults :: "string \<Rightarrow> string"
  ce_flag_text :: "flag_error \<Rightarrow> string"
  ce_unmarshal_error :: "string \<Rightarrow> string"
  ce_printable :: "nat \<Rightarrow> bool"
  ce_build :: "build_info option"

text \<open>Standard output, standard error and the exit code.\<close>

type_synonym outcome = "(string \<times> string \<times> int) option"

definition line :: "string \<Rightarrow> string" where
  "line s = s @ [newline]"

definition text_lines :: "string list \<Rightarrow> string" where
  "text_lines ls = concat (map line ls)"

definition Usage :: string where
  "Usage = text_lines
     [''tpctl - agent-driven tmux pane control'',
      [],
      ''Usage:'',
      ''  tpctl list'',
      ''  tpctl snapshot --pane %ID [--history-lines N]'',
      ''  tpctl read --pane %ID --after TOKEN'',
      ''  tpctl text --pane %ID TEXT [--enter]'',
      ''  tpctl key --pane %ID KEY [KEY...]'',
      ''  tpctl wait --pane %ID --after TOKEN --for MODE ... --timeout-ms N'',
      ''  tpctl daemon [--stop]'',
      [],
      ''Global flags:'',
      ''  --tmux-socket PATH       tmux -S socket path'',
      ''  --tmux-socket-name NAME  tmux -L socket shortname'',
      ''  --help                   Show this help and exit (per-subcommand: tpctl <sub> --help)'',
      ''  --version                Print version and exit (also: tpctl version)'',
      [],
      ''See docs/specs/tpctl-v1.md for the full specification.'']"

subsection \<open>Arguments\<close>

record globals_result =
  gr_globals :: "string list"
  gr_help :: bool
  gr_version :: bool
  gr_remaining :: "string list"

text \<open>The name of a long flag, and whether a value follows an equals sign.\<close>

definition long_name :: "string \<Rightarrow> string \<times> bool" where
  "long_name a =
     (case index_byte (drop 2 a) (CHR ''='') of
        Some eq \<Rightarrow> (take eq (drop 2 a), True)
      | None \<Rightarrow> (drop 2 a, False))"

fun extract_loop :: "string list \<Rightarrow> bool \<Rightarrow> bool \<Rightarrow> string list \<Rightarrow> globals_result" where
  "extract_loop globals help version [] =
     \<lparr>gr_globals = globals, gr_help = help, gr_version = version, gr_remaining = []\<rparr>"
| "extract_loop globals help version (a # args) =
     (let stop = \<lparr>gr_globals = globals, gr_help = help, gr_version = version, gr_remaining = a # args\<rparr>;
          is_long = (has_prefix a ''--'' \<and> 2 < length a);
          (name, has_eq) = (if is_long then long_name a else (''h'', False))
      in if a = ''--'' \<or> \<not> is_long \<and> a \<noteq> ''-h'' then stop
         else if name = ''help'' \<or> name = ''h'' then extract_loop globals True version args
         else if name = ''version'' then extract_loop globals help True args
         else if name = ''tmux-socket'' \<or> name = ''tmux-socket-name'' then
           (if has_eq then extract_loop (globals @ [a]) help version args
            else case args of
              [] \<Rightarrow> extract_loop (globals @ [a]) help version []
            | v # args' \<Rightarrow> extract_loop (globals @ [a, v]) help version args')
         else stop)"

definition extractGlobals :: "string list \<Rightarrow> globals_result" where
  "extractGlobals args = extract_loop [] False False args"

text \<open>The flags and the positionals of \<open>reorderArgs\<close>.\<close>

fun reorder_loop :: "string list \<Rightarrow> string list \<Rightarrow> string list \<times> string list" where
  "reorder_loop bools [] = ([], [])"
| "reorder_loop bools (a # args) =
     (if a = ''--'' then ([], args)
      else if 2 < length a \<and> take 2 a = ''--'' then
        (if CHR ''='' \<in> set (drop 2 a) \<or> drop 2 a \<in> set bools
         then (let (fs, ps) = reorder_loop bools args in (a # fs, ps))
         else case args of
           [] \<Rightarrow> ([a], [])
         | v # args' \<Rightarrow> (let (fs, ps) = reorder_loop bools args' in (a # v # fs, ps)))
      else if 1 < length a \<and> take 1 a = ''-'' \<and> a ! 1 \<noteq> CHR ''-''
        then (let (fs, ps) = reorder_loop bools args in (a # fs, ps))
      else (let (fs, ps) = reorder_loop bools args in (fs, a # ps)))"

definition reorderArgs :: "string list \<Rightarrow> string list \<Rightarrow> string list" where
  "reorderArgs args bools = (let (fs, ps) = reorder_loop bools args in fs @ [''--''] @ ps)"

definition boolFlagsCommon :: "string list" where
  "boolFlagsCommon = [''help'', ''h'']"

definition global_flags :: flags where
  "global_flags = [(''tmux-socket'', FString []), (''tmux-socket-name'', FString [])]"

definition pane_flag :: flags where
  "pane_flag = [(''pane'', FString [])]"

definition validatePaneID :: "string \<Rightarrow> ErrorResponse option" where
  "validatePaneID p =
     (if p = [] then Some (error_response [] ErrInvalidArgs ''--pane is required'')
      else if \<not> has_prefix p ''%''
        then Some (error_response [] ErrInvalidArgs ''--pane must be a tmux pane id (e.g. %42)'')
      else None)"

subsection \<open>Output\<close>

definition emitCmdError :: "ErrorResponse \<Rightarrow> outcome" where
  "emitCmdError e = Some (line (json_print (error_json e)), [], 1)"

text \<open>Nothing calls \<open>emitJSON\<close>; a payload that cannot be marshalled is \<open>Inl\<close> with the error's text.\<close>

definition emitJSON :: "string + json \<Rightarrow> outcome" where
  "emitJSON v =
     (case v of
        Inl err \<Rightarrow> Some ([], line (''tpctl: marshal: '' @ err), 1)
      | Inr j \<Rightarrow> Some (line (json_print j), [], 0))"

definition relay :: "Response option \<Rightarrow> outcome" where
  "relay resp =
     (case resp of
        None \<Rightarrow> Some ([], line ''tpctl: empty response'', 1)
      | Some r \<Rightarrow>
          if rs_OK r then Some (if rs_Body r \<noteq> [] then line (rs_Body r) else [], [], 0)
          else case rs_Error r of
            Some e \<Rightarrow> emitCmdError e
          | None \<Rightarrow> Some ([], if rs_Runtime r \<noteq> [] then line (''tpctl: '' @ rs_Runtime r) else [], 1))"

text \<open>The banner \<open>attachSubcommandHelp\<close> installs as \<open>fs.Usage\<close>; it goes to standard output.\<close>

definition subcommand_help :: "string \<Rightarrow> string \<Rightarrow> string \<Rightarrow> string \<Rightarrow> string \<Rightarrow> string" where
  "subcommand_help usage description defaults example specRef =
     line (''Usage: tpctl '' @ usage) @ [newline]
     @ (if description \<noteq> [] then line description @ [newline] else [])
     @ line ''Flags:'' @ defaults
     @ (if example \<noteq> [] then [newline] @ line ''Example:'' @ line (''  '' @ example) else [])
     @ (if specRef \<noteq> []
        then [newline] @ line (''See docs/specs/tpctl-v1.md '' @ specRef @ '' for the full contract.'') else [])"

text \<open>The section sign of the spec pointers, in UTF-8.\<close>

definition spec_ref :: "string \<Rightarrow> string" where
  "spec_ref n = [CHR 0xC2, CHR 0xA7] @ n"

text \<open>What a failed \<open>Parse\<close> does: \<open>flag\<close> prints its message to standard error, then the banner.\<close>

definition parse_failed :: "cli_env \<Rightarrow> string \<Rightarrow> flag_error \<Rightarrow> outcome" where
  "parse_failed E help err =
     (if err = ErrHelp then Some (help, [], 0) else Some (help, line (ce_flag_text E err), 2))"

subsection \<open>Calling the daemon\<close>

datatype dialed = Dialed connection | DialRefused ErrorResponse | DialError string

definition dial :: "cli_env \<Rightarrow> flags \<Rightarrow> dialed" where
  "dial E fs =
     (case ResolveTmuxSocket (ce_environ E) (string_flag ''tmux-socket'' fs) (string_flag ''tmux-socket-name'' fs) of
        Inl e \<Rightarrow> DialRefused (error_response [] ErrInvalidArgs e)
      | Inr tmuxSocket \<Rightarrow>
          (case ce_ensure E tmuxSocket of
             Inl e \<Rightarrow> DialError e
           | Inr client \<Rightarrow> Dialed client))"

definition call_and_relay :: "cli_env \<Rightarrow> string \<Rightarrow> flags \<Rightarrow> Request \<Rightarrow> duration \<Rightarrow> outcome" where
  "call_and_relay E cmd fs req overall =
     (case dial E fs of
        DialRefused e \<Rightarrow> emitCmdError e
      | DialError e \<Rightarrow> Some ([], line (''tpctl '' @ cmd @ '': '' @ e), 1)
      | Dialed client \<Rightarrow>
          (case Client_Call (ce_unmarshal_error E) (ce_now E) client req overall of
             None \<Rightarrow> None
           | Some (Inl e) \<Rightarrow> Some ([], line (''tpctl '' @ cmd @ '': '' @ e), 1)
           | Some (Inr resp) \<Rightarrow> relay (Some resp)))"

subsection \<open>Interleaved arguments\<close>

text \<open>
  An argument list as its author means it: positionals, flags with their value in the next
  argument or after an equals sign, and boolean flags.
\<close>

datatype arg_item = Pos string | Val string string | Eq string string | Switch string

fun render :: "arg_item \<Rightarrow> string list" where
  "render (Pos p) = [p]"
| "render (Val n v) = [''--'' @ n, v]"
| "render (Eq n v) = [''--'' @ n @ ''='' @ v]"
| "render (Switch n) = [''--'' @ n]"

definition render_all :: "arg_item list \<Rightarrow> string list" where
  "render_all xs = concat (map render xs)"

fun positionals :: "arg_item list \<Rightarrow> string list" where
  "positionals [] = []"
| "positionals (Pos p # xs) = p # positionals xs"
| "positionals (_ # xs) = positionals xs"

fun is_pos :: "arg_item \<Rightarrow> bool" where
  "is_pos (Pos p) = True"
| "is_pos _ = False"

definition flag_name :: "string \<Rightarrow> bool" where
  "flag_name n \<longleftrightarrow> n \<noteq> [] \<and> CHR ''='' \<notin> set n \<and> take 1 n \<noteq> ''-''"

text \<open>Items that fit the flag set: defined flags, values of their kind, positionals that do
  not look like a flag.\<close>

fun item_ok :: "flags \<Rightarrow> string list \<Rightarrow> arg_item \<Rightarrow> bool" where
  "item_ok fs bools (Pos p) \<longleftrightarrow> p = ''-'' \<or> take 1 p \<noteq> ''-''"
| "item_ok fs bools (Val n v) \<longleftrightarrow> flag_name n \<and> n \<notin> set bools \<and>
     (\<exists>cur. map_of fs n = Some cur \<and> \<not> is_bool_flag cur \<and> set_value cur v \<noteq> None)"
| "item_ok fs bools (Eq n v) \<longleftrightarrow> flag_name n \<and> (\<exists>cur. map_of fs n = Some cur \<and> set_value cur v \<noteq> None)"
| "item_ok fs bools (Switch n) \<longleftrightarrow> flag_name n \<and> n \<in> set bools \<and> (\<exists>b. map_of fs n = Some (FBool b))"

fun apply_item :: "arg_item \<Rightarrow> flags \<Rightarrow> flags" where
  "apply_item (Pos p) fs = fs"
| "apply_item (Val n v) fs =
     (case map_of fs n of Some cur \<Rightarrow> (case set_value cur v of Some x \<Rightarrow> flag_set n x fs | None \<Rightarrow> fs) | None \<Rightarrow> fs)"
| "apply_item (Eq n v) fs =
     (case map_of fs n of Some cur \<Rightarrow> (case set_value cur v of Some x \<Rightarrow> flag_set n x fs | None \<Rightarrow> fs) | None \<Rightarrow> fs)"
| "apply_item (Switch n) fs = flag_set n (FBool True) fs"

lemma map_of_flag_set:
  "map_of (flag_set n x fs) k = (if k = n then map_option (\<lambda>_. x) (map_of fs n) else map_of fs k)"
  by (induction fs) (auto simp: flag_set_def)

fun same_kind :: "flag_val \<Rightarrow> flag_val \<Rightarrow> bool" where
  "same_kind (FString _) (FString _) = True"
| "same_kind (FInt _) (FInt _) = True"
| "same_kind (FBool _) (FBool _) = True"
| "same_kind _ _ = False"

lemma set_value_kind: "set_value cur v = Some x \<Longrightarrow> same_kind cur x"
  by (cases cur) auto

text \<open>Setting a flag leaves what fits the set as it was.\<close>

lemma item_ok_set:
  assumes "item_ok fs bools it" and "map_of fs n = Some cur" and "same_kind cur x"
  shows "item_ok (flag_set n x fs) bools it"
  using assms by (cases it; cases cur; cases x) (auto simp: map_of_flag_set)

lemma item_ok_apply:
  assumes "item_ok fs bools it" and "item_ok fs bools it'"
  shows "item_ok (apply_item it fs) bools it'"
proof (cases it)
  case (Val n v)
  with assms(1) obtain cur x where c: "map_of fs n = Some cur" "set_value cur v = Some x" by auto
  with item_ok_set [OF assms(2) c(1)] set_value_kind [OF c(2)] Val show ?thesis by simp
next
  case (Eq n v)
  with assms(1) obtain cur x where c: "map_of fs n = Some cur" "set_value cur v = Some x" by auto
  with item_ok_set [OF assms(2) c(1)] set_value_kind [OF c(2)] Eq show ?thesis by simp
next
  case (Switch n)
  with assms(1) obtain b where c: "map_of fs n = Some (FBool b)" by auto
  with item_ok_set [OF assms(2) c, of "FBool True"] Switch show ?thesis by simp
qed (use assms in simp)

definition items_ok :: "flags \<Rightarrow> string list \<Rightarrow> arg_item list \<Rightarrow> bool" where
  "items_ok fs bools xs \<longleftrightarrow> list_all (item_ok fs bools) xs"

lemma items_ok_Cons:
  "items_ok fs bools (x # xs) \<Longrightarrow> item_ok fs bools x \<and> items_ok fs bools xs \<and> items_ok (apply_item x fs) bools xs"
  by (auto simp: items_ok_def list_all_iff intro: item_ok_apply)

text \<open>The arguments after a double dash, if there is one.\<close>

definition rest_args :: "string list option \<Rightarrow> string list" where
  "rest_args tail = (case tail of None \<Rightarrow> [] | Some ys \<Rightarrow> ''--'' # ys)"

definition rest_positionals :: "string list option \<Rightarrow> string list" where
  "rest_positionals tail = (case tail of None \<Rightarrow> [] | Some ys \<Rightarrow> ys)"

lemma reorder_pos:
  assumes "p = ''-'' \<or> take 1 p \<noteq> ''-''"
  shows "reorder_loop bools (p # args) = (let (fs, ps) = reorder_loop bools args in (fs, p # ps))"
  using assms by (cases p; cases "tl p") auto

lemma reorder_items:
  assumes "items_ok fs bools xs"
  shows "reorder_loop bools (render_all xs @ rest_args tail) =
    (render_all (filter (\<lambda>x. \<not> is_pos x) xs), positionals xs @ rest_positionals tail)"
  using assms
proof (induction xs arbitrary: fs)
  case Nil
  then show ?case by (simp add: render_all_def rest_args_def rest_positionals_def split: option.split)
next
  case (Cons x xs)
  note IH = Cons.IH [OF items_ok_Cons [OF Cons.prems, THEN conjunct2, THEN conjunct1]]
  have x: "item_ok fs bools x" using items_ok_Cons [OF Cons.prems] by blast
  show ?case
  proof (cases x)
    case (Pos p)
    with IH x show ?thesis
      using reorder_pos [of p bools "render_all xs @ rest_args tail"] by (simp add: render_all_def)
  next
    case (Val n v)
    with x have "n \<noteq> []" "CHR ''='' \<notin> set n" "n \<notin> set bools" by (auto simp: flag_name_def)
    with IH Val show ?thesis by (simp add: render_all_def)
  next
    case (Eq n v)
    with IH show ?thesis by (simp add: render_all_def)
  next
    case (Switch n)
    with x have "n \<noteq> []" "n \<in> set bools" by (auto simp: flag_name_def)
    with IH Switch show ?thesis by (simp add: render_all_def)
  qed
qed

lemma index_byte_first: "c \<notin> set n \<Longrightarrow> index_byte (n @ c # v) c = Some (length n)"
  by (induction n) auto

lemma token_name: "flag_name n \<Longrightarrow> flag_token (''--'' @ n) = FlagToken n None"
proof -
  assume n: "flag_name n"
  then have "index_byte n (CHR ''='') = None" by (simp add: flag_name_def)
  moreover have "take 1 n \<noteq> ''=''" using n by (cases n) (auto simp: flag_name_def)
  ultimately show ?thesis using n by (simp add: flag_token_def flag_name_def del: index_byte_None)
qed

lemma token_eq: "flag_name n \<Longrightarrow> flag_token (''--'' @ n @ ''='' @ v) = FlagToken n (Some v)"
  using index_byte_first [of "CHR ''=''" n v] by (cases n) (auto simp: flag_token_def flag_name_def)

lemma parse_items:
  assumes "items_ok fs bools xs" and "\<forall>x \<in> set xs. \<not> is_pos x"
  shows "flag_parse fs (render_all xs @ rest_args tail) = Inr (fold apply_item xs fs, rest_positionals tail)"
  using assms
proof (induction xs arbitrary: fs)
  case Nil
  then show ?case by (simp add: render_all_def flag_token_def rest_args_def rest_positionals_def split: option.split)
next
  case (Cons x xs)
  note ok = items_ok_Cons [OF Cons.prems(1)]
  have IH: "flag_parse (apply_item x fs) (render_all xs @ rest_args tail) =
      Inr (fold apply_item xs (apply_item x fs), rest_positionals tail)"
    using Cons.IH ok Cons.prems(2) by simp
  show ?case
  proof (cases x)
    case (Pos p)
    with Cons.prems show ?thesis by simp
  next
    case (Val n v)
    with ok obtain cur y where "flag_name n" "map_of fs n = Some cur" "\<not> is_bool_flag cur" "set_value cur v = Some y" by auto
    with IH Val show ?thesis using token_name [of n] by (simp add: render_all_def)
  next
    case (Eq n v)
    with ok obtain cur y where "flag_name n" "map_of fs n = Some cur" "set_value cur v = Some y" by auto
    with IH Eq show ?thesis using token_eq [of n v] by (simp add: render_all_def)
  next
    case (Switch n)
    with ok obtain b where "flag_name n" "map_of fs n = Some (FBool b)" by auto
    with IH Switch show ?thesis using token_name [of n] by (simp add: render_all_def parse_bool_def)
  qed
qed

lemma parse_interleaved:
  assumes "items_ok fs bools xs"
  shows "flag_parse fs (reorderArgs (render_all xs @ rest_args tail) bools) =
    Inr (fold apply_item xs fs, positionals xs @ rest_positionals tail)"
proof -
  have ok: "items_ok fs bools (filter (\<lambda>x. \<not> is_pos x) xs)" using assms by (auto simp: items_ok_def list_all_iff)
  have same: "fold apply_item (filter (\<lambda>x. \<not> is_pos x) ys) fs = fold apply_item ys fs" for ys fs
  proof (induction ys arbitrary: fs)
    case (Cons y ys)
    then show ?case by (cases y) auto
  qed simp
  show ?thesis
    using parse_items [OF ok, of "Some (positionals xs @ rest_positionals tail)"] same [of xs fs] reorder_items [OF assms]
    by (simp add: reorderArgs_def rest_args_def [of "Some _"] rest_positionals_def [of "Some _"])
qed

text \<open>The integer flags fit their type, whatever the arguments.\<close>

definition ints_fit :: "flags \<Rightarrow> bool" where
  "ints_fit fs \<longleftrightarrow> (\<forall>n z. map_of fs n = Some (FInt z) \<longrightarrow> in_int64 z)"

lemma set_value_fits: "set_value cur v = Some (FInt z) \<Longrightarrow> in_int64 z"
  by (cases cur) (auto simp: parse_int0_def Let_def split: option.splits if_splits prod.splits list.splits)

lemma apply_fits: "ints_fit fs \<Longrightarrow> ints_fit (apply_item x fs)"
  by (cases x) (auto simp: ints_fit_def map_of_flag_set split: option.splits if_splits dest: set_value_fits)

lemma fold_fits: "ints_fit fs \<Longrightarrow> ints_fit (fold apply_item xs fs)"
  by (induction xs arbitrary: fs) (simp_all add: apply_fits)

lemma int_flag_fits: "ints_fit fs \<Longrightarrow> in_int64 (int_flag n fs)"
  by (auto simp: int_flag_def ints_fit_def in_int64_def int64_min_def int64_max_def split: option.split flag_val.split)

lemma apply_flags_only: "fold apply_item (filter (\<lambda>x. \<not> is_pos x) xs) fs = fold apply_item xs fs"
proof (induction xs arbitrary: fs)
  case (Cons y ys)
  then show ?case by (cases y) auto
qed simp

subsection \<open>Properties\<close>

text \<open>C26: flags and positionals interleave freely. However an argument list mixes positionals
  with flags in any of their spellings, what \<open>Parse\<close> sees after \<open>reorderArgs\<close> is every flag
  set in the order given and every positional in the order given, with all that follows a
  double dash taken as positional whatever it looks like; so two argument lists with the
  same flags in order and the same positionals in order parse alike.\<close>

theorem interleaving:
  assumes "items_ok fs bools xs" and "items_ok fs bools ys"
    and "filter (\<lambda>x. \<not> is_pos x) xs = filter (\<lambda>x. \<not> is_pos x) ys" and "positionals xs = positionals ys"
  shows "flag_parse fs (reorderArgs (render_all xs @ rest_args tail) bools) =
      Inr (fold apply_item xs fs, positionals xs @ rest_positionals tail) \<and>
    flag_parse fs (reorderArgs (render_all xs @ rest_args tail) bools) =
      flag_parse fs (reorderArgs (render_all ys @ rest_args tail) bools)"
  using parse_interleaved [OF assms(1), of tail] parse_interleaved [OF assms(2), of tail] assms(3,4)
    apply_flags_only [of xs fs] apply_flags_only [of ys fs] by simp

theorem interleaving_witness:
  "flag_parse (pane_flag @ [(''enter'', FBool False)])
      (reorderArgs [''hello'', ''--enter'', ''--pane=%1'', ''--'', ''-l''] [''enter'']) =
     Inr ([(''pane'', FString ''%1''), (''enter'', FBool True)], [''hello'', ''-l''])"
proof -
  let ?xs = "[Pos ''hello'', Switch ''enter'', Eq ''pane'' ''%1'']"
  have "items_ok (pane_flag @ [(''enter'', FBool False)]) [''enter''] ?xs"
    by (auto simp: items_ok_def pane_flag_def flag_name_def)
  from interleaving [OF this this refl refl, of "Some [''-l'']", THEN conjunct1] show ?thesis
    by (simp add: render_all_def rest_args_def rest_positionals_def pane_flag_def flag_set_def)
qed

end
