(* ===== verification/Daemon.thy ===== *)
theory Daemon
  imports CliArgs
begin

section \<open>Daemon: running and stopping the daemon (internal/cli/daemon.go)\<close>

text \<open>
  \<open>tpctl daemon\<close> binds the socket, starts the controller and serves until something asks
  it to shut down; \<open>tpctl daemon --stop\<close> asks a running one and waits for it to go. What
  the process meets is a record: the outcomes of the calls to the system and the instants
  of the events. The exit of the daemon is an instant with the output and the code; the
  two deadlines are in it as they are armed.
\<close>

definition shutdownDeadline :: duration where "shutdownDeadline = 2 * second"
definition hardExitDeadline :: duration where "hardExitDeadline = 3 * second"
definition daemonStopAckTimeout :: duration where "daemonStopAckTimeout = 2 * second"
definition daemonStopExitTimeout :: duration where "daemonStopExitTimeout = hardExitDeadline + 2 * second"

subsection \<open>Shutting down\<close>

text \<open>A signal, the loss of the tmux server, and a shutdown request over the socket.\<close>

datatype shutdown_event = SignalEvent | ServerLostEvent | ShutdownRequest

record shutdown_state =
  sd_hard_exit :: "instant option"
  sd_cancelled :: bool
  sd_selecting :: bool
  sd_serverLost :: bool

definition shutdown_init :: shutdown_state where
  "shutdown_init = \<lparr>sd_hard_exit = None, sd_cancelled = False, sd_selecting = True, sd_serverLost = False\<rparr>"

definition requestShutdown :: "instant \<Rightarrow> shutdown_state \<Rightarrow> shutdown_state" where
  "requestShutdown now s =
     s\<lparr>sd_hard_exit := (case sd_hard_exit s of None \<Rightarrow> Some (now + hardExitDeadline) | Some t \<Rightarrow> Some t),
       sd_cancelled := True\<rparr>"

text \<open>The goroutine that selects on the signal and the loss takes one of them, once.\<close>

fun shutdown_step :: "instant \<times> shutdown_event \<Rightarrow> shutdown_state \<Rightarrow> shutdown_state" where
  "shutdown_step (now, SignalEvent) s =
     (if sd_selecting s then requestShutdown now (s\<lparr>sd_selecting := False\<rparr>) else s)"
| "shutdown_step (now, ServerLostEvent) s =
     (if sd_selecting s then requestShutdown now (s\<lparr>sd_selecting := False, sd_serverLost := True\<rparr>) else s)"
| "shutdown_step (now, ShutdownRequest) s = requestShutdown now s"

definition shutdown_run :: "(instant \<times> shutdown_event) list \<Rightarrow> shutdown_state" where
  "shutdown_run evs = fold shutdown_step evs shutdown_init"

text \<open>
  What a daemon meets: the outcomes of \<open>Listen\<close> and of the controller's \<open>Start\<close>, the
  events in order, when \<open>Serve\<close> returns and with what error, and how long the
  controller's \<open>Stop\<close> takes, if it ends at all.
\<close>

record stop_world =
  so_now :: instant
  so_ping :: connection
  so_asked :: instant
  so_call :: connection
  so_acked :: instant
  so_turns :: "(instant \<times> bool \<times> bool) list"

record daemon_world =
  dw_sha256 :: "bytes \<Rightarrow> bytes"
  dw_mkdir :: "string \<Rightarrow> string option"
  dw_listen :: "string \<Rightarrow> string option"
  dw_start :: "string option"
  dw_events :: "(instant \<times> shutdown_event) list"
  dw_served :: "(instant \<times> string option) option"
  dw_stop_takes :: "duration option"
  dw_stopping :: "string \<Rightarrow> stop_world"

text \<open>\<open>stopWithDeadline\<close>: the instant it ends, and whether \<open>Stop\<close> was done in time.\<close>

definition stopWithDeadline :: "instant \<Rightarrow> duration option \<Rightarrow> instant \<times> bool" where
  "stopWithDeadline now takes =
     (case takes of
        Some d \<Rightarrow> if d < shutdownDeadline then (now + d, True) else (now + shutdownDeadline, False)
      | None \<Rightarrow> (now + shutdownDeadline, False))"

definition lost_text :: "shutdown_state \<Rightarrow> string" where
  "lost_text s = (if sd_serverLost s then line ''tpctl daemon: tmux server connection lost; exiting'' else [])"

definition before :: "instant \<Rightarrow> (instant \<times> shutdown_event) list \<Rightarrow> (instant \<times> shutdown_event) list" where
  "before t evs = filter (\<lambda>(at, e). at \<le> t) evs"

text \<open>The exit of a daemon that got as far as \<open>Serve\<close>.\<close>

definition daemon_exit :: "daemon_world \<Rightarrow> (instant \<times> string \<times> int) option" where
  "daemon_exit D =
     (let serve_text = (\<lambda>err. case err of None \<Rightarrow> [] | Some e \<Rightarrow> line (''tpctl daemon: serve: '' @ e));
          hard = (\<lambda>a. Some (a, lost_text (shutdown_run (before a (dw_events D)))
            @ (case dw_served D of None \<Rightarrow> [] | Some (t, err) \<Rightarrow> if t \<le> a then serve_text err else [])
            @ line ''tpctl daemon: hard exit deadline; terminating'', 1)) in
      case dw_served D of
        None \<Rightarrow> (case sd_hard_exit (shutdown_run (dw_events D)) of None \<Rightarrow> None | Some a \<Rightarrow> hard a)
      | Some (t, err) \<Rightarrow>
          (let (fin, in_time) = stopWithDeadline t (dw_stop_takes D);
               s = shutdown_run (before fin (dw_events D));
               finish = (if \<not> in_time
                   then (fin, lost_text s @ serve_text err @ line ''tpctl daemon: controller stop exceeded 2s; exiting'', 1)
                 else if err \<noteq> None \<or> sd_serverLost s then (fin, lost_text s @ serve_text err, 1)
                 else (fin, lost_text s @ serve_text err, 0))
           in case sd_hard_exit s of
                Some a \<Rightarrow> if a \<le> fin then hard a else Some finish
              | None \<Rightarrow> Some finish))"

subsection \<open>Stopping a daemon\<close>

text \<open>
  The turns of the loop: the instant of its test, whether a ping fails and whether
  \<open>kill(pid, 0)\<close> fails there. The result tells what is gone, and whether the loop ended
  before the deadline.
\<close>

fun stop_loop :: "instant \<Rightarrow> int \<Rightarrow> bool \<Rightarrow> bool \<Rightarrow> (instant \<times> bool \<times> bool) list \<Rightarrow> bool \<times> bool \<times> bool" where
  "stop_loop deadline pid sockGone processGone [] = (sockGone, processGone, False)"
| "stop_loop deadline pid sockGone processGone ((now, ping_fails, kill_fails) # turns) =
     (if deadline \<le> now then (sockGone, processGone, False)
      else let sg = (sockGone \<or> ping_fails); pg = (processGone \<or> pid > 0 \<and> kill_fails)
           in if sg \<and> pg then (True, True, True) else stop_loop deadline pid sg pg turns)"

definition runDaemonStop :: "cli_env \<Rightarrow> stop_world \<Rightarrow> outcome" where
  "runDaemonStop E S =
     (case Client_Ping (ce_unmarshal_error E) (so_now S) (so_ping S) of
        None \<Rightarrow> None
      | Some (Some e) \<Rightarrow> Some ([], line ''tpctl daemon --stop: no daemon running'', 0)
      | Some None \<Rightarrow>
          (case Client_Call (ce_unmarshal_error E) (so_asked S) (so_call S)
                  (zero_request\<lparr>rq_Op := OpShutdown\<rparr>) daemonStopAckTimeout of
             None \<Rightarrow> None
           | Some (Inl e) \<Rightarrow> Some ([], line (''tpctl daemon --stop: shutdown request failed: '' @ e), 1)
           | Some (Inr resp) \<Rightarrow>
               (let pid = rs_Pid resp;
                    (sockGone, processGone, ok) =
                      stop_loop (so_acked S + daemonStopExitTimeout) pid False (pid \<le> 0) (so_turns S)
                in if ok then Some ([], [], 0)
                   else Some ([],
                     if \<not> sockGone then line (''tpctl daemon --stop: daemon still reachable on socket after ''
                       @ ''5s; send SIGKILL if it is stuck'')
                     else if \<not> processGone then line (''tpctl daemon --stop: socket released but daemon PID ''
                       @ itoa pid @ '' still alive after 5s; send SIGKILL (`kill -9 '' @ itoa pid @ ''`)'')
                     else [], 1))))"

subsection \<open>The subcommand\<close>

definition daemon_flags :: flags where
  "daemon_flags = global_flags @ [(''daemon-socket'', FString []), (''stop'', FBool False)]"

definition daemon_help :: "cli_env \<Rightarrow> string" where
  "daemon_help E = subcommand_help ''daemon''
     (''Run (or --stop) the controller. Auto-spawn starts the daemon on demand; --stop shuts it down cleanly ''
       @ ''without needing pkill.'')
     (ce_defaults E ''daemon'') (line ''tpctl daemon --tmux-socket /tmp/tmux.sock'' @ ''  tpctl daemon --stop'')
     (spec_ref ''11.3'')"

definition runDaemon :: "cli_env \<Rightarrow> daemon_world \<Rightarrow> string list \<Rightarrow> outcome" where
  "runDaemon E D args =
     (let fail = (\<lambda>e code. Some ([], line (''tpctl daemon: '' @ e), code)) in
      case flag_parse daemon_flags (reorderArgs args (''stop'' # boolFlagsCommon)) of
        Inl err \<Rightarrow> parse_failed E (daemon_help E) err
      | Inr (fs, rest) \<Rightarrow>
          (case ResolveTmuxSocket (ce_environ E) (string_flag ''tmux-socket'' fs) (string_flag ''tmux-socket-name'' fs) of
             Inl e \<Rightarrow> fail e 2
           | Inr tmuxSocket \<Rightarrow>
               (case (if string_flag ''daemon-socket'' fs \<noteq> [] then Inr (string_flag ''daemon-socket'' fs)
                      else DaemonSocketPath (dw_sha256 D) (dw_mkdir D) (ce_environ E) tmuxSocket) of
                  Inl e \<Rightarrow> fail e 1
                | Inr sockPath \<Rightarrow>
                    if bool_flag ''stop'' fs then runDaemonStop E (dw_stopping D sockPath)
                    else (case dw_listen D sockPath of
                      Some e \<Rightarrow> fail e 1
                    | None \<Rightarrow>
                        (case dw_start D of
                           Some e \<Rightarrow> fail (''controller start: '' @ e) 1
                         | None \<Rightarrow> map_option (\<lambda>(at, err, code). ([], err, code)) (daemon_exit D))))))"

subsection \<open>The deadlines\<close>

lemma fold_armed: "sd_hard_exit s = Some a \<Longrightarrow> sd_hard_exit (fold shutdown_step evs s) = Some a"
proof (induction evs arbitrary: s)
  case (Cons e evs)
  have "sd_hard_exit (shutdown_step e s) = Some a"
    using Cons.prems by (cases e; cases "snd e") (auto simp: requestShutdown_def)
  with Cons.IH show ?case by simp
qed simp

text \<open>The first event arms the timer, whichever it is; later ones do not move it.\<close>

lemma run_armed: "sd_hard_exit (shutdown_run ((t, e) # evs)) = Some (t + hardExitDeadline)"
proof -
  have "sd_hard_exit (shutdown_step (t, e) shutdown_init) = Some (t + hardExitDeadline)"
    by (cases e) (simp_all add: shutdown_init_def requestShutdown_def)
  from fold_armed [OF this] show ?thesis by (simp add: shutdown_run_def)
qed

lemma run_none: "sd_hard_exit (shutdown_run evs) = None \<longleftrightarrow> evs = []"
  using run_armed by (cases evs) (auto simp: shutdown_run_def shutdown_init_def)

text \<open>The events come in the order of time.\<close>

definition in_order :: "(instant \<times> shutdown_event) list \<Rightarrow> bool" where
  "in_order evs \<longleftrightarrow> sorted (map fst evs)"

lemma before_first:
  assumes "in_order ((t, e) # evs)"
  shows "before f ((t, e) # evs) = (if t \<le> f then (t, e) # before f evs else [])"
proof -
  have "before f evs = []" if "\<not> t \<le> f"
    using assms that by (force simp: in_order_def before_def filter_empty_conv)
  then show ?thesis by (auto simp: before_def)
qed

lemma stop_end: "stopWithDeadline t takes = (f, ok) \<Longrightarrow> f \<le> t + shutdownDeadline"
  by (auto simp: stopWithDeadline_def split: option.splits if_splits)

text \<open>The instant of the exit, once something has asked for it.\<close>

lemma exit_by_deadline:
  assumes "dw_events D = (t0, e0) # evs" and "in_order (dw_events D)"
  shows "\<exists>t err code. daemon_exit D = Some (t, err, code) \<and> t \<le> t0 + hardExitDeadline"
proof (cases "dw_served D")
  case None
  with assms(1) run_armed [of t0 e0 evs] show ?thesis by (simp add: daemon_exit_def Let_def)
next
  case (Some x)
  obtain ts serr where x: "x = (ts, serr)" by (cases x)
  obtain f ok where f: "stopWithDeadline ts (dw_stop_takes D) = (f, ok)" by fastforce
  have "t0 \<le> f \<Longrightarrow> sd_hard_exit (shutdown_run (before f (dw_events D))) = Some (t0 + hardExitDeadline)"
    using before_first assms run_armed by simp
  moreover have "\<not> t0 \<le> f \<Longrightarrow> sd_hard_exit (shutdown_run (before f (dw_events D))) = None"
    using before_first assms by (simp add: run_none)
  moreover have "0 \<le> hardExitDeadline" by (simp add: hardExitDeadline_def second_def millisecond_def)
  ultimately show ?thesis using Some x f
    by (cases "t0 \<le> f"; cases "t0 + hardExitDeadline \<le> f") (auto simp: daemon_exit_def Let_def)
qed

lemma first_event: "in_order ((t0, e0) # evs) \<Longrightarrow> (t, e) \<in> set ((t0, e0) # evs) \<Longrightarrow> t0 \<le> t"
  by (force simp: in_order_def)

text \<open>A turn before the deadline that finds socket and process gone ends the loop.\<close>

lemma stop_loop_gone:
  assumes "(now, True, True) \<in> set turns" and "now < deadline" and "sorted (map fst turns)"
  shows "stop_loop deadline pid sg (pg \<or> pid \<le> 0) turns = (True, True, True)"
  using assms(1,3)
proof (induction turns arbitrary: sg pg)
  case (Cons x turns)
  obtain at pf kf where x: "x = (at, pf, kf)" by (cases x)
  have before: "at < deadline" using Cons.prems assms(2) x by auto
  show ?case
  proof (cases "pf \<and> kf")
    case True
    then show ?thesis using x before by (auto simp: Let_def)
  next
    case False
    with Cons.prems x have "(now, True, True) \<in> set turns" "sorted (map fst turns)" by auto
    from Cons.IH [OF this, of "sg \<or> pf" "pg \<or> 0 < pid \<and> kf"] show ?thesis
      using x before by (simp add: Let_def disj_ac)
  qed
qed simp

subsection \<open>Properties\<close>

text \<open>C23: shutdown is bounded. Once anything has asked the daemon to go, a signal, the loss of
  the tmux server or a shutdown request, it has exited three seconds later at the latest,
  whatever hangs: handlers that keep \<open>Serve\<close> from returning or a controller that does not
  stop; further requests do not extend that. It exits with 0 exactly when \<open>Serve\<close> returned
  without an error, the controller stopped within its two seconds, all before the hard
  deadline, and the tmux server had not been lost.\<close>

theorem shutdown_bounded:
  assumes "dw_events D = (t0, e0) # evs" and "in_order (dw_events D)" and "\<forall>d. dw_stop_takes D = Some d \<longrightarrow> 0 \<le> d"
  shows "\<exists>t err code. daemon_exit D = Some (t, err, code) \<and> t \<le> t0 + hardExitDeadline \<and> (code = 0 \<or> code = 1) \<and>
    (code = 0 \<longleftrightarrow> (\<exists>ts d. dw_served D = Some (ts, None) \<and> dw_stop_takes D = Some d \<and> d < shutdownDeadline \<and>
       ts + d < t0 + hardExitDeadline \<and> \<not> sd_serverLost (shutdown_run (before (ts + d) (dw_events D)))))"
proof (cases "dw_served D")
  case None
  with assms(1) run_armed [of t0 e0 evs] show ?thesis by (simp add: daemon_exit_def Let_def)
next
  case (Some x)
  obtain ts serr where x: "x = (ts, serr)" by (cases x)
  obtain f ok where f: "stopWithDeadline ts (dw_stop_takes D) = (f, ok)" by fastforce
  let ?s = "shutdown_run (before f (dw_events D))"
  have ok: "ok \<longleftrightarrow> (\<exists>d. dw_stop_takes D = Some d \<and> d < shutdownDeadline)"
    "dw_stop_takes D = Some d \<Longrightarrow> d < shutdownDeadline \<Longrightarrow> f = ts + d" for d
    using f by (auto simp: stopWithDeadline_def split: option.splits if_splits)
  show ?thesis
  proof (cases "t0 \<le> f")
    case True
    then have b: "before f (dw_events D) = (t0, e0) # before f evs"
      using before_first assms(1,2) by simp
    have "sd_hard_exit ?s = Some (t0 + hardExitDeadline)" unfolding b by (rule run_armed)
    with Some x f ok show ?thesis
      by (cases "t0 + hardExitDeadline \<le> f"; cases ok) (auto simp: daemon_exit_def Let_def)
  next
    case False
    then have b: "before f (dw_events D) = []" using before_first assms(1,2) by simp
    then have "sd_hard_exit ?s = None" "\<not> sd_serverLost ?s" by (simp_all add: shutdown_run_def shutdown_init_def)
    moreover have "0 \<le> hardExitDeadline" by (simp add: hardExitDeadline_def second_def millisecond_def)
    ultimately show ?thesis using Some x f ok False
      by (cases ok) (auto simp: daemon_exit_def Let_def)
  qed
qed

theorem shutdown_bounded_witness:
  "\<forall>S. \<exists>t err. daemon_exit \<lparr>dw_sha256 = \<lambda>b. b, dw_mkdir = \<lambda>_. None, dw_listen = \<lambda>_. None, dw_start = None,
      dw_events = [(5, SignalEvent), (6, ShutdownRequest)], dw_served = None, dw_stop_takes = None,
      dw_stopping = S\<rparr> = Some (t, err, 1) \<and> t \<le> 5 + hardExitDeadline"
proof
  fix S
  show "\<exists>t err. daemon_exit \<lparr>dw_sha256 = \<lambda>b. b, dw_mkdir = \<lambda>_. None, dw_listen = \<lambda>_. None, dw_start = None,
      dw_events = [(5, SignalEvent), (6, ShutdownRequest)], dw_served = None, dw_stop_takes = None,
      dw_stopping = S\<rparr> = Some (t, err, 1) \<and> t \<le> 5 + hardExitDeadline"
    using shutdown_bounded [of "\<lparr>dw_sha256 = \<lambda>b. b, dw_mkdir = \<lambda>_. None, dw_listen = \<lambda>_. None, dw_start = None,
      dw_events = [(5, SignalEvent), (6, ShutdownRequest)], dw_served = None, dw_stop_takes = None,
      dw_stopping = S\<rparr>" 5 SignalEvent "[(6, ShutdownRequest)]"]
    by (auto simp: in_order_def)
qed

text \<open>C24: stopping a daemon succeeds. When a daemon answers the ping and acknowledges the
  shutdown, then whatever hangs in its teardown it is gone three seconds after it was
  asked, and \<open>daemon --stop\<close>, which polls for five, says nothing and exits with 0: all it
  takes is one turn of its loop after the hard deadline and before its own.\<close>

theorem stop_succeeds:
  assumes "Client_Ping (ce_unmarshal_error E) (so_now S) (so_ping S) = Some None"
    and "Client_Call (ce_unmarshal_error E) (so_asked S) (so_call S) (zero_request\<lparr>rq_Op := OpShutdown\<rparr>)
      daemonStopAckTimeout = Some (Inr resp)"
    and "(t, ShutdownRequest) \<in> set (dw_events D)" and "in_order (dw_events D)"
    and "\<forall>(now, ping_fails, kill_fails) \<in> set (so_turns S).
      (\<exists>at err code. daemon_exit D = Some (at, err, code) \<and> at \<le> now) \<longrightarrow> ping_fails \<and> kill_fails"
    and "sorted (map fst (so_turns S))"
    and "\<exists>(now, pf, kf) \<in> set (so_turns S). t + hardExitDeadline \<le> now \<and> now < so_acked S + daemonStopExitTimeout"
  shows "runDaemonStop E S = Some ([], [], 0)"
proof -
  obtain t0 e0 evs where ev: "dw_events D = (t0, e0) # evs" using assms(3) by (cases "dw_events D") auto
  obtain at err code where x: "daemon_exit D = Some (at, err, code)" "at \<le> t0 + hardExitDeadline"
    using exit_by_deadline [OF ev assms(4)] by blast
  have "t0 \<le> t" using first_event assms(3,4) unfolding ev by blast
  with x(2) have "at \<le> t + hardExitDeadline" by simp
  moreover obtain now pf kf where turn: "(now, pf, kf) \<in> set (so_turns S)" "t + hardExitDeadline \<le> now"
    "now < so_acked S + daemonStopExitTimeout" using assms(7) by blast
  ultimately have "pf \<and> kf" using assms(5) x(1) by fastforce
  with turn(1) have "(now, True, True) \<in> set (so_turns S)" by simp
  from stop_loop_gone [OF this turn(3) assms(6), of "rs_Pid resp" False False] show ?thesis
    using assms(1,2) by (simp add: runDaemonStop_def)
qed

theorem stop_succeeds_witness:
  "\<forall>E. \<exists>S. so_turns S = [(10, False, False), (6 * second, True, True)] \<and> runDaemonStop E S = Some ([], [], 0)"
proof
  fix E
  let ?D = "\<lparr>dw_sha256 = \<lambda>b. b, dw_mkdir = \<lambda>_. None, dw_listen = \<lambda>_. None, dw_start = None,
      dw_events = [(2 * second, ShutdownRequest)], dw_served = None, dw_stop_takes = None, dw_stopping = undefined\<rparr>"
  let ?peer = "Peer (\<lambda>_. Some (write_response (\<lambda>_. []) (zero_response\<lparr>rs_OK := True, rs_Pid := 7\<rparr>), 0)) [] []"
  let ?S = "\<lparr>so_now = 0, so_ping = ?peer, so_asked = 0, so_call = ?peer, so_acked = 2 * second,
      so_turns = [(10, False, False), (6 * second, True, True)]\<rparr>"
  have ok: "response_ok (zero_response\<lparr>rs_OK := True, rs_Pid := 7\<rparr>)"
    by (simp add: response_ok_def body_ok_def zero_response_def in_int64_def int64_min_def int64_max_def)
  have call: "Client_Call u 0 ?peer req (2 * second) = Some (Inr (sanitize_response (zero_response\<lparr>rs_OK := True, rs_Pid := 7\<rparr>)))" for u req
    using write_read [OF ok] by (simp add: Client_Call_def call_deadline_def second_def millisecond_def)
  have exit: "daemon_exit ?D = Some (5 * second, line ''tpctl daemon: hard exit deadline; terminating'', 1)"
    by (simp add: daemon_exit_def shutdown_run_def shutdown_init_def requestShutdown_def lost_text_def hardExitDeadline_def
      before_def second_def millisecond_def)
  have "runDaemonStop E ?S = Some ([], [], 0)"
    by (rule stop_succeeds [where D = ?D and t = "2 * second"])
      (use exit call in \<open>simp_all add: Client_Ping_def daemonStopAckTimeout_def in_order_def daemonStopExitTimeout_def
        hardExitDeadline_def second_def millisecond_def\<close>)
  then show "\<exists>S. so_turns S = [(10, False, False), (6 * second, True, True)] \<and> runDaemonStop E S = Some ([], [], 0)"
    by (intro exI [of _ ?S]) simp
qed

end
