(* ===== verification/Cli.thy ===== *)
theory Cli
  imports Daemon
begin

section \<open>Cli: the commands (internal/cli/app.go, version.go)\<close>

text \<open>
  One function per subcommand, and \<open>Run\<close>, which chooses among them. What the daemon
  subcommand meets is the \<open>daemon_world\<close> of theory Daemon.
\<close>

subsection \<open>The commands\<close>

definition list_help :: "cli_env \<Rightarrow> string" where
  "list_help E = subcommand_help ''list'' ''Enumerate tmux pane ids on the target server.''
     (ce_defaults E ''list'') ''tpctl list'' (spec_ref ''9.1'')"

definition runList :: "cli_env \<Rightarrow> string list \<Rightarrow> outcome" where
  "runList E args =
     (case flag_parse global_flags args of
        Inl err \<Rightarrow> parse_failed E (list_help E) err
      | Inr (fs, rest) \<Rightarrow>
          if rest \<noteq> [] then emitCmdError (error_response [] ErrInvalidArgs ''list takes no positional arguments'')
          else call_and_relay E ''list'' fs (zero_request\<lparr>rq_Op := OpList\<rparr>) (10 * second))"

definition snapshot_flags :: flags where
  "snapshot_flags = global_flags @ pane_flag @ [(''history-lines'', FInt (-1))]"

definition snapshot_help :: "cli_env \<Rightarrow> string" where
  "snapshot_help E = subcommand_help ''snapshot --pane %ID [--history-lines N]''
     ''Capture the pane's visible screen and return a checkpoint token.'' (ce_defaults E ''snapshot'')
     ''tpctl snapshot --pane %42 --history-lines 40'' (spec_ref ''9.2'')"

definition runSnapshot :: "cli_env \<Rightarrow> string list \<Rightarrow> outcome" where
  "runSnapshot E args =
     (case flag_parse snapshot_flags (reorderArgs args boolFlagsCommon) of
        Inl err \<Rightarrow> parse_failed E (snapshot_help E) err
      | Inr (fs, rest) \<Rightarrow>
          if rest \<noteq> [] then emitCmdError (error_response [] ErrInvalidArgs ''snapshot takes no positional arguments'')
          else case validatePaneID (string_flag ''pane'' fs) of
            Some e \<Rightarrow> emitCmdError e
          | None \<Rightarrow>
              (let req = zero_request\<lparr>rq_Op := OpSnapshot, rq_Pane := string_flag ''pane'' fs\<rparr>;
                   n = int_flag ''history-lines'' fs
               in call_and_relay E ''snapshot'' fs
                    (if n \<ge> 0 then req\<lparr>rq_HasHistory := True, rq_HistoryLines := n\<rparr> else req) (15 * second)))"

definition read_flags :: flags where
  "read_flags = global_flags @ pane_flag @ [(''after'', FString [])]"

definition read_help :: "cli_env \<Rightarrow> string" where
  "read_help E = subcommand_help ''read --pane %ID --after TOKEN''
     ''Return pane output appended after the given checkpoint token.'' (ce_defaults E ''read'')
     ''tpctl read --pane %42 --after r_000205'' (spec_ref ''9.3'')"

definition runRead :: "cli_env \<Rightarrow> string list \<Rightarrow> outcome" where
  "runRead E args =
     (case flag_parse read_flags (reorderArgs args boolFlagsCommon) of
        Inl err \<Rightarrow> parse_failed E (read_help E) err
      | Inr (fs, rest) \<Rightarrow>
          if rest \<noteq> [] then emitCmdError (error_response [] ErrInvalidArgs ''read takes no positional arguments'')
          else case validatePaneID (string_flag ''pane'' fs) of
            Some e \<Rightarrow> emitCmdError e
          | None \<Rightarrow> call_and_relay E ''read'' fs
              (zero_request\<lparr>rq_Op := OpRead, rq_Pane := string_flag ''pane'' fs, rq_After := string_flag ''after'' fs\<rparr>)
              (10 * second))"

definition formatQuotedList :: "(nat \<Rightarrow> bool) \<Rightarrow> string list \<Rightarrow> string" where
  "formatQuotedList printable args = join_with '', '' (map (go_quote printable) args)"

definition explainTextPositionalMismatch :: "(nat \<Rightarrow> bool) \<Rightarrow> string list \<Rightarrow> string" where
  "explainTextPositionalMismatch printable args =
     (let flagged = filter (\<lambda>a. has_prefix a ''--'' \<or> has_prefix a ''-'') args in
      if args = [] then ''text takes exactly one positional (the payload), got 0''
      else if flagged \<noteq> [] then
        ''text takes exactly one positional, got '' @ itoa (int (length args)) @ '': ''
        @ formatQuotedList printable args @ ''. Flags-looking tokens ('' @ formatQuotedList printable flagged
        @ '') after `--` are treated as positional; put `--enter` before `--`, or drop `--` entirely.''
      else ''text takes exactly one positional, got '' @ itoa (int (length args)) @ '': ''
        @ formatQuotedList printable args)"

definition text_flags :: flags where
  "text_flags = global_flags @ pane_flag @ [(''enter'', FBool False)]"

definition text_help :: "cli_env \<Rightarrow> string" where
  "text_help E = subcommand_help ''text --pane %ID TEXT [--enter]''
     ''Send literal text to the pane. Exactly one positional payload; --enter appends an Enter keystroke.''
     (ce_defaults E ''text'')
     (''tpctl text --pane %42 '' @ [CHR 0x22] @ ''kubectl get pods'' @ [CHR 0x22] @ '' --enter'') (spec_ref ''9.4'')"

definition runText :: "cli_env \<Rightarrow> string list \<Rightarrow> outcome" where
  "runText E args =
     (case flag_parse text_flags (reorderArgs args (''enter'' # boolFlagsCommon)) of
        Inl err \<Rightarrow> parse_failed E (text_help E) err
      | Inr (fs, rest) \<Rightarrow>
          (case rest of
             [payload] \<Rightarrow>
               (case validatePaneID (string_flag ''pane'' fs) of
                  Some e \<Rightarrow> emitCmdError e
                | None \<Rightarrow> call_and_relay E ''text'' fs
                    (zero_request\<lparr>rq_Op := OpText, rq_Pane := string_flag ''pane'' fs, rq_Text := payload,
                      rq_Enter := bool_flag ''enter'' fs\<rparr>) (10 * second))
           | _ \<Rightarrow> emitCmdError (error_response [] ErrInvalidArgs
               (explainTextPositionalMismatch (ce_printable E) rest))))"

definition key_flags :: flags where
  "key_flags = global_flags @ pane_flag"

definition key_help :: "cli_env \<Rightarrow> string" where
  "key_help E = subcommand_help ''key --pane %ID KEY [KEY...]''
     ''Send one or more named keys (tmux send-keys vocabulary) to the pane.'' (ce_defaults E ''key'')
     (''tpctl key --pane %42 Escape '' @ [CHR 0x22] @ '':'' @ [CHR 0x22] @ '' '' @ [CHR 0x22] @ ''q'' @ [CHR 0x22] @ '' Enter'')
     (spec_ref ''9.5'')"

definition runKey :: "cli_env \<Rightarrow> string list \<Rightarrow> outcome" where
  "runKey E args =
     (case flag_parse key_flags (reorderArgs args boolFlagsCommon) of
        Inl err \<Rightarrow> parse_failed E (key_help E) err
      | Inr (fs, keys) \<Rightarrow>
          if keys = [] then emitCmdError (error_response [] ErrInvalidArgs ''key requires at least one key token'')
          else case validatePaneID (string_flag ''pane'' fs) of
            Some e \<Rightarrow> emitCmdError e
          | None \<Rightarrow> call_and_relay E ''key'' fs
              (zero_request\<lparr>rq_Op := OpKey, rq_Pane := string_flag ''pane'' fs, rq_Keys := keys\<rparr>) (10 * second))"

definition wait_flags :: flags where
  "wait_flags = global_flags @ pane_flag @ [(''after'', FString []), (''for'', FString []), (''timeout-ms'', FInt 0),
     (''token'', FString []), (''pattern'', FString []), (''ms'', FInt 0)]"

definition wait_help :: "cli_env \<Rightarrow> string" where
  "wait_help E = subcommand_help ''wait --pane %ID --after TOKEN --for MODE ... --timeout-ms T''
     ''Wait for pane output to match a condition. Modes: sentinel, regex, quiescence.'' (ce_defaults E ''wait'')
     ''tpctl wait --pane %42 --after r_000205 --for sentinel --token run1 --timeout-ms 5000'' (spec_ref ''9.6'')"

text \<open>The deadline of the call: the timeout and two seconds, added with wrap-around.\<close>

definition wait_total :: "int \<Rightarrow> duration" where
  "wait_total timeoutMs = wrap64 (dur_ms timeoutMs + 2 * second)"

definition runWait :: "cli_env \<Rightarrow> string list \<Rightarrow> outcome" where
  "runWait E args =
     (case flag_parse wait_flags (reorderArgs args boolFlagsCommon) of
        Inl err \<Rightarrow> parse_failed E (wait_help E) err
      | Inr (fs, rest) \<Rightarrow>
          if rest \<noteq> [] then emitCmdError (error_response [] ErrInvalidArgs ''wait takes no positional arguments'')
          else case validatePaneID (string_flag ''pane'' fs) of
            Some e \<Rightarrow> emitCmdError e
          | None \<Rightarrow> call_and_relay E ''wait'' fs
              (zero_request\<lparr>rq_Op := OpWait, rq_Pane := string_flag ''pane'' fs, rq_After := string_flag ''after'' fs,
                rq_Mode := string_flag ''for'' fs, rq_SentinelToken := string_flag ''token'' fs,
                rq_Pattern := string_flag ''pattern'' fs, rq_QuietMs := int_flag ''ms'' fs,
                rq_TimeoutMs := int_flag ''timeout-ms'' fs\<rparr>)
              (wait_total (int_flag ''timeout-ms'' fs)))"

subsection \<open>The version\<close>

record vcs_info =
  vc_rev :: string
  vc_time :: string
  vc_dirty :: string

fun vcs_settings :: "(string \<times> string) list \<Rightarrow> vcs_info \<Rightarrow> vcs_info" where
  "vcs_settings [] v = v"
| "vcs_settings ((key, val) # ss) v = vcs_settings ss
     (if key = ''vcs.revision'' then v\<lparr>vc_rev := val\<rparr>
      else if key = ''vcs.time'' then v\<lparr>vc_time := val\<rparr>
      else if key = ''vcs.modified'' \<and> val = ''true'' then v\<lparr>vc_dirty := ''+dirty''\<rparr>
      else v)"

definition versionString :: "build_info option \<Rightarrow> string" where
  "versionString info =
     (case info of
        None \<Rightarrow> ''tpctl (version information unavailable)''
      | Some bi \<Rightarrow>
          if bi_version bi = [] \<or> bi_version bi = ''(devel)'' then
            (let v = vcs_settings (bi_settings bi) \<lparr>vc_rev = [], vc_time = [], vc_dirty = []\<rparr> in
             if vc_rev v \<noteq> [] then
               ''tpctl devel '' @ take 12 (vc_rev v) @ vc_dirty v
               @ (if vc_time v \<noteq> [] then '' ('' @ vc_time v @ '')'' else [])
             else ''tpctl devel'')
          else ''tpctl '' @ bi_version bi)"

subsection \<open>Run\<close>

definition run_command :: "cli_env \<Rightarrow> daemon_world \<Rightarrow> string \<Rightarrow> string list \<Rightarrow> outcome" where
  "run_command E D cmd subArgs =
     (if cmd = ''list'' then runList E subArgs
      else if cmd = ''snapshot'' then runSnapshot E subArgs
      else if cmd = ''read'' then runRead E subArgs
      else if cmd = ''text'' then runText E subArgs
      else if cmd = ''key'' then runKey E subArgs
      else if cmd = ''wait'' then runWait E subArgs
      else if cmd = ''daemon'' then runDaemon E D subArgs
      else Some ([], line (''tpctl: unknown command '' @ go_quote (ce_printable E) cmd) @ [newline] @ Usage, 2))"

definition Run :: "cli_env \<Rightarrow> daemon_world \<Rightarrow> string list \<Rightarrow> outcome" where
  "Run E D args =
     (let g = extractGlobals args in
      if gr_version g then Some (line (versionString (ce_build E)), [], 0)
      else if gr_help g then Some (Usage, [], 0)
      else case gr_remaining g of
        [] \<Rightarrow> Some ([], Usage, 2)
      | cmd # rest \<Rightarrow>
          if cmd = ''-h'' \<or> cmd = ''help'' then Some (Usage, [], 0)
          else if cmd = ''version'' then Some (line (versionString (ce_build E)), [], 0)
          else run_command E D cmd (gr_globals g @ rest))"

text \<open>\<open>main\<close>: the arguments after the program's name; without a name slicing panics.\<close>

definition tpctl_main :: "cli_env \<Rightarrow> daemon_world \<Rightarrow> string list \<Rightarrow> string + outcome" where
  "tpctl_main E D argv =
     (case argv of
        [] \<Rightarrow> Inl ''runtime error: slice bounds out of range [1:0]''
      | _ # args \<Rightarrow> Inr (Run E D args))"

subsection \<open>Hoisting the global flags\<close>

definition global_item :: "arg_item \<Rightarrow> bool" where
  "global_item x \<longleftrightarrow> (case x of Val n v \<Rightarrow> n \<in> {''tmux-socket'', ''tmux-socket-name''}
     | Eq n v \<Rightarrow> n \<in> {''tmux-socket'', ''tmux-socket-name''} | _ \<Rightarrow> False)"

definition command_word :: "string \<Rightarrow> bool" where
  "command_word cmd \<longleftrightarrow> \<not> has_prefix cmd ''--'' \<and> cmd \<noteq> ''-h''"

lemma extract_command:
  "command_word cmd \<Longrightarrow> extract_loop gs h v (cmd # rest) =
     \<lparr>gr_globals = gs, gr_help = h, gr_version = v, gr_remaining = cmd # rest\<rparr>"
  by (auto simp: command_word_def Let_def has_prefix_iff)

lemma long_name_simps:
  "CHR ''='' \<notin> set n \<Longrightarrow> long_name (''--'' @ n) = (n, False)"
  "CHR ''='' \<notin> set n \<Longrightarrow> long_name (''--'' @ n @ ''='' @ v) = (n, True)"
proof -
  assume n: "CHR ''='' \<notin> set n"
  then have "index_byte n (CHR ''='') = None" by simp
  then show "long_name (''--'' @ n) = (n, False)" by (simp add: long_name_def del: index_byte_None)
  show "long_name (''--'' @ n @ ''='' @ v) = (n, True)"
    using index_byte_first [OF n, of v] by (simp add: long_name_def)
qed

lemma extract_global_names:
  "long_name ''--tmux-socket'' = (''tmux-socket'', False)"
  "long_name ''--tmux-socket-name'' = (''tmux-socket-name'', False)"
  "long_name (''--tmux-socket='' @ v) = (''tmux-socket'', True)"
  "long_name (''--tmux-socket-name='' @ v) = (''tmux-socket-name'', True)"
  using long_name_simps(1) [of "''tmux-socket''"] long_name_simps(1) [of "''tmux-socket-name''"]
    long_name_simps(2) [of "''tmux-socket''" v] long_name_simps(2) [of "''tmux-socket-name''" v] by simp_all

lemma extract_item:
  assumes "global_item x"
  shows "extract_loop gs h v (render x @ args) = extract_loop (gs @ render x) h v args"
proof (cases x)
  case (Val n w)
  with assms consider "n = ''tmux-socket''" | "n = ''tmux-socket-name''" by (auto simp: global_item_def)
  then show ?thesis using Val extract_global_names(1,2) by cases simp_all
next
  case (Eq n w)
  with assms consider "n = ''tmux-socket''" | "n = ''tmux-socket-name''" by (auto simp: global_item_def)
  then show ?thesis using Eq extract_global_names(3,4) [of w] by cases simp_all
qed (use assms in \<open>simp_all add: global_item_def\<close>)

lemma extract_items:
  assumes "list_all global_item xs" and "command_word cmd"
  shows "extract_loop gs h v (render_all xs @ cmd # rest) =
    \<lparr>gr_globals = gs @ render_all xs, gr_help = h, gr_version = v, gr_remaining = cmd # rest\<rparr>"
  using assms(1)
proof (induction xs arbitrary: gs)
  case Nil
  then show ?case using extract_command [OF assms(2)] by (simp add: render_all_def del: extract_loop.simps)
next
  case (Cons x xs)
  then show ?case
    using extract_item [of x gs h v "render_all xs @ cmd # rest"]
    by (simp add: render_all_def del: extract_loop.simps)
qed

subsection \<open>A text command from the command line to tmux\<close>

text \<open>The daemon of the tmux socket a command resolves to is at the other end of the connection.\<close>

definition reaches :: "cli_env \<Rightarrow> flags \<Rightarrow> connection \<Rightarrow> bool" where
  "reaches E fs conn \<longleftrightarrow> dial E fs = Dialed conn"

lemma not_found_text: "command_error pid codes e \<Longrightarrow> classify_err e =
    (case e of Command r \<Rightarrow> cmd_err r | _ \<Rightarrow> runtime_err (error_string e))"
  by (simp add: classify_err_def split: go_error.split)

definition text_outcome :: "go_error option \<Rightarrow> outcome" where
  "text_outcome res =
     (case res of
        None \<Rightarrow> Some ([], [], 0)
      | Some e \<Rightarrow> relay (Some (sanitize_response (classify_err e))))"

lemma text_outcome_cases:
  "text_outcome res =
    (case res of
       None \<Rightarrow> Some ([], [], 0)
     | Some (Command e) \<Rightarrow> Some (line (json_print (error_json (sanitize_error e))), [], 1)
     | Some e \<Rightarrow> Some ([], if utf8_sanitize (error_string e) \<noteq> [] then line (''tpctl: '' @ utf8_sanitize (error_string e)) else [], 1))"
proof (cases res)
  case (Some e)
  have c: "relay (Some (sanitize_response (cmd_err r))) = Some (line (json_print (error_json (sanitize_error r))), [], 1)" for r
    by (simp add: relay_def sanitize_response_def cmd_err_def zero_response_def emitCmdError_def)
  have m: "relay (Some (sanitize_response (runtime_err t))) =
      Some ([], if utf8_sanitize t \<noteq> [] then line (''tpctl: '' @ utf8_sanitize t) else [], 1)" for t
    by (simp add: relay_def sanitize_response_def runtime_err_def zero_response_def)
  show ?thesis unfolding Some text_outcome_def
    by (cases e) (simp_all only: option.case go_error.case classify_err_def c m)
qed (simp add: text_outcome_def)

lemma call_text:
  assumes b: "adapter_backend tmux opts b" and st: "store_ok inst st"
    and r: "reaches E fs (daemon_peer b ue me pid (w, st) at eof late)" and "at < ce_now E + 10 * second"
    and "utf8_valid pane" "utf8_valid payload"
  shows "call_and_relay E cmd fs (zero_request\<lparr>rq_Op := OpText, rq_Pane := pane, rq_Text := payload, rq_Enter := enter\<rparr>) (10 * second)
    = text_outcome (fst (SendText_cmd (Adapter_SendText tmux opts) pane payload enter w))"
proof -
  let ?req = "zero_request\<lparr>rq_Op := OpText, rq_Pane := pane, rq_Text := payload, rq_Enter := enter\<rparr>"
  obtain res w' where s: "SendText_cmd (Adapter_SendText tmux opts) pane payload enter w = (res, w')" by fastforce
  have v: "utf8_valid OpText" unfolding op_defs by code_simp
  then have id: "sanitize_request ?req = ?req"
    by (intro sanitize_request_utf8) (simp add: request_utf8_def zero_request_def assms(5,6))
  from b have t: "bk_text b = Adapter_SendText tmux opts" "uses_port (Adapter_ListPanes tmux opts)
      (Adapter_CapturePane tmux opts) (Adapter_CaptureScrollback tmux opts) (Adapter_SendText tmux opts)
      (Adapter_SendKeys tmux opts) b" "honest b" by (auto simp: adapter_backend_def uses_port_def)
  have d: "Dispatch b (sanitize_request ?req) (w, st) = Some (unit_result res, w', st)"
    unfolding id using s t(1) by (simp add: Dispatch_def op_defs zero_request_def)
  have "response_ok (unit_result res)"
    using adapter.dispatch_typed [OF t(2,3) st TrueI, of "sanitize_request ?req" w] d typed_response_ok by auto
  moreover have "request_ints ?req" by (simp add: request_ints_def zero_request_def in_int64_def int64_min_def int64_max_def)
  moreover have "rq_Op (sanitize_request ?req) \<noteq> OpShutdown" unfolding id by (simp add: op_defs)
  ultimately have c: "Client_Call (ce_unmarshal_error E) (ce_now E) (daemon_peer b ue me pid (w, st) at eof late) ?req (10 * second)
      = Some (Inr (sanitize_response (unit_result res)))"
    using call_answered [OF _ _ d] assms(4) by blast
  have "relay (Some (sanitize_response (ok_response []))) = Some ([], [], 0)"
    by (simp add: relay_def sanitize_response_def ok_response_def zero_response_def)
  with c r s show ?thesis
    by (simp add: call_and_relay_def reaches_def text_outcome_def unit_result_def split: option.split)
qed

subsection \<open>Streams and exit codes\<close>

text \<open>
  A success says nothing on standard error; a failure with code 1 is one JSON object on
  standard output or else leaves standard output empty; code 2 explains itself on
  standard error.
\<close>

definition contract :: "outcome \<Rightarrow> bool" where
  "contract o' \<longleftrightarrow>
     (case o' of
        None \<Rightarrow> True
      | Some (out, err, code) \<Rightarrow>
          code = 0 \<and> err = [] \<or>
          code = 1 \<and> (out = [] \<or> err = [] \<and> (\<exists>e. out = line (json_print (error_json e)))) \<or>
          code = 2 \<and> err \<noteq> [])"

named_theorems contracts

lemma contract_simps [contracts]:
  "contract None" "contract (Some (out, [], 0))" "contract (Some ([], err, 1))" "contract (emitCmdError e)"
  "err \<noteq> [] \<Longrightarrow> contract (Some (out, err, 2))"
  by (auto simp: contract_def emitCmdError_def)

lemma contract_relay [contracts]: "contract (relay resp)"
  using contract_simps by (auto simp: relay_def split: option.split)

lemma contract_parse [contracts]: "contract (parse_failed E help err)"
  using contract_simps(2,5) by (simp add: parse_failed_def line_def)

lemma contract_call [contracts]: "contract (call_and_relay E cmd fs req overall)"
  unfolding call_and_relay_def
  by (auto split: dialed.split option.split sum.split intro: contracts)

lemma contract_commands:
  "contract (runList E args)" "contract (runSnapshot E args)" "contract (runRead E args)"
  "contract (runText E args)" "contract (runKey E args)" "contract (runWait E args)"
  by (auto simp: runList_def runSnapshot_def runRead_def runText_def runKey_def runWait_def Let_def
      split: sum.split option.split list.split intro: contracts)

lemma contract_command: "cmd \<noteq> ''daemon'' \<Longrightarrow> contract (run_command E D cmd args)"
  using contract_commands contract_simps(5) by (auto simp: run_command_def line_def)

text \<open>A flag that does not parse prints the banner to standard output all the same.\<close>

lemma usage_on_stdout: "Run E D [''list'', ''--bogus''] = Some (list_help E, line (ce_flag_text E (NotDefined ''bogus'')), 2) \<and> list_help E \<noteq> []"
  by (simp add: Run_def extractGlobals_def has_prefix_def run_command_def runList_def flag_token_def global_flags_def
      parse_failed_def list_help_def subcommand_help_def line_def)

text \<open>The help flag before a subcommand is not the help flag after it.\<close>

lemma help_position_matters:
  "Run E D [''--help'', ''list''] = Some (Usage, [], 0)"
  "Run E D [''list'', ''--help''] = Some (list_help E, [], 0)"
proof -
  have "long_name ''--help'' = (''help'', False)" using long_name_simps(1) [of "''help''"] by simp
  then show "Run E D [''--help'', ''list''] = Some (Usage, [], 0)"
    by (simp add: Run_def extractGlobals_def has_prefix_def)
  show "Run E D [''list'', ''--help''] = Some (list_help E, [], 0)"
    by (simp add: Run_def extractGlobals_def has_prefix_def run_command_def runList_def flag_token_def global_flags_def
      parse_failed_def)
qed

text \<open>
  The deadline of a wait's call is two seconds after the timeout as long as the sum fits;
  just above, the sum wraps to a negative number and the call has no deadline at all.
\<close>

lemma wait_total_exact: "0 < t \<Longrightarrow> t \<le> 9223372034854 \<Longrightarrow> wait_total t = t * millisecond + 2 * second"
  by (simp add: wait_total_def dur_ms_exact wrap64_id in_int64_def int64_min_def int64_max_def second_def millisecond_def)

lemma wait_total_wraps: "wait_total 9223372036854 < 0 \<and> call_deadline now (wait_total 9223372036854) = None"
  by (simp add: wait_total_def call_deadline_def dur_ms_def second_def millisecond_def wrap64_code)

subsection \<open>Properties\<close>

text \<open>C27: the global flags may stand before or after the subcommand. Whatever socket flags are
  given, in either spelling, putting them before the subcommand's name or right after it
  makes no difference to the outcome, for every subcommand and every word in its place.\<close>

theorem globals_anywhere:
  assumes "list_all global_item gs" and "command_word cmd"
  shows "Run E D (render_all gs @ cmd # rest) = Run E D (cmd # render_all gs @ rest)"
proof -
  have "extractGlobals (render_all gs @ cmd # rest) =
      \<lparr>gr_globals = render_all gs, gr_help = False, gr_version = False, gr_remaining = cmd # rest\<rparr>"
    using extract_items [OF assms, of "[]"] by (simp add: extractGlobals_def del: extract_loop.simps)
  moreover have "extractGlobals (cmd # render_all gs @ rest) =
      \<lparr>gr_globals = [], gr_help = False, gr_version = False, gr_remaining = cmd # render_all gs @ rest\<rparr>"
    using extract_command [OF assms(2)] by (simp add: extractGlobals_def del: extract_loop.simps)
  ultimately show ?thesis by (simp add: Run_def)
qed

theorem globals_anywhere_witness:
  "\<forall>E D. Run E D [''--tmux-socket'', ''/tmp/t.sock'', ''list''] = Run E D [''list'', ''--tmux-socket'', ''/tmp/t.sock'']"
  using globals_anywhere [of "[Val ''tmux-socket'' ''/tmp/t.sock'']" "''list''" _ _ "[]"]
  by (simp add: global_item_def command_word_def render_all_def has_prefix_def)

text \<open>C17: a text command does what its words say, end to end. Whatever the order of its
  arguments and whether or not a double dash precedes the payload, the command makes the
  daemon of its tmux server run exactly the adapter's send of that payload to that pane,
  with or without Enter, and reports its outcome: nothing printed and 0 on success, the
  command error as one JSON line on standard output and 1, or a diagnostic on standard
  error and 1.\<close>

theorem text_end_to_end:
  fixes xs defines "fs \<equiv> fold apply_item xs text_flags"
  assumes "items_ok text_flags (''enter'' # boolFlagsCommon) xs" and "positionals xs @ rest_positionals tail = [payload]"
    and "has_prefix (string_flag ''pane'' fs) ''%''" and "utf8_valid (string_flag ''pane'' fs)" and "utf8_valid payload"
    and "adapter_backend tmux opts b" and "store_ok inst st"
    and "reaches E fs (daemon_peer b ue me pid (w, st) at eof late)" and "at < ce_now E + 10 * second"
  shows "Run E D (''text'' # render_all xs @ rest_args tail) =
    (case fst (SendText_cmd (Adapter_SendText tmux opts) (string_flag ''pane'' fs) payload (bool_flag ''enter'' fs) w) of
       None \<Rightarrow> Some ([], [], 0)
     | Some (Command e) \<Rightarrow> Some (line (json_print (error_json (sanitize_error e))), [], 1)
     | Some e \<Rightarrow> Some ([], if utf8_sanitize (error_string e) \<noteq> [] then line (''tpctl: '' @ utf8_sanitize (error_string e)) else [], 1))"
proof -
  have "command_word ''text''" by (simp add: command_word_def has_prefix_def)
  from extract_command [OF this] have "Run E D (''text'' # args) = runText E args" for args
    by (simp add: Run_def extractGlobals_def run_command_def del: extract_loop.simps)
  moreover have "runText E (render_all xs @ rest_args tail) = call_and_relay E ''text'' fs
      (zero_request\<lparr>rq_Op := OpText, rq_Pane := string_flag ''pane'' fs, rq_Text := payload, rq_Enter := bool_flag ''enter'' fs\<rparr>)
      (10 * second)"
    using parse_interleaved [OF assms(2), of tail] assms(3,4)
    by (auto simp: runText_def validatePaneID_def fs_def)
  ultimately have "Run E D (''text'' # render_all xs @ rest_args tail) =
      text_outcome (fst (SendText_cmd (Adapter_SendText tmux opts) (string_flag ''pane'' fs) payload (bool_flag ''enter'' fs) w))"
    using call_text [OF assms(7-10) assms(5,6)] by simp
  then show ?thesis unfolding text_outcome_cases .
qed

theorem text_end_to_end_witness:
  "\<exists>E. \<forall>D. Run E D [''text'', ''--enter'', ''ls'', ''--pane'', ''%1''] = Some ([], [], 0)"
proof -
  let ?tmux = "\<lambda>argv (n :: nat). (\<lparr>tr_err = None, tr_stdout = [], tr_stderr = []\<rparr>, n)"
  let ?opts = "\<lparr>op_SocketPath = [], op_SocketName = []\<rparr>"
  let ?env = "\<lparr>env_TMUX = ''/t,1,0'', env_XDG = [], env_uid = 7, env_tmpdir = ''/tmp'', env_cwd = Inr ''/''\<rparr>"
  let ?xs = "[Switch ''enter'', Pos ''ls'', Val ''pane'' ''%1'']"
  let ?fs = "fold apply_item ?xs text_flags"
  obtain b :: "nat backend" where b: "adapter_backend ?tmux ?opts b" using adapter_backend_exists by blast
  let ?peer = "daemon_peer b (\<lambda>_. []) (\<lambda>_. []) 7 (0, Store_New ''AB'' 8) 5 [] []"
  let ?E = "\<lparr>ce_environ = ?env, ce_ensure = \<lambda>_. Inr ?peer, ce_now = 0, ce_defaults = \<lambda>_. [], ce_flag_text = \<lambda>_. [],
      ce_unmarshal_error = \<lambda>_. [], ce_printable = \<lambda>_. True, ce_build = None\<rparr>"
  have st: "store_ok (st_instance (Store_New ''AB'' 8)) (Store_New ''AB'' 8)"
    using store_rep_new [of 8 "''AB''"] by (auto simp: store_ok_def)
  have ok: "items_ok text_flags (''enter'' # boolFlagsCommon) ?xs"
    by (auto simp: items_ok_def text_flags_def global_flags_def pane_flag_def boolFlagsCommon_def flag_name_def)
  have fs: "?fs = [(''tmux-socket'', FString []), (''tmux-socket-name'', FString []), (''pane'', FString ''%1''), (''enter'', FBool True)]"
    by (simp add: text_flags_def global_flags_def pane_flag_def flag_set_def)
  have r: "reaches ?E ?fs ?peer"
    unfolding fs by (simp add: reaches_def dial_def string_flag_def ResolveTmuxSocket_def)
  have v: "utf8_valid ''%1''" "utf8_valid ''ls''" by code_simp+
  have send: "fst (SendText_cmd (Adapter_SendText ?tmux ?opts) ''%1'' ''ls'' True 0) = None"
    by (simp add: SendText_cmd_def Adapter_SendText_def Let_def)
  have "Run ?E D (''text'' # render_all ?xs @ rest_args None) = Some ([], [], 0)" for D
    using text_end_to_end [OF ok _ _ _ v(2) b st r, of None D] v(1) send
    unfolding fs by (simp add: rest_positionals_def string_flag_def bool_flag_def has_prefix_def second_def millisecond_def)
  then show ?thesis by (intro exI [of _ ?E]) (simp add: render_all_def rest_args_def)
qed

end
