(* ===== verification/Harness.thy ===== *)
theory Harness
  imports Cli Waiter
begin

section \<open>Harness: the conformance harness (conformance/harness/harness.go)\<close>

text \<open>
  The runtime support of the conformance scenarios: the environment of a scenario, the
  invocation of the binary under test and of the fixture's tmux, the checks on a result and
  the diagnostics of a failed test. The binary, tmux, the file system and the clock are the
  fields of \<open>fixture\<close>, over a state \<open>'w\<close> of the world. A call of \<open>t.Fatal\<close> or
  \<open>t.Skip\<close> ends the scenario: it is the left value of a sum, with the arguments of the
  message instead of its text.
\<close>

subsection \<open>The environment\<close>

record invocation =
  inv_when :: instant
  inv_args :: "string list"
  inv_code :: int
  inv_stdout :: string
  inv_stderr :: string

record Env =
  he_bin :: string
  he_tmux :: string
  he_tmuxSoc :: string
  he_xdgDir :: string
  he_history :: "invocation list"
  he_panes :: "string list"

record Result =
  res_Code :: int
  res_Stdout :: string
  res_Stderr :: string

text \<open>How a process ended: with an exit code, or it could not be run.\<close>

datatype run_end = ExitCode int | NotRun string

record 'w fixture =
  fx_binary :: "string list \<Rightarrow> string list \<Rightarrow> 'w \<Rightarrow> (run_end \<times> string \<times> string) \<times> 'w"
  fx_tmux :: "string list \<Rightarrow> 'w \<Rightarrow> (string \<times> string option) \<times> 'w"
  fx_now :: "'w \<Rightarrow> instant"
  fx_dir :: "string \<Rightarrow> 'w \<Rightarrow> string list option"
  fx_dial :: "string \<Rightarrow> 'w \<Rightarrow> bool"
  fx_sleep :: "duration \<Rightarrow> 'w \<Rightarrow> 'w"
  fx_PATH :: string
  fx_HOME :: string

datatype stopped =
    Skip string
  | BinaryNotFound string
  | TmuxNewSession string string
  | TmuxFailed "string list" string string
  | ExecFailed "string list" string
  | WrongExit Result
  | NotJSON Result
  | NoErrorCode Result
  | NoErrorMessage Result
  | NotMuted Result
  | NoPanes
  | NotAPane string
  | NeverContained string string duration
  | WrongCode ErrorResponse string
  | NotAnInt string string

text \<open>
  \<open>NewEnv\<close>: the flags, whether the binary exists and tmux is on the path, and the two
  temporary directories.
\<close>

definition NewEnv ::
    "string \<Rightarrow> string \<Rightarrow> bool \<Rightarrow> bool \<Rightarrow> string \<Rightarrow> string \<Rightarrow> 'w fixture \<Rightarrow> 'w \<Rightarrow> (stopped + Env) \<times> 'w" where
  "NewEnv binaryFlag tmuxFlag bin_exists tmux_found xdg tmp F w =
     (if binaryFlag = [] then (Inl (Skip ''--binary flag not set; pass the tpctl-under-test binary path''), w)
      else if \<not> bin_exists then (Inl (BinaryNotFound binaryFlag), w)
      else if \<not> tmux_found then (Inl (Skip tmuxFlag), w)
      else
        let soc = path_join [tmp, ''tmux.sock'']
        in case fx_tmux F [''-S'', soc, ''-f'', ''/dev/null'', ''new-session'', ''-d'', ''-s'', ''t'',
             ''-x'', ''80'', ''-y'', ''24'', ''bash'', ''-i''] w of
          ((out, Some err), w') \<Rightarrow> (Inl (TmuxNewSession err out), w')
        | ((out, None), w') \<Rightarrow>
            (Inr \<lparr>he_bin = binaryFlag, he_tmux = tmuxFlag, he_tmuxSoc = soc, he_xdgDir = xdg,
               he_history = [], he_panes = []\<rparr>, w'))"

definition RequireBinary :: "string \<Rightarrow> stopped + string" where
  "RequireBinary binaryFlag = (if binaryFlag = [] then Inl (Skip ''--binary not set'') else Inr binaryFlag)"

subsection \<open>Invocations\<close>

definition Tmux :: "'w fixture \<Rightarrow> Env \<Rightarrow> string list \<Rightarrow> 'w \<Rightarrow> (stopped + string) \<times> 'w" where
  "Tmux F e args w =
     (case fx_tmux F ([''-S'', he_tmuxSoc e] @ args) w of
        ((out, Some err), w') \<Rightarrow> (Inl (TmuxFailed args err out), w')
      | ((out, None), w') \<Rightarrow> (Inr out, w'))"

definition record_invocation :: "invocation \<Rightarrow> Env \<Rightarrow> Env" where
  "record_invocation i e =
     (let h = he_history e @ [i]
      in e\<lparr>he_history := (if 32 < length h then drop (length h - 32) h else h)\<rparr>)"

definition RunArgs :: "'w fixture \<Rightarrow> string list \<Rightarrow> Env \<Rightarrow> 'w \<Rightarrow> (stopped + Result) \<times> Env \<times> 'w" where
  "RunArgs F args e w =
     (let started = fx_now F w
      in case fx_binary F [''XDG_RUNTIME_DIR='' @ he_xdgDir e, ''PATH='' @ fx_PATH F, ''HOME='' @ fx_HOME F] args w of
        ((NotRun err, _, _), w') \<Rightarrow> (Inl (ExecFailed args err), e, w')
      | ((ExitCode code, out, err), w') \<Rightarrow>
          (Inr \<lparr>res_Code = code, res_Stdout = out, res_Stderr = err\<rparr>,
           record_invocation \<lparr>inv_when = started, inv_args = args, inv_code = code,
             inv_stdout = out, inv_stderr = err\<rparr> e, w'))"

definition Env_Run :: "'w fixture \<Rightarrow> string list \<Rightarrow> Env \<Rightarrow> 'w \<Rightarrow> (stopped + Result) \<times> Env \<times> 'w" where
  "Env_Run F args e w =
     (case args of
        [] \<Rightarrow> RunArgs F [] e w
      | cmd # rest \<Rightarrow> RunArgs F ([cmd, ''--tmux-socket'', he_tmuxSoc e] @ rest) e w)"

subsection \<open>White space\<close>

text \<open>\<open>strings.TrimSpace\<close>: the encodings of the code points with the Unicode property White Space.\<close>

definition space_runes :: "string list" where
  "space_runes =
     map (\<lambda>c. [c]) [CHR 0x09, CHR 0x0A, CHR 0x0B, CHR 0x0C, CHR 0x0D, CHR 0x20]
     @ [[CHR 0xC2, CHR 0x85], [CHR 0xC2, CHR 0xA0], [CHR 0xE1, CHR 0x9A, CHR 0x80]]
     @ map (\<lambda>n. [CHR 0xE2, CHR 0x80, char_of (n :: nat)]) ([0x80..<0x8B] @ [0xA8, 0xA9, 0xAF])
     @ [[CHR 0xE2, CHR 0x81, CHR 0x9F], [CHR 0xE3, CHR 0x80, CHR 0x80]]"

function trim_prefixes :: "string list \<Rightarrow> string \<Rightarrow> string" where
  "trim_prefixes ps s =
     (case find (\<lambda>p. p \<noteq> [] \<and> has_prefix s p) ps of
        None \<Rightarrow> s
      | Some p \<Rightarrow> trim_prefixes ps (drop (length p) s))"
  by pat_completeness auto

termination
  by (relation "measure (\<lambda>(ps, s). length s)") (auto simp: find_Some_iff has_prefix_iff)

declare trim_prefixes.simps [simp del]

definition TrimSpace :: "string \<Rightarrow> string" where
  "TrimSpace s = rev (trim_prefixes (map rev space_runes) (rev (trim_prefixes space_runes s)))"

subsection \<open>Checks on a result\<close>

text \<open>
  The types of the harness mirror the payload types of theory Domain; only the result of a
  wait is any string here. Each has its decoder, over what the fields hold.
\<close>

record wait_mirror =
  wm_PaneID :: string
  wm_Next :: string
  wm_Result :: string
  wm_Matched :: "string option"
  wm_ExitCode :: "int option"

fun store_opt :: "('a \<Rightarrow> json \<Rightarrow> 'a \<times> bool) \<Rightarrow> 'a \<Rightarrow> 'a option \<Rightarrow> json \<Rightarrow> 'a option \<times> bool" where
  "store_opt f zero cur JNull = (None, True)"
| "store_opt f zero cur v =
     (let (x, ok) = f (case cur of None \<Rightarrow> zero | Some x \<Rightarrow> x) v in (Some x, ok))"

definition set_list_field :: "string list \<times> string list \<Rightarrow> bytes \<Rightarrow> json \<Rightarrow> (string list \<times> string list) \<times> bool" where
  "set_list_field s key v = (if key = ''PANES'' then store_strings s v else (s, True))"

definition set_snapshot_field :: "SnapshotResponse \<Rightarrow> bytes \<Rightarrow> json \<Rightarrow> SnapshotResponse \<times> bool" where
  "set_snapshot_field r key v =
     (if key = ''PANE_ID'' then (let (x, ok) = store_string (sr_pane_id r) v in (r\<lparr>sr_pane_id := x\<rparr>, ok))
      else if key = ''NEXT'' then (let (x, ok) = store_string (sr_next r) v in (r\<lparr>sr_next := x\<rparr>, ok))
      else if key = ''TEXT'' then (let (x, ok) = store_string (sr_text r) v in (r\<lparr>sr_text := x\<rparr>, ok))
      else if key = ''SCROLLBACK_TEXT'' then
        (let (x, ok) = store_opt store_string [] (sr_scrollback_text r) v in (r\<lparr>sr_scrollback_text := x\<rparr>, ok))
      else (r, True))"

definition set_read_field :: "ReadResponse \<Rightarrow> bytes \<Rightarrow> json \<Rightarrow> ReadResponse \<times> bool" where
  "set_read_field r key v =
     (if key = ''PANE_ID'' then (let (x, ok) = store_string (rr_pane_id r) v in (r\<lparr>rr_pane_id := x\<rparr>, ok))
      else if key = ''NEXT'' then (let (x, ok) = store_string (rr_next r) v in (r\<lparr>rr_next := x\<rparr>, ok))
      else if key = ''TEXT'' then (let (x, ok) = store_string (rr_text r) v in (r\<lparr>rr_text := x\<rparr>, ok))
      else (r, True))"

definition set_wait_field :: "wait_mirror \<Rightarrow> bytes \<Rightarrow> json \<Rightarrow> wait_mirror \<times> bool" where
  "set_wait_field r key v =
     (if key = ''PANE_ID'' then (let (x, ok) = store_string (wm_PaneID r) v in (r\<lparr>wm_PaneID := x\<rparr>, ok))
      else if key = ''NEXT'' then (let (x, ok) = store_string (wm_Next r) v in (r\<lparr>wm_Next := x\<rparr>, ok))
      else if key = ''RESULT'' then (let (x, ok) = store_string (wm_Result r) v in (r\<lparr>wm_Result := x\<rparr>, ok))
      else if key = ''MATCHED'' then
        (let (x, ok) = store_opt store_string [] (wm_Matched r) v in (r\<lparr>wm_Matched := x\<rparr>, ok))
      else if key = ''EXIT_CODE'' then
        (let (x, ok) = store_opt store_int 0 (wm_ExitCode r) v in (r\<lparr>wm_ExitCode := x\<rparr>, ok))
      else (r, True))"

definition MustJSON :: "('s \<Rightarrow> bytes \<Rightarrow> json \<Rightarrow> 's \<times> bool) \<Rightarrow> 's \<Rightarrow> Result \<Rightarrow> stopped + 's" where
  "MustJSON set_field v r =
     (if res_Code r \<noteq> 0 then Inl (WrongExit r)
      else case json_unmarshal set_field v (TrimSpace (res_Stdout r)) of
        None \<Rightarrow> Inl (NotJSON r)
      | Some x \<Rightarrow> Inr x)"

definition MustError :: "Result \<Rightarrow> stopped + ErrorResponse" where
  "MustError r =
     (if res_Code r = 0 then Inl (WrongExit r)
      else case json_unmarshal set_error_field zero_error (TrimSpace (res_Stdout r)) of
        None \<Rightarrow> Inl (NotJSON r)
      | Some e \<Rightarrow>
          if er_code e = [] then Inl (NoErrorCode r)
          else if er_message e = [] then Inl (NoErrorMessage r)
          else Inr e)"

definition MustMuted :: "Result \<Rightarrow> stopped + unit" where
  "MustMuted r =
     (if res_Code r \<noteq> 0 then Inl (WrongExit r)
      else if res_Stdout r \<noteq> [] then Inl (NotMuted r)
      else Inr ())"

definition AssertCode :: "ErrorResponse \<Rightarrow> string \<Rightarrow> stopped + unit" where
  "AssertCode e want = (if er_code e \<noteq> want then Inl (WrongCode e want) else Inr ())"

definition AtoiOrFail :: "string \<Rightarrow> string \<Rightarrow> stopped + int" where
  "AtoiOrFail s ctx = (case atoi s of None \<Rightarrow> Inl (NotAnInt ctx s) | Some n \<Rightarrow> Inr n)"

subsection \<open>Scenario helpers\<close>

definition Env_List :: "'w fixture \<Rightarrow> Env \<Rightarrow> 'w \<Rightarrow> (stopped + string list) \<times> Env \<times> 'w" where
  "Env_List F e w =
     (case Env_Run F [''list''] e w of
        (Inl s, e', w') \<Rightarrow> (Inl s, e', w')
      | (Inr r, e', w') \<Rightarrow>
          ((case MustJSON set_list_field ([], []) r of Inl s \<Rightarrow> Inl s | Inr v \<Rightarrow> Inr (fst v)), e', w'))"

definition Env_Snapshot ::
    "'w fixture \<Rightarrow> string \<Rightarrow> string list \<Rightarrow> Env \<Rightarrow> 'w \<Rightarrow> (stopped + SnapshotResponse) \<times> Env \<times> 'w" where
  "Env_Snapshot F pane extraArgs e w =
     (case Env_Run F ([''snapshot'', ''--pane'', pane] @ extraArgs) e w of
        (Inl s, e', w') \<Rightarrow> (Inl s, e', w')
      | (Inr r, e', w') \<Rightarrow>
          (MustJSON set_snapshot_field
             \<lparr>sr_pane_id = [], sr_next = [], sr_scrollback_text = None, sr_text = []\<rparr> r, e', w'))"

definition FirstPane :: "'w fixture \<Rightarrow> Env \<Rightarrow> 'w \<Rightarrow> (stopped + string) \<times> Env \<times> 'w" where
  "FirstPane F e w =
     (case Env_List F e w of
        (Inl s, e', w') \<Rightarrow> (Inl s, e', w')
      | (Inr [], e', w') \<Rightarrow> (Inl NoPanes, e', w')
      | (Inr (p # _), e', w') \<Rightarrow>
          (Inr p, if p \<in> set (he_panes e') then e' else e'\<lparr>he_panes := he_panes e' @ [p]\<rparr>, w'))"

definition NewPane :: "'w fixture \<Rightarrow> Env \<Rightarrow> 'w \<Rightarrow> (stopped + string) \<times> Env \<times> 'w" where
  "NewPane F e w =
     (case Tmux F e [''new-window'', ''-t'', ''t:'', ''-P'', ''-F'', ''#{pane_id}''] w of
        (Inl s, w') \<Rightarrow> (Inl s, e, w')
      | (Inr o', w') \<Rightarrow>
          (let out = TrimSpace o'
           in if \<not> has_prefix out ''%'' then (Inl (NotAPane out), e, w')
              else (Inr out, e\<lparr>he_panes := he_panes e @ [out]\<rparr>, w')))"

definition KillPane :: "'w fixture \<Rightarrow> Env \<Rightarrow> string \<Rightarrow> 'w \<Rightarrow> (stopped + string) \<times> 'w" where
  "KillPane F e pid w = Tmux F e [''kill-pane'', ''-t'', pid] w"

definition Env_PaneOutput :: "'w fixture \<Rightarrow> Env \<Rightarrow> string \<Rightarrow> string \<Rightarrow> 'w \<Rightarrow> (stopped + string) \<times> 'w" where
  "Env_PaneOutput F e pane cmd w = Tmux F e [''send-keys'', ''-t'', pane, cmd, ''Enter''] w"

text \<open>
  The polling loops run until the clock passes their deadline; the fuel is the number of
  polls, \<open>None\<close> that it did not suffice.
\<close>

fun wait_text_loop :: "nat \<Rightarrow> 'w fixture \<Rightarrow> Env \<Rightarrow> string \<Rightarrow> string \<Rightarrow> duration \<Rightarrow> instant \<Rightarrow> 'w \<Rightarrow>
    ((stopped + unit) \<times> 'w) option" where
  "wait_text_loop 0 F e pane sub timeout deadline w = None"
| "wait_text_loop (Suc n) F e pane sub timeout deadline w =
     (if fx_now F w < deadline then
        (case Tmux F e [''capture-pane'', ''-p'', ''-t'', pane] w of
           (Inl s, w') \<Rightarrow> Some (Inl s, w')
         | (Inr out, w') \<Rightarrow>
             if contains out sub then Some (Inr (), w')
             else wait_text_loop n F e pane sub timeout deadline (fx_sleep F (25 * millisecond) w'))
      else Some (Inl (NeverContained pane sub timeout), w))"

definition WaitForText :: "nat \<Rightarrow> 'w fixture \<Rightarrow> Env \<Rightarrow> string \<Rightarrow> string \<Rightarrow> duration \<Rightarrow> 'w \<Rightarrow>
    ((stopped + unit) \<times> 'w) option" where
  "WaitForText n F e pane sub timeout w = wait_text_loop n F e pane sub timeout (fx_now F w + timeout) w"

definition FormatSentinelCmd :: "string \<Rightarrow> string \<Rightarrow> string" where
  "FormatSentinelCmd cmd token =
     cmd @ ''; printf '' @ [CHR 0x27] @ ''__DONE__:'' @ token @ '':%d'' @ [CHR 0x5C, CHR ''n'', CHR 0x27] @ '' $?''"

subsection \<open>Teardown and diagnostics\<close>

definition has_suffix :: "string \<Rightarrow> string \<Rightarrow> bool" where
  "has_suffix s p \<longleftrightarrow> has_prefix (rev s) (rev p)"

text \<open>One entry per daemon socket that accepts a connection; the number is always 0, an unknown pid.\<close>

definition findLeakedDaemons :: "'w fixture \<Rightarrow> Env \<Rightarrow> 'w \<Rightarrow> nat list" where
  "findLeakedDaemons F e w =
     (let sockDir = path_join [he_xdgDir e, ''tpctl'']
      in case fx_dir F sockDir w of
        None \<Rightarrow> []
      | Some names \<Rightarrow>
          map (\<lambda>_. 0) (filter (\<lambda>n. has_suffix n ''.sock'' \<and> fx_dial F (path_join [sockDir, n]) w) names))"

definition truncate_text :: "string \<Rightarrow> nat \<Rightarrow> string" where
  "truncate_text s n =
     (let t = trim_right [newline] s
      in if length t \<le> n then t else take n t @ [CHR 0xE2, CHR 0x80, CHR 0xA6])"

definition indent :: "string \<Rightarrow> string \<Rightarrow> string" where
  "indent s p =
     (if s = [] then p @ ''<empty>'' @ [newline]
      else join_with [newline] (map (\<lambda>l. p @ l) (split_on newline (trim_right [newline] s))) @ [newline])"

text \<open>The four box drawing characters of the banner, and the arrow.\<close>

definition rule :: string where
  "rule = concat (replicate 4 [CHR 0xE2, CHR 0x94, CHR 0x80])"

definition diagnose_invocation :: "(instant \<Rightarrow> string) \<Rightarrow> invocation \<Rightarrow> string" where
  "diagnose_invocation clock i =
     (let out = truncate_text (inv_stdout i) 200; err = truncate_text (inv_stderr i) 200
      in line (''  ['' @ clock (inv_when i) @ ''] tpctl '' @ join_with '' '' (inv_args i) @ '' ''
           @ [CHR 0xE2, CHR 0x86, CHR 0x92] @ '' code='' @ itoa (inv_code i))
         @ (if out \<noteq> [] then line (''    stdout: '' @ out) else [])
         @ (if err \<noteq> [] then line (''    stderr: '' @ err) else []))"

text \<open>The captures run one after the other, in the order of the panes.\<close>

fun diagnose_panes :: "'w fixture \<Rightarrow> Env \<Rightarrow> string list \<Rightarrow> 'w \<Rightarrow> string \<times> 'w" where
  "diagnose_panes F e [] w = ([], w)"
| "diagnose_panes F e (p # ps) w =
     (case fx_tmux F [''-S'', he_tmuxSoc e, ''capture-pane'', ''-p'', ''-t'', p] w of
        ((out, err), w1) \<Rightarrow>
          (let t = (case err of
                      Some m \<Rightarrow> line (''  '' @ p @ '': <unavailable: '' @ m @ ''>'')
                    | None \<Rightarrow> line (''  '' @ p @ '':'') @ indent out ''    '');
               (ts, w2) = diagnose_panes F e ps w1
           in (t @ ts, w2)))"

definition dumpDiagnostics :: "(instant \<Rightarrow> string) \<Rightarrow> 'w fixture \<Rightarrow> Env \<Rightarrow> 'w \<Rightarrow> string \<times> 'w" where
  "dumpDiagnostics clock F e w =
     (let hist = he_history e;
          n = length hist;
          start = (if 6 < n then n - 6 else 0);
          (captures, w') = diagnose_panes F e (he_panes e) w
      in ([newline] @ line (rule @ '' conformance failure-time diagnostics '' @ rule)
          @ (if 0 < n then line (''Last '' @ itoa (int (n - start)) @ '' tpctl invocation(s):'')
               @ concat (map (diagnose_invocation clock) (drop start hist)) else [])
          @ (if he_panes e \<noteq> [] then line ''Pane captures (tmux capture-pane -p):'' @ captures else [])
          @ rule @ '' end diagnostics '' @ rule, w'))"

text \<open>The daemons still alive when the loop of \<open>teardown\<close> ends.\<close>

fun teardown_loop :: "nat \<Rightarrow> 'w fixture \<Rightarrow> Env \<Rightarrow> instant \<Rightarrow> 'w \<Rightarrow> 'w option" where
  "teardown_loop 0 F e deadline w = None"
| "teardown_loop (Suc n) F e deadline w =
     (if fx_now F w < deadline \<and> findLeakedDaemons F e w \<noteq> []
      then teardown_loop n F e deadline (fx_sleep F (100 * millisecond) w)
      else Some w)"

text \<open>
  \<open>teardown\<close>: the diagnostics of a failed test, the end of the tmux server, and the wait
  for the daemon; the result is what is logged.
\<close>

definition teardown_env :: "nat \<Rightarrow> (instant \<Rightarrow> string) \<Rightarrow> 'w fixture \<Rightarrow> bool \<Rightarrow> Env \<Rightarrow> 'w \<Rightarrow> (string list \<times> 'w) option" where
  "teardown_env n clock F failed e w =
     (let (logged, w1) = (if failed then (let (t, w') = dumpDiagnostics clock F e w in ([t], w')) else ([], w));
          w2 = snd (fx_tmux F [''-S'', he_tmuxSoc e, ''kill-server''] w1)
      in map_option (\<lambda>w3.
           (logged @ (if findLeakedDaemons F e w3 \<noteq> []
             then [''conformance: tpctl daemon still bound to '' @ he_xdgDir e @ '' after 3s''] else []), w3))
         (teardown_loop n F e (fx_now F w2 + 3 * second) w2))"

subsection \<open>The history is the last 32 invocations\<close>

lemma history_window:
  assumes "length (he_history e) \<le> 32"
  shows "he_history (fold record_invocation xs e) =
    drop (length (he_history e) + length xs - 32) (he_history e @ xs)"
  using assms
proof (induction xs arbitrary: e)
  case (Cons x xs)
  let ?e = "record_invocation x e"
  have h: "he_history ?e = drop (length (he_history e) + 1 - 32) (he_history e @ [x])"
    by (simp add: record_invocation_def Let_def)
  then have "length (he_history ?e) \<le> 32" by simp
  from Cons.IH [OF this] show ?case
    using Cons.prems unfolding h by (cases "length (he_history e) = 32") auto
qed simp

lemma RunArgs_records:
  "RunArgs F args e w = (r, e', w') \<Longrightarrow>
    e' = e \<or> (\<exists>i. inv_args i = args \<and> e' = record_invocation i e)"
  by (auto simp: RunArgs_def Let_def split: prod.splits run_end.splits)
    (metis invocation.select_convs(2))

subsection \<open>The harness reads what the command line prints\<close>

lemma trim_prefixes_stop:
  "\<forall>p \<in> set ps. p \<noteq> [] \<longrightarrow> \<not> has_prefix s p \<Longrightarrow> trim_prefixes ps s = s"
proof -
  assume "\<forall>p \<in> set ps. p \<noteq> [] \<longrightarrow> \<not> has_prefix s p"
  then have "find (\<lambda>p. p \<noteq> [] \<and> has_prefix s p) ps = None" by (auto simp: find_None_iff)
  then show ?thesis by (subst trim_prefixes.simps) simp
qed

lemma space_no_brace:
  "list_all (\<lambda>p. take 1 p \<noteq> [CHR 0x7B] \<and> take 1 (rev p) \<noteq> [CHR 0x7D]) space_runes"
  by code_simp

lemma has_prefix_take: "has_prefix (c # s) p \<Longrightarrow> p \<noteq> [] \<Longrightarrow> take 1 p = [c]"
  by (cases p) simp_all

lemma trim_brace: "trim_prefixes space_runes (CHR 0x7B # s) = CHR 0x7B # s"
  using space_no_brace by (intro trim_prefixes_stop) (auto dest!: has_prefix_take simp: list_all_iff)

lemma trim_brace_rev:
  "trim_prefixes (map rev space_runes) (CHR 0x7D # s) = CHR 0x7D # s"
  "trim_prefixes (map rev space_runes) (newline # CHR 0x7D # s) = CHR 0x7D # s"
proof -
  show stop: "trim_prefixes (map rev space_runes) (CHR 0x7D # s) = CHR 0x7D # s"
    using space_no_brace by (intro trim_prefixes_stop) (auto dest!: has_prefix_take simp: list_all_iff)
  have "find (\<lambda>p. p \<noteq> [] \<and> has_prefix (newline # CHR 0x7D # s) p) (map rev space_runes) = Some [newline]"
    by (simp add: space_runes_def newline_def)
  then show "trim_prefixes (map rev space_runes) (newline # CHR 0x7D # s) = CHR 0x7D # s"
    by (subst trim_prefixes.simps) (simp add: stop)
qed

lemma TrimSpace_object: "TrimSpace (line (json_print (JObj kvs))) = json_print (JObj kvs)"
  by (simp add: TrimSpace_def line_def trim_brace trim_brace_rev)

text \<open>
  A failure with a command error on standard output, as \<open>emitCmdError\<close> prints it, is one
  \<open>MustError\<close> accepts, with the error the command reported.
\<close>

lemma MustError_accepts:
  assumes "emitCmdError e = Some (out, err, code)"
    and "utf8_sanitize (er_code e) \<noteq> []" and "utf8_sanitize (er_message e) \<noteq> []"
  shows "MustError \<lparr>res_Code = code, res_Stdout = out, res_Stderr = err\<rparr> = Inr (sanitize_error e)"
proof -
  have "json_unmarshal set_error_field zero_error (json_print (error_json e)) = Some (sanitize_error e)"
    using json_parse_leaf(4) [of e] error_reads [of e]
    by (simp add: json_unmarshal_def error_json_def split: prod.splits)
  with assms show ?thesis
    by (auto simp: MustError_def emitCmdError_def error_json_def TrimSpace_object sanitize_error_def
        simp del: json_print.simps utf8_sanitize.simps)
qed

text \<open>A command that succeeds without a payload is muted.\<close>

lemma MustMuted_relay:
  "relay (Some r) = Some (out, err, code) \<Longrightarrow> rs_OK r \<Longrightarrow> rs_Body r = [] \<Longrightarrow>
    MustMuted \<lparr>res_Code = code, res_Stdout = out, res_Stderr = err\<rparr> = Inr ()"
  by (auto simp: relay_def MustMuted_def)

subsection \<open>The polling of a pane ends\<close>

text \<open>
  Sleeping passes at least the time asked for and the clock is monotone: then the number
  of polls is bounded by the timeout.
\<close>

definition clock_ok :: "'w fixture \<Rightarrow> bool" where
  "clock_ok F \<longleftrightarrow> (\<forall>d w. fx_now F w + d \<le> fx_now F (fx_sleep F d w)) \<and>
     (\<forall>args w. fx_now F w \<le> fx_now F (snd (fx_tmux F args w)))"

lemma Tmux_clock: "clock_ok F \<Longrightarrow> Tmux F e args w = (r, w') \<Longrightarrow> fx_now F w \<le> fx_now F w'"
  by (auto simp: Tmux_def clock_ok_def split: prod.splits option.splits) (metis snd_conv)+

lemma wait_text_poll:
  assumes "Tmux F e [''capture-pane'', ''-p'', ''-t'', pane] w = (r, w')"
  shows "wait_text_loop (Suc n) F e pane sub timeout deadline w =
    (if fx_now F w < deadline then
       (case r of Inl s \<Rightarrow> Some (Inl s, w')
        | Inr out \<Rightarrow> if contains out sub then Some (Inr (), w')
            else wait_text_loop n F e pane sub timeout deadline (fx_sleep F (25 * millisecond) w'))
     else Some (Inl (NeverContained pane sub timeout), w))"
  using assms by simp

lemma wait_text_returns:
  assumes "clock_ok F" and "deadline - fx_now F w \<le> int n * (25 * millisecond)"
  shows "wait_text_loop (Suc n) F e pane sub timeout deadline w \<noteq> None"
  using assms(2)
proof (induction n arbitrary: w)
  case (Suc n)
  obtain r w' where poll: "Tmux F e [''capture-pane'', ''-p'', ''-t'', pane] w = (r, w')" by fastforce
  have "fx_now F w' + 25 * millisecond \<le> fx_now F (fx_sleep F (25 * millisecond) w')"
    using assms(1) unfolding clock_ok_def by blast
  with Tmux_clock [OF assms(1) poll] Suc.prems
  have "deadline - fx_now F (fx_sleep F (25 * millisecond) w') \<le> int n * (25 * millisecond)"
    by (simp add: algebra_simps)
  from Suc.IH [OF this] show ?case
    unfolding wait_text_poll [OF poll] by (simp del: wait_text_loop.simps split: sum.split)
qed simp

lemma WaitForText_returns:
  "clock_ok F \<Longrightarrow> timeout \<le> int n * (25 * millisecond) \<Longrightarrow>
    WaitForText (Suc n) F e pane sub timeout w \<noteq> None"
  unfolding WaitForText_def by (rule wait_text_returns) simp_all

lemma WaitForText_found:
  "wait_text_loop n F e pane sub timeout deadline w = Some (Inr (), w') \<Longrightarrow>
    \<exists>v out. fx_now F v < deadline \<and> fst (Tmux F e [''capture-pane'', ''-p'', ''-t'', pane] v) = Inr out \<and> contains out sub"
proof (induction n arbitrary: w)
  case (Suc n)
  obtain r v where poll: "Tmux F e [''capture-pane'', ''-p'', ''-t'', pane] w = (r, v)" by fastforce
  show ?case
  proof (cases "\<exists>out. r = Inr out \<and> contains out sub \<and> fx_now F w < deadline")
    case True
    with poll show ?thesis by (intro exI [of _ w]) auto
  next
    case False
    with Suc.prems have "wait_text_loop n F e pane sub timeout deadline (fx_sleep F (25 * millisecond) v) = Some (Inr (), w')"
      unfolding wait_text_poll [OF poll] by (auto simp del: wait_text_loop.simps split: sum.splits if_splits)
    then show ?thesis by (rule Suc.IH)
  qed
qed simp

subsection \<open>The sentinel command\<close>

text \<open>
  Once a shell has run the command and \<open>printf\<close> has replaced the verb by the exit code, the
  output holds the sentinel \<open>MatchSentinel\<close> looks for, with that code.
\<close>

lemma FormatSentinelCmd_format:
  "FormatSentinelCmd cmd token = cmd @ ''; printf '' @ [CHR 0x27] @ sentinel_prefix token @ ''%d''
     @ [CHR 0x5C, CHR ''n'', CHR 0x27] @ '' $?''"
  by (simp add: FormatSentinelCmd_def sentinel_prefix_def)

lemma printed_sentinel:
  assumes "int code \<le> int64_max"
  shows "map_option sm_ExitCode (MatchSentinel (sentinel_prefix token @ itoa (int code) @ newline # rest) token) =
    Some (int code)"
proof -
  have "in_int64 (int (nat_of_digits (nat_digits code)))"
    using assms by (simp add: in_int64_def int64_min_def)
  from MatchSentinel_run [OF nat_digits_all nat_digits_not_Nil _ this, of "newline # rest" "[]" token]
  show ?thesis by (simp add: itoa_def newline_def is_digit_def byte_in_def no_sentinel_before_def)
qed

end
