(* ===== verification/Payloads.thy ===== *)
theory Payloads
  imports Harness
begin

section \<open>Payloads: what the harness reads of what the handlers answer\<close>

text \<open>
  The daemon encodes the payload types of \<open>internal/domain\<close>, the harness decodes standard
  output into types of its own (\<open>conformance/harness/harness.go\<close>). The locale \<open>payload\<close>
  states what such a pair promises; it is interpreted on the four payloads.
\<close>

subsection \<open>The contract of a payload\<close>

locale payload =
  fixes enc :: "'r \<Rightarrow> json"
    and field :: "'s \<Rightarrow> bytes \<Rightarrow> json \<Rightarrow> 's \<times> bool"
    and zero :: 's
    and view :: "'r \<Rightarrow> 's"
    and fits :: "'r \<Rightarrow> bool"
  assumes enc_obj: "\<exists>kvs. enc r = JObj kvs"
    and enc_wf: "json_ints (enc r) \<and> json_depth (enc r) \<le> 2"
    and field_reads: "fits r \<Longrightarrow> unmarshal_struct field zero (json_norm (enc r)) = Some (view r)"
begin

lemma decoded: "fits r \<Longrightarrow> json_unmarshal field zero (json_print (enc r)) = Some (view r)"
  using enc_wf [of r] field_reads [of r] json_parse_print [of "enc r"]
  by (simp add: json_unmarshal_def max_nesting_def)

text \<open>What \<open>relay\<close> prints of a success is what the harness decodes.\<close>

lemma printed:
  assumes "fits r"
  shows "relay (Some (sanitize_response (ok_response (json_print (enc r))))) = Some (line (json_print (enc r)), [], 0) \<and>
    MustJSON field zero \<lparr>res_Code = 0, res_Stdout = line (json_print (enc r)), res_Stderr = []\<rparr> = Inr (view r)"
proof -
  obtain kvs where o: "enc r = JObj kvs" using enc_obj by blast
  have "TrimSpace (line (json_print (enc r))) = json_print (enc r)"
    unfolding o by (rule TrimSpace_object)
  then show ?thesis
    using decoded [OF assms] o by (simp add: MustJSON_def relay_def sanitize_response_def ok_response_def zero_response_def)
qed

end

subsection \<open>The four payloads\<close>

definition list_view :: "ListResponse \<Rightarrow> string list \<times> string list" where
  "list_view r = (let ps = map utf8_sanitize (lr_panes r) in (ps, ps))"

definition snapshot_view :: "SnapshotResponse \<Rightarrow> SnapshotResponse" where
  "snapshot_view r = \<lparr>sr_pane_id = utf8_sanitize (sr_pane_id r), sr_next = utf8_sanitize (sr_next r),
     sr_scrollback_text = map_option utf8_sanitize (sr_scrollback_text r), sr_text = utf8_sanitize (sr_text r)\<rparr>"

definition read_view :: "ReadResponse \<Rightarrow> ReadResponse" where
  "read_view r = \<lparr>rr_pane_id = utf8_sanitize (rr_pane_id r), rr_next = utf8_sanitize (rr_next r),
     rr_text = utf8_sanitize (rr_text r)\<rparr>"

definition wait_view :: "WaitResponse \<Rightarrow> wait_mirror" where
  "wait_view r = \<lparr>wm_PaneID = utf8_sanitize (wr_pane_id r), wm_Next = utf8_sanitize (wr_next r),
     wm_Result = wait_result_string (wr_result r), wm_Matched = map_option utf8_sanitize (wr_matched r),
     wm_ExitCode = wr_exit_code r\<rparr>"

definition zero_snapshot :: SnapshotResponse where
  "zero_snapshot = \<lparr>sr_pane_id = [], sr_next = [], sr_scrollback_text = None, sr_text = []\<rparr>"

definition zero_read :: ReadResponse where
  "zero_read = \<lparr>rr_pane_id = [], rr_next = [], rr_text = []\<rparr>"

definition zero_wait :: wait_mirror where
  "zero_wait = \<lparr>wm_PaneID = [], wm_Next = [], wm_Result = [], wm_Matched = None, wm_ExitCode = None\<rparr>"

lemma payload_names:
  "fold_name ''panes'' = ''PANES''" "fold_name ''next'' = ''NEXT''" "fold_name ''text'' = ''TEXT''"
  "fold_name ''scrollback_text'' = ''SCROLLBACK_TEXT''" "fold_name ''result'' = ''RESULT''"
  "fold_name ''matched'' = ''MATCHED''" "fold_name ''exit_code'' = ''EXIT_CODE''"
  "utf8_sanitize ''panes'' = ''panes''" "utf8_sanitize ''next'' = ''next''" "utf8_sanitize ''text'' = ''text''"
  "utf8_sanitize ''scrollback_text'' = ''scrollback_text''" "utf8_sanitize ''result'' = ''result''"
  "utf8_sanitize ''matched'' = ''matched''" "utf8_sanitize ''exit_code'' = ''exit_code''"
  "utf8_sanitize ''sentinel'' = ''sentinel''" "utf8_sanitize ''regex'' = ''regex''"
  "utf8_sanitize ''quiescence'' = ''quiescence''"
  by code_simp+

lemma payload_wf:
  "json_ints (list_json lr) \<and> json_depth (list_json lr) \<le> 2"
  "json_ints (snapshot_json sr) \<and> json_depth (snapshot_json sr) \<le> 2"
  "json_ints (read_json rr) \<and> json_depth (read_json rr) \<le> 2"
  "json_ints (wait_json wr) \<and> json_depth (wait_json wr) \<le> 2"
  by (auto simp: list_json_def snapshot_json_def read_json_def wait_json_def depth_strs split: option.split)

lemmas payload_unfold = list_json_def snapshot_json_def read_json_def wait_json_def
  list_view_def snapshot_view_def read_view_def wait_view_def zero_snapshot_def zero_read_def zero_wait_def
  set_list_field_def set_snapshot_field_def set_read_field_def set_wait_field_def
  payload_names error_names

interpretation list_payload: payload list_json set_list_field "([], [])" list_view "\<lambda>_. True"
proof unfold_locales
  fix r :: ListResponse
  show "unmarshal_struct set_list_field ([], []) (json_norm (list_json r)) = Some (list_view r)"
    using store_elems_strs [of "map utf8_sanitize (lr_panes r)"]
    by (cases "lr_panes r") (simp_all add: payload_unfold comp_def Let_def del: fold_name.simps utf8_sanitize.simps(2))
qed (use payload_wf in \<open>auto simp: list_json_def\<close>)

interpretation snapshot_payload: payload snapshot_json set_snapshot_field zero_snapshot snapshot_view "\<lambda>_. True"
proof unfold_locales
  fix r :: SnapshotResponse
  show "unmarshal_struct set_snapshot_field zero_snapshot (json_norm (snapshot_json r)) = Some (snapshot_view r)"
    by (cases "sr_scrollback_text r") (simp_all add: payload_unfold del: fold_name.simps utf8_sanitize.simps(2))
qed (use payload_wf in \<open>auto simp: snapshot_json_def\<close>)

interpretation read_payload: payload read_json set_read_field zero_read read_view "\<lambda>_. True"
proof unfold_locales
  fix r :: ReadResponse
  show "unmarshal_struct set_read_field zero_read (json_norm (read_json r)) = Some (read_view r)"
    by (simp add: payload_unfold del: fold_name.simps utf8_sanitize.simps(2))
qed (use payload_wf in \<open>auto simp: read_json_def\<close>)

interpretation wait_payload: payload wait_json set_wait_field zero_wait wait_view
  "\<lambda>r. \<forall>z. wr_exit_code r = Some z \<longrightarrow> in_int64 z"
proof unfold_locales
  fix r :: WaitResponse
  assume fits: "\<forall>z. wr_exit_code r = Some z \<longrightarrow> in_int64 z"
  have "utf8_sanitize (wait_result_string (wr_result r)) = wait_result_string (wr_result r)"
    by (cases "wr_result r") (simp_all only: wait_result_string.simps payload_names)
  with fits show "unmarshal_struct set_wait_field zero_wait (json_norm (wait_json r)) = Some (wait_view r)"
    by (cases "wr_matched r"; cases "wr_exit_code r")
      (simp_all add: payload_unfold del: fold_name.simps utf8_sanitize.simps(2) wait_result_string.simps)
qed (use payload_wf in \<open>auto simp: wait_json_def\<close>)

end
