(* ===== verification/EndToEnd.thy ===== *)
theory EndToEnd
  imports Payloads
begin

section \<open>EndToEnd: from the command line to tmux and back\<close>

text \<open>
  The components composed: a command line, the wire, \<open>Dispatch\<close>, the controller and the
  adapter, and on the way back the output of the command and what the conformance harness
  decodes of it.
\<close>

subsection \<open>What a command line asks for\<close>

definition commands :: "string set" where
  "commands = {''list'', ''snapshot'', ''read'', ''text'', ''key'', ''wait''}"

definition command_flags :: "string \<Rightarrow> flags" where
  "command_flags cmd =
     (if cmd = ''snapshot'' then snapshot_flags else if cmd = ''read'' then read_flags
      else if cmd = ''text'' then text_flags else if cmd = ''key'' then key_flags
      else if cmd = ''wait'' then wait_flags else global_flags)"

definition command_bools :: "string \<Rightarrow> string list" where
  "command_bools cmd = (if cmd = ''text'' then ''enter'' # boolFlagsCommon else boolFlagsCommon)"

text \<open>The positionals each command takes, and the pane all but \<open>list\<close> need.\<close>

definition args_fit :: "string \<Rightarrow> flags \<Rightarrow> string list \<Rightarrow> bool" where
  "args_fit cmd fs rest \<longleftrightarrow>
     (if cmd = ''text'' then length rest = 1 else if cmd = ''key'' then rest \<noteq> [] else rest = []) \<and>
     (cmd \<noteq> ''list'' \<longrightarrow> has_prefix (string_flag ''pane'' fs) ''%'')"

definition command_request :: "string \<Rightarrow> flags \<Rightarrow> string list \<Rightarrow> Request" where
  "command_request cmd fs rest =
     (let r = (\<lambda>op. zero_request\<lparr>rq_Op := op, rq_Pane := string_flag ''pane'' fs\<rparr>); n = int_flag ''history-lines'' fs in
      if cmd = ''snapshot'' then
        (if 0 \<le> n then (r OpSnapshot)\<lparr>rq_HasHistory := True, rq_HistoryLines := n\<rparr> else r OpSnapshot)
      else if cmd = ''read'' then (r OpRead)\<lparr>rq_After := string_flag ''after'' fs\<rparr>
      else if cmd = ''text'' then (r OpText)\<lparr>rq_Text := hd rest, rq_Enter := bool_flag ''enter'' fs\<rparr>
      else if cmd = ''key'' then (r OpKey)\<lparr>rq_Keys := rest\<rparr>
      else if cmd = ''wait'' then (r OpWait)\<lparr>rq_After := string_flag ''after'' fs,
        rq_Mode := string_flag ''for'' fs, rq_SentinelToken := string_flag ''token'' fs,
        rq_Pattern := string_flag ''pattern'' fs, rq_QuietMs := int_flag ''ms'' fs,
        rq_TimeoutMs := int_flag ''timeout-ms'' fs\<rparr>
      else zero_request\<lparr>rq_Op := OpList\<rparr>)"

definition command_overall :: "string \<Rightarrow> flags \<Rightarrow> duration" where
  "command_overall cmd fs =
     (if cmd = ''snapshot'' then 15 * second
      else if cmd = ''wait'' then wait_total (int_flag ''timeout-ms'' fs)
      else 10 * second)"

lemma command_flags_fit: "ints_fit (command_flags cmd)"
  by (auto simp: ints_fit_def command_flags_def snapshot_flags_def read_flags_def text_flags_def key_flags_def
      wait_flags_def global_flags_def pane_flag_def in_int64_def int64_min_def int64_max_def split: if_splits)

lemma command_request_ints: "ints_fit fs \<Longrightarrow> request_ints (command_request cmd fs rest)"
proof -
  assume "ints_fit fs"
  note fits = int_flag_fits [OF this]
  have "in_int64 0" by (simp add: in_int64_def int64_min_def int64_max_def)
  then show ?thesis
    using fits by (simp add: command_request_def request_ints_def zero_request_def Let_def)
qed

lemma command_request_op:
  "rq_Op (command_request cmd fs rest) \<in> {OpList, OpSnapshot, OpRead, OpText, OpKey, OpWait}"
  by (simp add: command_request_def Let_def)

lemma ops_valid:
  "op \<in> {OpList, OpSnapshot, OpRead, OpText, OpKey, OpWait} \<Longrightarrow> utf8_valid op \<and> op \<noteq> OpShutdown"
proof -
  have "list_all (\<lambda>op. utf8_valid op \<and> op \<noteq> OpShutdown) [OpList, OpSnapshot, OpRead, OpText, OpKey, OpWait]"
    by code_simp
  then show "op \<in> {OpList, OpSnapshot, OpRead, OpText, OpKey, OpWait} \<Longrightarrow> utf8_valid op \<and> op \<noteq> OpShutdown"
    by (auto simp: list_all_iff)
qed

text \<open>A command whose arguments fit is one call with its request.\<close>

lemma run_calls:
  assumes "cmd \<in> commands" and "items_ok (command_flags cmd) (command_bools cmd) xs"
    and "fs = fold apply_item xs (command_flags cmd)" and "rest = positionals xs @ rest_positionals tail"
    and "args_fit cmd fs rest"
  shows "Run E D (cmd # render_all xs @ rest_args tail) =
    call_and_relay E cmd fs (command_request cmd fs rest) (command_overall cmd fs)"
proof -
  have "command_word cmd" using assms(1) by (auto simp: commands_def command_word_def has_prefix_def)
  from extract_command [OF this] have run: "Run E D (cmd # args) = run_command E D cmd args" for args
    using assms(1) by (auto simp: commands_def Run_def extractGlobals_def simp del: extract_loop.simps)
  note parse = parse_interleaved [OF assms(2), of tail, folded assms(3,4)]
  have pane: "cmd \<noteq> ''list'' \<Longrightarrow> validatePaneID (string_flag ''pane'' fs) = None"
    using assms(5) by (auto simp: args_fit_def validatePaneID_def)
  consider "cmd = ''list''" | "cmd = ''snapshot''" | "cmd = ''read''" | "cmd = ''text''" | "cmd = ''key''" | "cmd = ''wait''"
    using assms(1) by (auto simp: commands_def)
  then show ?thesis
  proof cases
    case 1
    have e: "rest = []" using assms(5) 1 by (simp add: args_fit_def)
    then have "positionals xs = []" "rest_positionals tail = []" using assms(4) by simp_all
    moreover have "\<forall>x \<in> set ys. \<not> is_pos x" if "positionals ys = []" for ys
      using that by (induction ys rule: positionals.induct) auto
    ultimately have "flag_parse (command_flags cmd) (render_all xs @ rest_args tail) = Inr (fs, rest)"
      using parse_items [OF assms(2), of tail] assms(3) e by simp
    with 1 e show ?thesis
      by (simp add: run [unfolded 1] run_command_def runList_def command_flags_def command_request_def command_overall_def)
  next
    case 2
    then have "rest = []" using assms(5) by (simp add: args_fit_def)
    with 2 parse pane show ?thesis
      by (simp add: run [unfolded 2] run_command_def runSnapshot_def command_flags_def command_bools_def command_request_def
          command_overall_def Let_def)
  next
    case 3
    then have "rest = []" using assms(5) by (simp add: args_fit_def)
    with 3 parse pane show ?thesis
      by (simp add: run [unfolded 3] run_command_def runRead_def command_flags_def command_bools_def command_request_def command_overall_def)
  next
    case 4
    then obtain payload where "rest = [payload]" using assms(5) by (cases rest) (auto simp: args_fit_def)
    with 4 parse pane show ?thesis
      by (simp add: run [unfolded 4] run_command_def runText_def command_flags_def command_bools_def command_request_def command_overall_def)
  next
    case 5
    then have "rest \<noteq> []" using assms(5) by (simp add: args_fit_def)
    with 5 parse pane show ?thesis
      by (simp add: run [unfolded 5] run_command_def runKey_def command_flags_def command_bools_def command_request_def command_overall_def)
  next
    case 6
    then have "rest = []" using assms(5) by (simp add: args_fit_def)
    with 6 parse pane show ?thesis
      by (simp add: run [unfolded 6] run_command_def runWait_def command_flags_def command_bools_def command_request_def command_overall_def)
  qed
qed

subsection \<open>Verdicts\<close>

text \<open>
  What became of a command line, without a look at what it prints: it was served (help, the
  version, or a response that is OK), it failed (arguments that do not fit, no daemon, no
  response, or a response that is not OK), or it was misused (flags that do not parse, no
  command, or an unknown one).
\<close>

datatype verdict = Served | Failure | Misuse

definition command_verdict :: "cli_env \<Rightarrow> string \<Rightarrow> string list \<Rightarrow> verdict" where
  "command_verdict E cmd args =
     (case flag_parse (command_flags cmd) (if cmd = ''list'' then args else reorderArgs args (command_bools cmd)) of
        Inl err \<Rightarrow> if err = ErrHelp then Served else Misuse
      | Inr (fs, rest) \<Rightarrow>
          if \<not> args_fit cmd fs rest then Failure
          else case dial E fs of
            Dialed conn \<Rightarrow>
              (case Client_Call (ce_unmarshal_error E) (ce_now E) conn (command_request cmd fs rest) (command_overall cmd fs) of
                 Some (Inr resp) \<Rightarrow> if rs_OK resp then Served else Failure
               | _ \<Rightarrow> Failure)
          | _ \<Rightarrow> Failure)"

definition verdict :: "cli_env \<Rightarrow> string list \<Rightarrow> verdict" where
  "verdict E args =
     (let g = extractGlobals args in
      if gr_version g \<or> gr_help g then Served
      else case gr_remaining g of
        [] \<Rightarrow> Misuse
      | cmd # rest \<Rightarrow>
          if cmd \<in> {''-h'', ''help'', ''version''} then Served
          else if cmd \<in> commands then command_verdict E cmd (gr_globals g @ rest) else Misuse)"

fun verdict_code :: "verdict \<Rightarrow> int" where
  "verdict_code Served = 0"
| "verdict_code Failure = 1"
| "verdict_code Misuse = 2"

definition exits_with :: "verdict \<Rightarrow> outcome \<Rightarrow> bool" where
  "exits_with v res \<longleftrightarrow> (\<forall>out err code. res = Some (out, err, code) \<longrightarrow> code = verdict_code v)"

lemma exits_simps [simp]:
  "exits_with v (Some (out, err, code)) \<longleftrightarrow> code = verdict_code v"
  "exits_with Failure (emitCmdError e)"
  "exits_with (if e' = ErrHelp then Served else Misuse) (parse_failed E banner e')"
  by (auto simp: exits_with_def emitCmdError_def parse_failed_def)

lemma relay_exits: "exits_with (if rs_OK r then Served else Failure) (relay (Some r))"
  by (auto simp: relay_def split: option.split)

lemma call_exits:
  "exits_with (case dial E fs of
      Dialed conn \<Rightarrow>
        (case Client_Call (ce_unmarshal_error E) (ce_now E) conn req overall of
           Some (Inr resp) \<Rightarrow> if rs_OK resp then Served else Failure
         | _ \<Rightarrow> Failure)
    | _ \<Rightarrow> Failure) (call_and_relay E cmd fs req overall)"
proof (cases "dial E fs")
  case (Dialed conn)
  then show ?thesis
    using relay_exits by (simp add: call_and_relay_def exits_with_def [of _ None] split: option.split sum.split)
qed (simp_all add: call_and_relay_def)

text \<open>One shape for all commands: parse, check the arguments, call.\<close>

lemma command_shape:
  assumes "cmd \<in> commands"
  shows "\<exists>banner refusal. run_command E D cmd args =
    (case flag_parse (command_flags cmd) (if cmd = ''list'' then args else reorderArgs args (command_bools cmd)) of
       Inl err \<Rightarrow> parse_failed E banner err
     | Inr (fs, rest) \<Rightarrow>
         if \<not> args_fit cmd fs rest then emitCmdError (refusal fs rest)
         else call_and_relay E cmd fs (command_request cmd fs rest) (command_overall cmd fs))"
proof -
  have pane: "(case validatePaneID p of Some e \<Rightarrow> emitCmdError e | None \<Rightarrow> x) =
      (if has_prefix p ''%'' then x else emitCmdError (the (validatePaneID p)))" for p x
    by (simp add: validatePaneID_def)
  note shape = command_flags_def command_bools_def command_request_def command_overall_def args_fit_def pane run_command_def Let_def
  from assms consider "cmd = ''list''" | "cmd = ''snapshot''" | "cmd = ''read''" | "cmd = ''text''" | "cmd = ''key''" | "cmd = ''wait''"
    by (auto simp: commands_def)
  then show ?thesis
  proof cases
    case 1
    then show ?thesis
      by (intro exI [of _ "list_help E"] exI [of _ "\<lambda>fs rest. error_response [] ErrInvalidArgs ''list takes no positional arguments''"])
        (simp add: shape runList_def split: sum.split)
  next
    case 2
    then show ?thesis
      by (intro exI [of _ "snapshot_help E"] exI [of _ "\<lambda>fs rest. if rest \<noteq> []
          then error_response [] ErrInvalidArgs ''snapshot takes no positional arguments'' else the (validatePaneID (string_flag ''pane'' fs))"])
        (auto simp: shape runSnapshot_def split: sum.split)
  next
    case 3
    then show ?thesis
      by (intro exI [of _ "read_help E"] exI [of _ "\<lambda>fs rest. if rest \<noteq> []
          then error_response [] ErrInvalidArgs ''read takes no positional arguments'' else the (validatePaneID (string_flag ''pane'' fs))"])
        (auto simp: shape runRead_def split: sum.split)
  next
    case 4
    then show ?thesis
      by (intro exI [of _ "text_help E"] exI [of _ "\<lambda>fs rest. if length rest \<noteq> 1
          then error_response [] ErrInvalidArgs (explainTextPositionalMismatch (ce_printable E) rest)
          else the (validatePaneID (string_flag ''pane'' fs))"])
        (auto simp: shape runText_def split: sum.split list.split)
  next
    case 5
    then show ?thesis
      by (intro exI [of _ "key_help E"] exI [of _ "\<lambda>fs rest. if rest = []
          then error_response [] ErrInvalidArgs ''key requires at least one key token'' else the (validatePaneID (string_flag ''pane'' fs))"])
        (auto simp: shape runKey_def split: sum.split)
  next
    case 6
    then show ?thesis
      by (intro exI [of _ "wait_help E"] exI [of _ "\<lambda>fs rest. if rest \<noteq> []
          then error_response [] ErrInvalidArgs ''wait takes no positional arguments'' else the (validatePaneID (string_flag ''pane'' fs))"])
        (auto simp: shape runWait_def split: sum.split)
  qed
qed

lemma command_exits: "cmd \<in> commands \<Longrightarrow> exits_with (command_verdict E cmd args) (run_command E D cmd args)"
proof -
  assume "cmd \<in> commands"
  from command_shape [OF this, of E D args] obtain banner refusal where run: "run_command E D cmd args =
    (case flag_parse (command_flags cmd) (if cmd = ''list'' then args else reorderArgs args (command_bools cmd)) of
       Inl err \<Rightarrow> parse_failed E banner err
     | Inr (fs, rest) \<Rightarrow>
         if \<not> args_fit cmd fs rest then emitCmdError (refusal fs rest)
         else call_and_relay E cmd fs (command_request cmd fs rest) (command_overall cmd fs))" by blast
  show ?thesis
  proof (cases "flag_parse (command_flags cmd) (if cmd = ''list'' then args else reorderArgs args (command_bools cmd))")
    case (Inl err)
    show ?thesis unfolding run command_verdict_def Inl sum.case by (rule exits_simps(3))
  next
    case (Inr x)
    obtain fs rest where x: "x = (fs, rest)" by (cases x)
    show ?thesis
      unfolding run command_verdict_def Inr x sum.case prod.case using call_exits by simp
  qed
qed

lemma run_exits:
  assumes "\<forall>rest. gr_remaining (extractGlobals args) \<noteq> ''daemon'' # rest"
  shows "exits_with (verdict E args) (Run E D args)"
proof (cases "gr_remaining (extractGlobals args)")
  case Nil
  then show ?thesis by (simp add: Run_def verdict_def Let_def)
next
  case (Cons cmd rest)
  show ?thesis
  proof (cases "cmd \<in> commands")
    case True
    then have "cmd \<notin> {''-h'', ''help'', ''version''}" by (auto simp: commands_def)
    with Cons True command_exits show ?thesis by (simp add: Run_def verdict_def Let_def)
  next
    case False
    moreover have "cmd \<noteq> ''daemon''" using assms Cons by auto
    ultimately have "run_command E D cmd args' =
        Some ([], line (''tpctl: unknown command '' @ go_quote (ce_printable E) cmd) @ [newline] @ Usage, 2)" for args'
      by (simp add: run_command_def commands_def)
    with Cons False show ?thesis by (simp add: Run_def verdict_def Let_def)
  qed
qed

text \<open>A call of a daemon over the tmux adapter is answered with the response of \<open>Dispatch\<close>.\<close>

lemma call_relays:
  assumes "adapter_backend tmux opts b" and "store_ok inst st"
    and "request_ints req" and "rq_Op req \<in> {OpList, OpSnapshot, OpRead, OpText, OpKey, OpWait}"
    and "reaches E fs (daemon_peer b ue me pid (w, st) at eof late)" and "overall \<le> 0 \<or> at < ce_now E + overall"
  shows "\<exists>resp w' st'. Dispatch b (sanitize_request req) (w, st) = Some (resp, w', st') \<and>
    well_typed (sanitize_request req) resp \<and>
    call_and_relay E cmd fs req overall = relay (Some (sanitize_response resp))"
proof -
  from assms(1) have b: "uses_port (Adapter_ListPanes tmux opts) (Adapter_CapturePane tmux opts)
      (Adapter_CaptureScrollback tmux opts) (Adapter_SendText tmux opts) (Adapter_SendKeys tmux opts) b" "honest b"
    by (simp_all add: adapter_backend_def)
  from adapter.dispatch_typed [OF b assms(2) TrueI, of "sanitize_request req" w] obtain resp w' st' where
    d: "Dispatch b (sanitize_request req) (w, st) = Some (resp, w', st')" "well_typed (sanitize_request req) resp" by blast
  have "rq_Op (sanitize_request req) \<noteq> OpShutdown"
    using ops_valid [OF assms(4)] by (simp add: sanitize_request_def utf8_sanitize_valid)
  from call_answered [OF assms(3) this d(1) typed_response_ok [OF d(2)] assms(6)] assms(5)
  have "call_and_relay E cmd fs req overall = relay (Some (sanitize_response resp))"
    by (simp add: call_and_relay_def reaches_def)
  with d show ?thesis by blast
qed

text \<open>What a command prints of an answer.\<close>

fun answer_outcome :: "answer \<Rightarrow> outcome" where
  "answer_outcome (Success body) = Some (if body = [] then [] else line body, [], 0)"
| "answer_outcome (CommandError e) = Some (line (json_print (error_json (sanitize_error e))), [], 1)"
| "answer_outcome (RuntimeError msg) =
     Some ([], if utf8_sanitize msg = [] then [] else line (''tpctl: '' @ utf8_sanitize msg), 1)"

lemma relay_answer: "relay (Some (sanitize_response (answer_response a))) = answer_outcome a"
  by (cases a) (simp_all add: relay_def sanitize_response_def ok_response_def cmd_err_def runtime_err_def
      zero_response_def emitCmdError_def)

text \<open>Over any port a snapshot fails with the pane's absence or at run time.\<close>

context port
begin

lemma snapshot_fails:
  assumes u: "usable w" and "Snapshot capture scroll now pid hist w st = Some (Inl e, w', st')"
  shows "e = Command (pane_not_found pid) \<or> (\<exists>m. e = Runtime m)"
proof -
  have "usable (snd (capture pid w))" using usable_ops [OF u] by blast
  moreover have "port_failure x \<Longrightarrow> snapshot_error pid x = Command (pane_not_found pid) \<or> (\<exists>m. snapshot_error pid x = Runtime m)" for x
    by (auto simp: port_failure_def snapshot_error_def)
  ultimately show ?thesis
    using assms(2) capture_fails [OF u] scroll_fails
    unfolding Snapshot_def
    by (auto simp: Let_def split: prod.splits sum.splits option.splits) (metis fst_conv snd_conv)+
qed

end

lemma pane_not_found_read:
  assumes "utf8_valid pid"
  shows "sanitize_error (pane_not_found pid) = pane_not_found pid"
    and "MustError \<lparr>res_Code = 1, res_Stdout = line (json_print (error_json (pane_not_found pid))), res_Stderr = []\<rparr> =
      Inr (pane_not_found pid)"
proof -
  have v: "utf8_sanitize ErrPaneNotFound = ErrPaneNotFound" "utf8_sanitize ''pane not found'' = ''pane not found''"
    "ErrPaneNotFound \<noteq> []" by code_simp+
  with assms show s: "sanitize_error (pane_not_found pid) = pane_not_found pid"
    by (simp add: sanitize_error_def pane_not_found_def error_response_def utf8_sanitize_valid del: utf8_sanitize.simps)
  from v show "MustError \<lparr>res_Code = 1, res_Stdout = line (json_print (error_json (pane_not_found pid))), res_Stderr = []\<rparr> =
      Inr (pane_not_found pid)"
    using MustError_accepts [of "pane_not_found pid", unfolded s]
    by (simp add: emitCmdError_def pane_not_found_def error_response_def del: utf8_sanitize.simps)
qed

lemma relay_returns: "\<exists>x. relay resp = Some x"
  by (auto simp: relay_def emitCmdError_def split: option.split)

text \<open>The snapshot command the harness issues, up to what it prints.\<close>

lemma snapshot_run:
  fixes soc pane defines "args \<equiv> [''snapshot'', ''--tmux-socket'', soc, ''--pane'', pane]"
  defines "fs \<equiv> fold apply_item [Val ''tmux-socket'' soc, Val ''pane'' pane] snapshot_flags"
  assumes "has_prefix pane ''%''" and "utf8_valid pane"
    and "adapter_backend tmux opts b" and "store_ok inst st"
    and "reaches E fs (daemon_peer b ue me pid (w, st) at eof late)" and "at < ce_now E + 15 * second"
  shows "\<exists>res w' st'. Snapshot (Adapter_CapturePane tmux opts) (Adapter_CaptureScrollback tmux opts) (bk_now b) pane None w st
      = Some (res, w', st') \<and> Run E D args = relay (Some (sanitize_response (marshal_body snapshot_json res)))"
proof -
  let ?xs = "[Val ''tmux-socket'' (soc), Val ''pane'' pane]"
  let ?req = "zero_request\<lparr>rq_Op := OpSnapshot, rq_Pane := pane\<rparr>"
  have fs: "fs = [(''tmux-socket'', FString (soc)), (''tmux-socket-name'', FString []), (''pane'', FString pane),
      (''history-lines'', FInt (- 1))]"
    by (simp add: fs_def snapshot_flags_def global_flags_def pane_flag_def flag_set_def)
  have "utf8_valid OpSnapshot" unfolding op_defs by code_simp
  then have req: "sanitize_request (command_request ''snapshot'' fs []) = ?req"
    using assms(4) by (subst sanitize_request_utf8)
      (simp_all add: command_request_def Let_def fs string_flag_def int_flag_def request_utf8_def zero_request_def)
  have ok: "items_ok (command_flags ''snapshot'') (command_bools ''snapshot'') ?xs"
    by (auto simp: items_ok_def command_flags_def command_bools_def snapshot_flags_def global_flags_def pane_flag_def
        boolFlagsCommon_def flag_name_def)
  have fs': "fold apply_item ?xs (command_flags ''snapshot'') = fs" by (simp add: command_flags_def fs_def)
  let ?c = "command_request ''snapshot'' fs []"
  have o: "command_overall ''snapshot'' x = 15 * second" for x by (simp add: command_overall_def)
  have "request_ints ?c" unfolding fs_def
    by (rule command_request_ints [OF fold_fits], rule command_flags_fit [of "''snapshot''", unfolded command_flags_def, simplified])
  then obtain resp w' st' where r: "Dispatch b ?req (w, st) = Some (resp, w', st')"
    "call_and_relay E ''snapshot'' fs ?c (15 * second) = relay (Some (sanitize_response resp))"
    using call_relays [where cmd = "''snapshot''" and overall = "15 * second", OF assms(5,6) _ command_request_op assms(7)] assms(8)
    unfolding req [symmetric] by blast
  have ports: "bk_capture b = Adapter_CapturePane tmux opts" "bk_scroll b = Adapter_CaptureScrollback tmux opts"
    using assms(5) by (simp_all add: adapter_backend_def uses_port_def)
  from r(1) obtain res where "Snapshot (Adapter_CapturePane tmux opts) (Adapter_CaptureScrollback tmux opts)
    (bk_now b) pane None w st = Some (res, w', st')" "resp = marshal_body snapshot_json res"
    by (auto simp: Dispatch_def op_defs zero_request_def ports)
  moreover have "Run E D args = call_and_relay E ''snapshot'' fs ?c (15 * second)"
    using run_calls [OF _ ok fs' [symmetric], of "[]" None E D] assms(3)
    by (simp add: commands_def args_def render_all_def rest_args_def rest_positionals_def o args_fit_def fs string_flag_def)
  ultimately show ?thesis using r(2) by auto
qed

subsection \<open>Properties\<close>

text \<open>C3: every command does what its words say, end to end. Whatever the order of its flags
  and positionals, a command whose arguments fit is answered by the daemon's \<open>Dispatch\<close> of
  exactly the request the words spell, over the tmux adapter: a success prints the payload of
  that operation for that pane, if it has one, as one line and exits 0; a command error about
  that pane with a code of that operation is one line of JSON on standard output and 1; and
  a runtime failure is a diagnostic on standard error and 1.\<close>

theorem commands_end_to_end:
  fixes xs cmd defines "fs \<equiv> fold apply_item xs (command_flags cmd)"
  fixes tail defines "req \<equiv> sanitize_request (command_request cmd fs (positionals xs @ rest_positionals tail))"
  assumes "cmd \<in> commands" and "items_ok (command_flags cmd) (command_bools cmd) xs"
    and "args_fit cmd fs (positionals xs @ rest_positionals tail)"
    and "adapter_backend tmux opts b" and "store_ok inst st"
    and "reaches E fs (daemon_peer b ue me pid (w, st) at eof late)"
    and "command_overall cmd fs \<le> 0 \<or> at < ce_now E + command_overall cmd fs"
  shows "\<exists>a w' st'. Dispatch b req (w, st) = Some (answer_response a, w', st') \<and> answer_typed req a \<and>
    Run E D (cmd # render_all xs @ rest_args tail) = answer_outcome a"
proof -
  let ?r = "command_request cmd fs (positionals xs @ rest_positionals tail)"
  have "request_ints ?r"
    unfolding fs_def by (rule command_request_ints [OF fold_fits [OF command_flags_fit]])
  from call_relays [where cmd = cmd, OF assms(6,7) this command_request_op assms(8,9)]
  obtain resp w' st' where r: "Dispatch b req (w, st) = Some (resp, w', st')" "well_typed req resp"
    "call_and_relay E cmd fs ?r (command_overall cmd fs) = relay (Some (sanitize_response resp))"
    unfolding req_def by blast
  from r(2) obtain a where a: "resp = answer_response a" "answer_typed req a" by (auto simp: well_typed_def)
  have "Run E D (cmd # render_all xs @ rest_args tail) = call_and_relay E cmd fs ?r (command_overall cmd fs)"
    using run_calls [OF assms(3,4) _ _ assms(5)] by (simp add: fs_def)
  with r(1,3) a relay_answer [of a] show ?thesis by auto
qed

theorem commands_end_to_end_witness:
  "\<exists>E. \<forall>D. Run E D [''list''] = Some (line (json_print (list_json \<lparr>lr_panes = [''%1'']\<rparr>)), [], 0)"
proof -
  let ?tmux = "\<lambda>argv (n :: nat). (\<lparr>tr_err = None, tr_stdout = ''%1'' @ [ch_nl], tr_stderr = []\<rparr>, n)"
  let ?opts = "\<lparr>op_SocketPath = [], op_SocketName = []\<rparr>"
  let ?env = "\<lparr>env_TMUX = ''/t,1,0'', env_XDG = [], env_uid = 7, env_tmpdir = ''/tmp'', env_cwd = Inr ''/''\<rparr>"
  obtain b :: "nat backend" where b: "adapter_backend ?tmux ?opts b" using adapter_backend_exists by blast
  let ?st = "Store_New ''AB'' 8"
  let ?peer = "daemon_peer b (\<lambda>_. []) (\<lambda>_. []) 7 (0, ?st) 5 [] []"
  let ?E = "\<lparr>ce_environ = ?env, ce_ensure = \<lambda>_. Inr ?peer, ce_now = 0, ce_defaults = \<lambda>_. [], ce_flag_text = \<lambda>_. [],
      ce_unmarshal_error = \<lambda>_. [], ce_printable = \<lambda>_. True, ce_build = None\<rparr>"
  let ?body = "json_print (list_json \<lparr>lr_panes = [''%1'']\<rparr>)"
  have st: "store_ok (st_instance ?st) ?st"
    using store_rep_new [of 8 "''AB''"] by (auto simp: store_ok_def)
  have r: "reaches ?E (fold apply_item [] (command_flags ''list'')) ?peer"
    by (simp add: reaches_def dial_def string_flag_def ResolveTmuxSocket_def command_flags_def global_flags_def)
  have "utf8_sanitize OpList = OpList" unfolding op_defs by code_simp
  moreover have "bk_list b = Adapter_ListPanes ?tmux ?opts" using b by (simp add: adapter_backend_def uses_port_def)
  ultimately have d: "Dispatch b (sanitize_request (command_request ''list'' fs rest)) (0, ?st) = Some (ok_response ?body, 0, ?st)"
    for fs rest
    by (simp add: Dispatch_def sanitize_request_def command_request_def zero_request_def Let_def List_panes_def
        marshal_body_def Adapter_ListPanes_def trim_right_def)
  have body: "?body \<noteq> []" by (simp add: list_json_def)
  show ?thesis
  proof (intro exI [of _ ?E] allI)
    fix D
    obtain a w' st' where a: "Some (ok_response ?body, 0, ?st) = Some (answer_response a, w', st')"
      "Run ?E D (''list'' # render_all [] @ rest_args None) = answer_outcome a"
      using commands_end_to_end [OF _ _ _ b st r, of None D, unfolded d]
      by (auto simp: commands_def items_ok_def args_fit_def rest_positionals_def command_overall_def second_def
          millisecond_def)
    from a(1) have "a = Success ?body"
      by (cases a) (simp_all add: ok_response_def cmd_err_def runtime_err_def zero_response_def)
    with a(2) body show "Run ?E D [''list''] = Some (line ?body, [], 0)"
      by (simp add: render_all_def rest_args_def)
  qed
qed

text \<open>C25: exit codes say what became of the command, and the streams agree with them. For
  every subcommand but \<open>daemon\<close>, whatever the arguments and whatever the daemon answers, a
  command that returns exits with 0 exactly when it was served, with 1 exactly when it
  failed and with 2 exactly when it was misused. With 0 standard error is empty; with 1
  either standard output is empty or it is one line of JSON, a command error, and standard
  error is empty; with 2 standard error is not empty.\<close>

theorem exit_contract:
  assumes "Run E D args = Some (out, err, code)" and "\<forall>rest. gr_remaining (extractGlobals args) \<noteq> ''daemon'' # rest"
  shows "code = verdict_code (verdict E args) \<and> (code = 0 \<longrightarrow> err = []) \<and> (code = 2 \<longrightarrow> err \<noteq> []) \<and>
    (code = 1 \<longrightarrow> out = [] \<or> err = [] \<and> (\<exists>e. out = line (json_print (error_json e))))"
proof -
  have "contract (Run E D args)"
    using contract_command assms(2) contract_simps
    by (auto simp: Run_def Let_def Usage_def text_lines_def line_def split: list.split)
  moreover have "exits_with (verdict E args) (Run E D args)"
    by (rule run_exits [OF assms(2)])
  ultimately show ?thesis using assms(1) by (auto simp: contract_def)
qed

theorem exit_contract_witness:
  "\<forall>E D. Run E D [''list'', ''extra''] = Some (line (json_print (error_json
      (error_response [] ErrInvalidArgs ''list takes no positional arguments''))), [], 1) \<and>
     1 = verdict_code (verdict E [''list'', ''extra''])"
proof (intro allI)
  fix E D
  have r: "Run E D [''list'', ''extra''] = Some (line (json_print (error_json
      (error_response [] ErrInvalidArgs ''list takes no positional arguments''))), [], 1)"
    by (simp add: Run_def extractGlobals_def has_prefix_def run_command_def runList_def flag_token_def emitCmdError_def)
  with exit_contract [OF r] show "Run E D [''list'', ''extra''] = Some (line (json_print (error_json
      (error_response [] ErrInvalidArgs ''list takes no positional arguments''))), [], 1) \<and>
     1 = verdict_code (verdict E [''list'', ''extra''])"
    by (simp add: extractGlobals_def has_prefix_def)
qed

text \<open>C20: the harness reads what the daemon wrote. For each of the four payloads, the success of
  the operation is printed as one line of JSON with exit code 0, and \<open>MustJSON\<close> decodes that
  result, into the type the harness keeps of its own, to the fields of the payload with
  their texts as valid UTF-8; for a wait as long as the exit code is an int.\<close>

theorem payload_roundtrip:
  assumes "\<forall>z. wr_exit_code wait = Some z \<longrightarrow> in_int64 z"
  shows "(let out = line (json_print (list_json list)) in
      relay (Some (sanitize_response (marshal_body list_json (Inr list)))) = Some (out, [], 0) \<and>
      MustJSON set_list_field ([], []) \<lparr>res_Code = 0, res_Stdout = out, res_Stderr = []\<rparr> = Inr (list_view list)) \<and>
    (let out = line (json_print (snapshot_json snapshot)) in
      relay (Some (sanitize_response (marshal_body snapshot_json (Inr snapshot)))) = Some (out, [], 0) \<and>
      MustJSON set_snapshot_field zero_snapshot \<lparr>res_Code = 0, res_Stdout = out, res_Stderr = []\<rparr> = Inr (snapshot_view snapshot)) \<and>
    (let out = line (json_print (read_json read)) in
      relay (Some (sanitize_response (marshal_body read_json (Inr read)))) = Some (out, [], 0) \<and>
      MustJSON set_read_field zero_read \<lparr>res_Code = 0, res_Stdout = out, res_Stderr = []\<rparr> = Inr (read_view read)) \<and>
    (let out = line (json_print (wait_json wait)) in
      relay (Some (sanitize_response (marshal_body wait_json (Inr wait)))) = Some (out, [], 0) \<and>
      MustJSON set_wait_field zero_wait \<lparr>res_Code = 0, res_Stdout = out, res_Stderr = []\<rparr> = Inr (wait_view wait))"
  unfolding Let_def marshal_body_def sum.case
  using list_payload.printed [of list] snapshot_payload.printed [of snapshot] read_payload.printed [of read]
    wait_payload.printed [of wait] assms by blast

theorem payload_roundtrip_witness:
  "MustJSON set_wait_field zero_wait \<lparr>res_Code = 0,
      res_Stdout = line (json_print (wait_json \<lparr>wr_pane_id = ''%1'', wr_next = ''t'', wr_result = WaitSentinel,
        wr_matched = Some ''x'', wr_exit_code = Some 3\<rparr>)), res_Stderr = []\<rparr>
    = Inr \<lparr>wm_PaneID = ''%1'', wm_Next = ''t'', wm_Result = ''sentinel'', wm_Matched = Some ''x'', wm_ExitCode = Some 3\<rparr>"
proof -
  let ?r = "\<lparr>wr_pane_id = ''%1'', wr_next = ''t'', wr_result = WaitSentinel, wr_matched = Some ''x'', wr_exit_code = Some 3\<rparr>"
  have "wait_view ?r = \<lparr>wm_PaneID = ''%1'', wm_Next = ''t'', wm_Result = ''sentinel'', wm_Matched = Some ''x'', wm_ExitCode = Some 3\<rparr>"
    by code_simp
  with payload_roundtrip [of ?r] show ?thesis
    by (simp add: Let_def in_int64_def int64_min_def int64_max_def)
qed

text \<open>C19: a scenario's snapshot is the daemon's. When the binary the harness starts runs the
  commands of this development and its tmux socket leads to a daemon over the adapter, then
  \<open>Env.Snapshot\<close> returns the snapshot the controller took of that pane, its texts as valid
  UTF-8; when the controller refused, it stops the scenario with the exit code 1, and
  \<open>MustError\<close> reads PANE_NOT_FOUND from that result if the pane was missing.\<close>

theorem harness_snapshot:
  fixes e soc pane defines "args \<equiv> [''snapshot'', ''--tmux-socket'', he_tmuxSoc e, ''--pane'', pane]"
  defines "fs \<equiv> fold apply_item [Val ''tmux-socket'' (he_tmuxSoc e), Val ''pane'' pane] snapshot_flags"
  assumes "has_prefix pane ''%''" and "utf8_valid pane"
    and "adapter_backend tmux opts b" and "store_ok inst st"
    and "reaches E fs (daemon_peer b ue me pid (w, st) at eof late)" and "at < ce_now E + 15 * second"
    and "Run E D args = Some (out, err, code)"
    and "fx_binary F [''XDG_RUNTIME_DIR='' @ he_xdgDir e, ''PATH='' @ fx_PATH F, ''HOME='' @ fx_HOME F] args v =
      ((ExitCode code, out, err), v')"
  shows "\<exists>res w' st'. Snapshot (Adapter_CapturePane tmux opts) (Adapter_CaptureScrollback tmux opts) (bk_now b) pane None w st
      = Some (res, w', st') \<and>
    (let r = \<lparr>res_Code = code, res_Stdout = out, res_Stderr = err\<rparr> in
     fst (Env_Snapshot F pane [] e v) = (case res of Inr s \<Rightarrow> Inr (snapshot_view s) | Inl _ \<Rightarrow> Inl (WrongExit r)) \<and>
     (case res of Inr s \<Rightarrow> code = 0 | Inl (Command er) \<Rightarrow> er = pane_not_found pane \<and> MustError r = Inr er | Inl _ \<Rightarrow> code = 1))"
proof -
  let ?r = "\<lparr>res_Code = code, res_Stdout = out, res_Stderr = err\<rparr>"
  from snapshot_run [OF assms(3-6) assms(7) [unfolded fs_def] assms(8), of D] obtain res w' st' where
    s: "Snapshot (Adapter_CapturePane tmux opts) (Adapter_CaptureScrollback tmux opts) (bk_now b) pane None w st = Some (res, w', st')"
    and a: "Run E D args = relay (Some (sanitize_response (marshal_body snapshot_json res)))"
    unfolding args_def by blast
  have run: "Env_Snapshot F pane [] e v = (MustJSON set_snapshot_field zero_snapshot ?r, snd (Env_Snapshot F pane [] e v))"
    using assms(10) by (simp add: Env_Snapshot_def Env_Run_def RunArgs_def args_def zero_snapshot_def Let_def)
  show ?thesis
  proof (cases res)
    case (Inr snap)
    with a assms(9) snapshot_payload.printed [of snap] s run show ?thesis
      by (auto simp: marshal_body_def prod_eq_iff)
  next
    case (Inl er)
    from adapter.snapshot_fails [OF TrueI s [unfolded Inl]]
    consider "er = Command (pane_not_found pane)" | m where "er = Runtime m" by blast
    then show ?thesis
    proof cases
      case 1
      have "(out, err, code) = (line (json_print (error_json (pane_not_found pane))), [], 1)"
        using a assms(9) relay_answer [of "CommandError (pane_not_found pane)"] pane_not_found_read(1) [OF assms(4)]
        by (simp add: marshal_body_def Inl 1 classify_err_def)
      with s run Inl 1 pane_not_found_read(2) [OF assms(4)] show ?thesis
        by (auto simp: MustJSON_def Let_def prod_eq_iff)
    next
      case 2
      have "code = 1"
        using a assms(9) relay_answer [of "RuntimeError (error_string er)"]
        by (simp add: marshal_body_def Inl 2 classify_err_def)
      with s run Inl 2 show ?thesis by (auto simp: MustJSON_def Let_def prod_eq_iff)
    qed
  qed
qed

theorem harness_snapshot_witness:
  "\<exists>(F :: nat fixture) e s. fst (Env_Snapshot F ''%1'' [] e 0) = Inr s \<and> sr_pane_id s = ''%1'' \<and>
     sr_scrollback_text s = None \<and> sr_text s = ''hi''"
proof -
  let ?tmux = "\<lambda>argv (n :: nat). (\<lparr>tr_err = None, tr_stdout = ''hi'', tr_stderr = []\<rparr>, n)"
  let ?opts = "\<lparr>op_SocketPath = [], op_SocketName = []\<rparr>"
  let ?env = "\<lparr>env_TMUX = [], env_XDG = [], env_uid = 7, env_tmpdir = ''/tmp'', env_cwd = Inr ''/''\<rparr>"
  let ?e = "\<lparr>he_bin = ''b'', he_tmux = ''tmux'', he_tmuxSoc = ''/t'', he_xdgDir = [], he_history = [], he_panes = []\<rparr>"
  let ?args = "[''snapshot'', ''--tmux-socket'', he_tmuxSoc ?e, ''--pane'', ''%1'']"
  let ?fs = "fold apply_item [Val ''tmux-socket'' (he_tmuxSoc ?e), Val ''pane'' ''%1''] snapshot_flags"
  let ?st = "Store_New ''AB'' 8"
  obtain b :: "nat backend" where b: "adapter_backend ?tmux ?opts b" using adapter_backend_exists by blast
  let ?peer = "daemon_peer b (\<lambda>_. []) (\<lambda>_. []) 7 (0, ?st) 5 [] []"
  let ?E = "\<lparr>ce_environ = ?env, ce_ensure = \<lambda>_. Inr ?peer, ce_now = 0, ce_defaults = \<lambda>_. [], ce_flag_text = \<lambda>_. [],
      ce_unmarshal_error = \<lambda>_. [], ce_printable = \<lambda>_. True, ce_build = None\<rparr>"
  have st: "store_ok (st_instance ?st) ?st"
    using store_rep_new [of 8 "''AB''"] by (auto simp: store_ok_def)
  have fs: "?fs = [(''tmux-socket'', FString ''/t''), (''tmux-socket-name'', FString []), (''pane'', FString ''%1''),
      (''history-lines'', FInt (- 1))]"
    by (simp add: snapshot_flags_def global_flags_def pane_flag_def flag_set_def)
  have r: "reaches ?E ?fs ?peer"
    unfolding fs by (simp add: reaches_def dial_def string_flag_def ResolveTmuxSocket_def path_abs_def)
  obtain D :: daemon_world where True by blast
  have v: "utf8_valid ''%1''" "Normalize ''hi'' = ''hi''" "utf8_sanitize ''%1'' = ''%1''" "utf8_sanitize ''hi'' = ''hi''"
    by code_simp+
  have at: "5 < ce_now ?E + 15 * second" by (simp add: second_def millisecond_def)
  have pane: "has_prefix ''%1'' ''%''" by (simp add: has_prefix_def)
  obtain out err code where run: "Run ?E D ?args = Some (out, err, code)"
    using snapshot_run [OF pane v(1) b st r at, of D] relay_returns by (metis prod_cases3)
  let ?F = "\<lparr>fx_binary = \<lambda>_ _ v. ((ExitCode code, out, err), v), fx_tmux = \<lambda>_ v. (([], None), v), fx_now = \<lambda>_. 0,
      fx_dir = \<lambda>_ _. None, fx_dial = \<lambda>_ _. False, fx_sleep = \<lambda>_ v. v, fx_PATH = [], fx_HOME = []\<rparr>"
  obtain res w' st' where s: "Snapshot (Adapter_CapturePane ?tmux ?opts) (Adapter_CaptureScrollback ?tmux ?opts) (bk_now b) ''%1'' None 0 ?st
      = Some (res, w', st')"
    "fst (Env_Snapshot ?F ''%1'' [] ?e (0 :: nat)) = (case res of Inr s \<Rightarrow> Inr (snapshot_view s) | Inl _ \<Rightarrow> Inl (WrongExit
       \<lparr>res_Code = code, res_Stdout = out, res_Stderr = err\<rparr>))"
    using harness_snapshot [OF pane v(1) b st r at run, of ?F 0 0] by (auto simp: Let_def)
  from s(1) obtain t where "res = Inr \<lparr>sr_pane_id = ''%1'', sr_next = t, sr_scrollback_text = None, sr_text = ''hi''\<rparr>"
    by (auto simp: Snapshot_def Adapter_CapturePane_def v(2) Let_def split: option.splits)
  with s(2) v(3,4) have "fst (Env_Snapshot ?F ''%1'' [] ?e (0 :: nat)) = Inr \<lparr>sr_pane_id = ''%1'', sr_next = utf8_sanitize t,
      sr_scrollback_text = None, sr_text = ''hi''\<rparr>" by (simp add: snapshot_view_def del: utf8_sanitize.simps)
  then show ?thesis by fastforce
qed

end
