(* ===== verification/Pipeline.thy ===== *)
theory Pipeline
  imports Dispatch
begin

section \<open>Pipeline: the controller over the subscription (internal/controller/controller.go)\<close>

text \<open>
  The running controller: the processes of the subscription, the goroutine of \<open>drain\<close>
  that takes one event from the channel and applies it to the store, and the command
  handlers that use the same store. The methods of \<open>Controller\<close> are the handlers of theory
  Controller on its own port and store.
\<close>

subsection \<open>The methods\<close>

definition Controller_List ::
    "('w \<Rightarrow> (go_error + PaneID list) \<times> 'w) \<Rightarrow> 'w \<Rightarrow> Controller \<Rightarrow> (go_error + ListResponse) \<times> 'w \<times> Controller" where
  "Controller_List list_panes w c = (let (res, w') = List_panes list_panes w in (res, w', c))"

definition Controller_Snapshot ::
    "(PaneID \<Rightarrow> 'w \<Rightarrow> (go_error + string) \<times> 'w) \<Rightarrow> (PaneID \<Rightarrow> int \<Rightarrow> 'w \<Rightarrow> (go_error + string) \<times> 'w) \<Rightarrow> instant
      \<Rightarrow> PaneID \<Rightarrow> int option \<Rightarrow> 'w \<Rightarrow> Controller \<Rightarrow> ((go_error + SnapshotResponse) \<times> 'w \<times> Controller) option" where
  "Controller_Snapshot capture scroll now pid historyLines w c =
     map_option (\<lambda>(res, w', st). (res, w', c\<lparr>ct_store := st\<rparr>))
       (Snapshot capture scroll now pid historyLines w (ct_store c))"

text \<open>\<open>Read\<close>: \<open>c2\<close> is the controller at the second critical section of the store.\<close>

definition Controller_Read :: "instant \<Rightarrow> PaneID \<Rightarrow> Token \<Rightarrow> Controller \<Rightarrow> Controller \<Rightarrow> go_error + ReadResponse" where
  "Controller_Read now pid after c c2 = Read_cmd now pid after (ct_store c) (ct_store c2)"

definition Controller_SendText ::
    "(PaneID \<Rightarrow> string \<Rightarrow> bool \<Rightarrow> 'w \<Rightarrow> go_error option \<times> 'w) \<Rightarrow> PaneID \<Rightarrow> string \<Rightarrow> bool \<Rightarrow> 'w \<Rightarrow> Controller
      \<Rightarrow> go_error option \<times> 'w \<times> Controller" where
  "Controller_SendText send_text pid txt enter w c = (let (res, w') = SendText_cmd send_text pid txt enter w in (res, w', c))"

definition Controller_SendKeys ::
    "(PaneID \<Rightarrow> string list \<Rightarrow> 'w \<Rightarrow> go_error option \<times> 'w) \<Rightarrow> PaneID \<Rightarrow> string list \<Rightarrow> 'w \<Rightarrow> Controller
      \<Rightarrow> go_error option \<times> 'w \<times> Controller" where
  "Controller_SendKeys send_keys pid keys w c = (let (res, w') = SendKeys_cmd send_keys pid keys w in (res, w', c))"

text \<open>\<open>Wait\<close> runs while everything else goes on; these are the outcomes it can have.\<close>

definition Controller_Wait :: "WaitRequest \<Rightarrow> instant \<Rightarrow> Controller \<Rightarrow> go_error + WaitResponse \<Rightarrow> Controller \<Rightarrow> bool" where
  "Controller_Wait req now c res c' \<longleftrightarrow> (\<exists>st. wait_outcome req now (ct_store c) res st \<and> c' = c\<lparr>ct_store := st\<rparr>)"

lemma wait_returns: "store_ok inst (ct_store c) \<Longrightarrow> \<exists>res c'. Controller_Wait req now c res c'"
  using wait_outcome_exists unfolding Controller_Wait_def by blast

subsection \<open>The processes\<close>

text \<open>\<open>pl_hand\<close> is the event the loop of \<open>drain\<close> has received and not yet applied.\<close>

record pipeline =
  pl_sub :: subscription
  pl_hand :: "PaneOutput option"
  pl_ctl :: Controller

definition pipeline_start :: "bytes \<Rightarrow> int \<Rightarrow> pipeline" where
  "pipeline_start rnd capacity =
     \<lparr>pl_sub = Adapter_Subscribe, pl_hand = None,
      pl_ctl = snd (Controller_Start None (NewWithCapacity rnd capacity))\<rparr>"

text \<open>
  \<open>Handle\<close> is one critical section of a command handler. The handlers mint, watch, cancel
  and receive; they neither append nor forget.
\<close>

datatype pipeline_label = Sub sub_label | Take | Apply instant | Handle store_op

definition quiet_op :: "store_op \<Rightarrow> bool" where
  "quiet_op op \<longleftrightarrow> (case op of OpAppend _ _ _ \<Rightarrow> False | OpForget _ \<Rightarrow> False | _ \<Rightarrow> True)"

fun pipeline_step :: "pipeline_label \<Rightarrow> pipeline \<Rightarrow> pipeline option" where
  "pipeline_step (Sub l) d =
     (if l = Receive then None else map_option (\<lambda>s. d\<lparr>pl_sub := s\<rparr>) (sub_step l (pl_sub d)))"
| "pipeline_step Take d =
     (if pl_hand d \<noteq> None then None
      else map_option (\<lambda>s. d\<lparr>pl_sub := s, pl_hand := Some (sb_sent (pl_sub d) ! sb_taken (pl_sub d))\<rparr>)
        (sub_step Receive (pl_sub d)))"
| "pipeline_step (Apply now) d =
     (case pl_hand d of
        None \<Rightarrow> None
      | Some ev \<Rightarrow> map_option (\<lambda>c. d\<lparr>pl_hand := None, pl_ctl := c\<rparr>) (drain_event now ev (pl_ctl d)))"
| "pipeline_step (Handle op) d =
     (if quiet_op op
      then map_option (\<lambda>st. d\<lparr>pl_ctl := (pl_ctl d)\<lparr>ct_store := st\<rparr>\<rparr>) (store_step op (ct_store (pl_ctl d)))
      else None)"

inductive pipeline_run :: "bytes \<Rightarrow> int \<Rightarrow> pipeline_label list \<Rightarrow> pipeline \<Rightarrow> bool" for rnd capacity where
  pipe_start: "pipeline_run rnd capacity [] (pipeline_start rnd capacity)"
| pipe_next: "pipeline_run rnd capacity ls d \<Longrightarrow> pipeline_step l d = Some d' \<Longrightarrow> pipeline_run rnd capacity (ls @ [l]) d'"

text \<open>What the subscription sees of a run.\<close>

fun sub_labels :: "pipeline_label list \<Rightarrow> sub_label list" where
  "sub_labels [] = []"
| "sub_labels (Sub l # ls) = l # sub_labels ls"
| "sub_labels (Take # ls) = Receive # sub_labels ls"
| "sub_labels (_ # ls) = sub_labels ls"

lemma sub_labels_append [simp]: "sub_labels (xs @ ys) = sub_labels xs @ sub_labels ys"
  by (induction xs rule: sub_labels.induct) simp_all

lemma pipeline_sub: "pipeline_run rnd capacity ls d \<Longrightarrow> sub_run (sub_labels ls) (pl_sub d)"
proof (induction rule: pipeline_run.induct)
  case pipe_start
  show ?case by (simp add: pipeline_start_def sub_start)
next
  case (pipe_next ls d l d')
  then show ?case by (cases l) (auto split: if_splits option.splits simp del: sub_step.simps intro: sub_next)
qed

text \<open>The methods of the controller are such critical sections.\<close>

lemma methods_quiet:
  "Controller_List list_panes w c = (res, w', c') \<Longrightarrow> c' = c"
  "Controller_SendText send_text pid txt enter w c = (res2, w', c') \<Longrightarrow> c' = c"
  "Controller_SendKeys send_keys pid keys w c = (res2, w', c') \<Longrightarrow> c' = c"
  by (auto simp: Controller_List_def Controller_SendText_def Controller_SendKeys_def split: prod.splits)

lemma snapshot_quiet:
  assumes "Controller_Snapshot capture scroll now pid hist w (pl_ctl d) = Some (res, w', c')"
  shows "c' = pl_ctl d \<or> pipeline_step (Handle (OpMint now pid)) d = Some (d\<lparr>pl_ctl := c'\<rparr>)"
  using assms
  by (auto simp: Controller_Snapshot_def Snapshot_def quiet_op_def Let_def split: prod.splits sum.splits option.splits)

subsection \<open>What is in the store and what is on its way\<close>

definition in_hand :: "pipeline \<Rightarrow> PaneOutput list" where
  "in_hand d = (case pl_hand d of None \<Rightarrow> [] | Some ev \<Rightarrow> [ev])"

definition in_transit :: "pipeline \<Rightarrow> PaneOutput list" where
  "in_transit d = in_hand d @ drop (sb_taken (pl_sub d)) (sb_sent (pl_sub d))"

lemma taken_frame [sub_frame]:
  "sb_taken (start_tracker p s) = sb_taken s" "sb_taken (stop_tracker p s) = sb_taken s"
  by (simp_all add: start_tracker_def stop_tracker_def)

lemma taken_all [sub_frame]:
  "sb_taken (fold (start_missing started) panes s) = sb_taken s" "sb_taken (teardown s) = sb_taken s"
  unfolding teardown_def by (rule start_all stop_all; simp add: sub_frame)+

text \<open>A step but \<open>Receive\<close> only adds to what was sent.\<close>

lemma sub_extends:
  assumes "sub_step l s = Some s'" and "l \<noteq> Receive"
  shows "sb_taken s' = sb_taken s \<and> (\<exists>evs. sb_sent s' = sb_sent s @ evs)"
  using assms
  by (cases l) (auto simp: sync_failed_def sync_listed_def sub_frame Let_def split: if_splits list.splits option.splits)

definition pipe_inv :: "string \<Rightarrow> int \<Rightarrow> pipeline \<Rightarrow> PaneOutput list \<Rightarrow> streams \<Rightarrow> bool" where
  "pipe_inv inst capacity d seen H \<longleftrightarrow>
     sb_sent (pl_sub d) = seen @ in_transit d \<and> sb_taken (pl_sub d) \<le> length (sb_sent (pl_sub d)) \<and>
     store_rep (ct_store (pl_ctl d)) H \<and>
     (\<forall>p. Closed p \<notin> set seen \<longrightarrow> known_stream H p = out_bytes p seen) \<and>
     (ct_lost (pl_ctl d) \<longleftrightarrow> ServerLost \<in> set seen) \<and>
     st_instance (ct_store (pl_ctl d)) = inst \<and> st_capacity (ct_store (pl_ctl d)) = capacity"

lemma known_upd: "known_stream (H(q \<mapsto> x)) p = (if p = q then x else known_stream H p)"
  "known_stream (H(q := None)) p = (if p = q then [] else known_stream H p)"
  by (simp_all add: known_stream_def)

lemma quiet_known: "quiet_op op \<Longrightarrow> known_stream (abs_step op H) p = known_stream H p"
  by (cases op) (simp_all add: quiet_op_def touched_def known_upd)

text \<open>Applying an event never panics and does what the event says.\<close>

lemma apply_event:
  assumes "store_rep (ct_store c) H"
  shows "\<exists>c' H'. drain_event now ev c = Some c' \<and> store_rep (ct_store c') H' \<and>
    st_instance (ct_store c') = st_instance (ct_store c) \<and> st_capacity (ct_store c') = st_capacity (ct_store c) \<and>
    (ct_lost c' \<longleftrightarrow> ct_lost c \<or> ev = ServerLost) \<and>
    (\<forall>p. ev \<noteq> Closed p \<longrightarrow> known_stream H' p = known_stream H p @ out_bytes p [ev])"
proof -
  from drain_run [OF assms, of "[(now, ev)]"] obtain c' where c: "drain [(now, ev)] c = Some c'"
    "store_rep (ct_store c') (abs_run (event_ops [(now, ev)]) H)" "ct_lost c' \<longleftrightarrow> ct_lost c \<or> ServerLost \<in> snd ` set [(now, ev)]"
    "st_instance (ct_store c') = st_instance (ct_store c)" "st_capacity (ct_store c') = st_capacity (ct_store c)" by blast
  moreover have "drain_event now ev c = Some c'" using c(1) by (auto simp: bind_eq_Some_conv)
  moreover have "ev \<noteq> Closed p \<Longrightarrow> known_stream (abs_run (event_ops [(now, ev)]) H) p = known_stream H p @ out_bytes p [ev]" for p
    by (cases ev) (simp_all add: known_upd out_bytes_def)
  ultimately show ?thesis by auto
qed

lemma pipe_inv_step:
  assumes inv: "pipe_inv inst capacity d seen H" and step: "pipeline_step l d = Some d'"
  shows "\<exists>seen' H'. pipe_inv inst capacity d' seen' H'"
proof (cases l)
  case (Sub sl)
  with step obtain s where s: "sl \<noteq> Receive" "sub_step sl (pl_sub d) = Some s" "d' = d\<lparr>pl_sub := s\<rparr>"
    by (auto simp del: sub_step.simps split: if_splits)
  from sub_extends [OF s(2,1)] obtain evs where "sb_taken s = sb_taken (pl_sub d)" "sb_sent s = sb_sent (pl_sub d) @ evs" by blast
  with inv s(3) have "pipe_inv inst capacity d' seen H"
    by (simp add: pipe_inv_def in_transit_def in_hand_def)
  then show ?thesis by blast
next
  case Take
  with step have t: "pl_hand d = None" "sb_taken (pl_sub d) < length (sb_sent (pl_sub d))"
    "d' = d\<lparr>pl_sub := (pl_sub d)\<lparr>sb_taken := Suc (sb_taken (pl_sub d))\<rparr>,
            pl_hand := Some (sb_sent (pl_sub d) ! sb_taken (pl_sub d))\<rparr>"
    by (auto split: if_splits)
  then have "in_transit d' = in_transit d"
    by (simp add: in_transit_def in_hand_def Cons_nth_drop_Suc)
  with inv t have "pipe_inv inst capacity d' seen H" by (simp add: pipe_inv_def)
  then show ?thesis by blast
next
  case (Apply now)
  with step obtain ev c' where h: "pl_hand d = Some ev" "drain_event now ev (pl_ctl d) = Some c'"
    "d' = d\<lparr>pl_hand := None, pl_ctl := c'\<rparr>" by (auto split: option.splits)
  have "store_rep (ct_store (pl_ctl d)) H" using inv by (simp add: pipe_inv_def)
  from apply_event [OF this, of now ev] h(2) obtain H' where H': "store_rep (ct_store c') H'"
    "st_instance (ct_store c') = st_instance (ct_store (pl_ctl d))" "st_capacity (ct_store c') = st_capacity (ct_store (pl_ctl d))"
    "ct_lost c' \<longleftrightarrow> ct_lost (pl_ctl d) \<or> ev = ServerLost"
    "\<forall>p. ev \<noteq> Closed p \<longrightarrow> known_stream H' p = known_stream H p @ out_bytes p [ev]" by auto
  have "in_transit d = ev # in_transit d'" using h by (simp add: in_transit_def in_hand_def)
  with inv H' h(3) have "pipe_inv inst capacity d' (seen @ [ev]) H'"
    by (auto simp: pipe_inv_def out_bytes_def)
  then show ?thesis by blast
next
  case (Handle op)
  with step obtain st where c: "quiet_op op" "store_step op (ct_store (pl_ctl d)) = Some st"
    "d' = d\<lparr>pl_ctl := (pl_ctl d)\<lparr>ct_store := st\<rparr>\<rparr>" by (auto split: if_splits)
  have "store_rep (ct_store (pl_ctl d)) H" using inv by (simp add: pipe_inv_def)
  from store_step_rep [OF this, of op] c(2) have "store_rep st (abs_step op H)"
    "st_instance st = st_instance (ct_store (pl_ctl d))" "st_capacity st = st_capacity (ct_store (pl_ctl d))" by auto
  with inv c quiet_known [OF c(1)] have "pipe_inv inst capacity d' seen (abs_step op H)"
    by (simp add: pipe_inv_def in_transit_def in_hand_def)
  then show ?thesis by blast
qed

lemma pipe_inv_run:
  assumes "pipeline_run rnd capacity ls d" and "0 < capacity"
  shows "\<exists>seen H. pipe_inv (hex_encode rnd) capacity d seen H"
  using assms(1)
proof (induction rule: pipeline_run.induct)
  case pipe_start
  have "pipe_inv (hex_encode rnd) capacity (pipeline_start rnd capacity) [] Map.empty"
    using store_rep_new [OF assms(2), of rnd]
    by (simp add: pipe_inv_def pipeline_start_def Adapter_Subscribe_def Controller_Start_def NewWithCapacity_def
        in_transit_def in_hand_def out_bytes_def Store_New_def)
  then show ?case by blast
qed (use pipe_inv_step in blast)

subsection \<open>Reading and draining\<close>

text \<open>What a read answers when \<open>seen\<close> has been applied, for a pane that was not closed.\<close>

lemma pipeline_read:
  assumes inv: "pipe_inv inst capacity d seen H" and "Closed p \<notin> set seen"
    and "decodeToken after = Inr tp" and "tp_I tp = inst" and "tp_P tp = p"
  shows "Controller_Read now p after (pl_ctl d) (pl_ctl d) =
    (let s = out_bytes p seen in
     if \<not> Store_HasPane p (ct_store (pl_ctl d)) then Inl (Command (pane_not_found p))
     else if 0 \<le> tp_O tp \<and> int (length s) - capacity \<le> tp_O tp \<and> tp_O tp \<le> int (length s)
       then Inr \<lparr>rr_pane_id = p, rr_next = encodeToken inst p (int (length s)) now, rr_text = Normalize (drop (nat (tp_O tp)) s)\<rparr>
     else Inl (Command (invalid_after p)))"
proof -
  have rep: "store_rep (ct_store (pl_ctl d)) H" and k: "known_stream H p = out_bytes p seen"
    and st: "st_instance (ct_store (pl_ctl d)) = inst" "st_capacity (ct_store (pl_ctl d)) = capacity"
    using inv assms(2) by (auto simp: pipe_inv_def)
  show ?thesis
  proof (cases "H p")
    case None
    with store_rep_dom [OF rep, of p] show ?thesis
      by (simp add: Controller_Read_def Read_cmd_rep [OF rep] Store_HasPane_def Let_def)
  next
    case (Some h)
    with k have "h = out_bytes p seen" by simp
    with Some store_rep_dom [OF rep, of p] st assms(3-5) show ?thesis
      by (auto simp: Controller_Read_def Read_cmd_rep [OF rep] Store_HasPane_def Let_def)
  qed
qed

fun pipeline_exec :: "pipeline_label list \<Rightarrow> pipeline \<Rightarrow> pipeline option" where
  "pipeline_exec [] d = Some d"
| "pipeline_exec (l # ls) d = Option.bind (pipeline_step l d) (pipeline_exec ls)"

lemma pipeline_exec_run:
  "pipeline_run rnd capacity ls d \<Longrightarrow> pipeline_exec ls' d = Some d' \<Longrightarrow> pipeline_run rnd capacity (ls @ ls') d'"
proof (induction ls' arbitrary: ls d)
  case (Cons l ls')
  then obtain d1 where "pipeline_step l d = Some d1" "pipeline_exec ls' d1 = Some d'"
    by (auto simp: bind_eq_Some_conv)
  with Cons.IH [OF pipe_next [OF Cons.prems(1)]] show ?case by simp
qed simp

text \<open>\<open>drain\<close> never blocks: whatever is on its way can be applied, and nothing else changes.\<close>

lemma pipeline_drains:
  assumes "pipeline_run rnd capacity ls d" and "0 < capacity"
  shows "\<exists>ls' d'. set ls' \<subseteq> {Take, Apply now} \<and> pipeline_exec ls' d = Some d' \<and> in_transit d' = [] \<and>
    pl_sub d' = (pl_sub d)\<lparr>sb_taken := length (sb_sent (pl_sub d))\<rparr>"
  using assms(1)
proof (induction "2 * length (drop (sb_taken (pl_sub d)) (sb_sent (pl_sub d))) + length (in_hand d)" arbitrary: ls d rule: less_induct)
  case less
  from pipe_inv_run [OF less.prems assms(2)] obtain seen H where inv: "pipe_inv (hex_encode rnd) capacity d seen H" by blast
  then have le: "sb_taken (pl_sub d) \<le> length (sb_sent (pl_sub d))" unfolding pipe_inv_def by blast
  have more': ?case if "l \<in> {Take, Apply now}" "pipeline_step l d = Some d1"
    and "2 * length (drop (sb_taken (pl_sub d1)) (sb_sent (pl_sub d1))) + length (in_hand d1)
      < 2 * length (drop (sb_taken (pl_sub d)) (sb_sent (pl_sub d))) + length (in_hand d)"
    and "pl_sub d1 = (pl_sub d)\<lparr>sb_taken := n\<rparr>" for l d1 n
  proof -
    from less.hyps [OF that(3) pipe_next [OF less.prems that(2)]] obtain ls' d' where
      "set ls' \<subseteq> {Take, Apply now}" "pipeline_exec ls' d1 = Some d'" "in_transit d' = []"
      "pl_sub d' = (pl_sub d1)\<lparr>sb_taken := length (sb_sent (pl_sub d1))\<rparr>" by blast
    with that(1,2,4) show ?thesis by (intro exI [of _ "l # ls'"] exI [of _ d']) simp
  qed
  show ?case
  proof (cases "pl_hand d")
    case (Some ev)
    from inv have "store_rep (ct_store (pl_ctl d)) H" by (simp add: pipe_inv_def)
    from apply_event [OF this, of now ev] obtain c' where "drain_event now ev (pl_ctl d) = Some c'" by blast
    with Some have "pipeline_step (Apply now) d = Some (d\<lparr>pl_hand := None, pl_ctl := c'\<rparr>)" by simp
    from more' [OF _ this, of "sb_taken (pl_sub d)"] show ?thesis using Some by (simp add: in_hand_def)
  next
    case None
    show ?thesis
    proof (cases "sb_taken (pl_sub d) < length (sb_sent (pl_sub d))")
      case True
      with None have "pipeline_step Take d = Some (d\<lparr>pl_sub := (pl_sub d)\<lparr>sb_taken := Suc (sb_taken (pl_sub d))\<rparr>,
          pl_hand := Some (sb_sent (pl_sub d) ! sb_taken (pl_sub d))\<rparr>)" by simp
      from more' [OF _ this, of "Suc (sb_taken (pl_sub d))"] show ?thesis using None True by (simp add: in_hand_def)
    next
      case False
      with le have "sb_taken (pl_sub d) = length (sb_sent (pl_sub d))" by simp
      then have "in_transit d = []" "pl_sub d = (pl_sub d)\<lparr>sb_taken := length (sb_sent (pl_sub d))\<rparr>"
        using None by (simp_all add: in_transit_def in_hand_def)
      then show ?thesis by (intro exI [of _ "[]"] exI [of _ d]) simp
    qed
  qed
qed

lemma pipeline_exec_append: "pipeline_exec (xs @ ys) d = Option.bind (pipeline_exec xs d) (pipeline_exec ys)"
proof (induction xs arbitrary: d)
  case (Cons l xs)
  then show ?case by (cases "pipeline_step l d") simp_all
qed simp

text \<open>
  With the room \<open>drain\<close> makes, a reader that runs can send the chunk it holds: together
  they bring everything the reader has read into the store.
\<close>

definition held :: "paneTracker \<Rightarrow> PaneOutput list" where
  "held r = (case pt_pending r of None \<Rightarrow> [] | Some data \<Rightarrow> [Output (pt_pane r) data])"

lemma pipeline_flushes:
  assumes run: "pipeline_run rnd capacity ls d" and cap: "0 < capacity"
    and i: "i < length (sb_readers (pl_sub d))" "\<not> pt_done (sb_readers (pl_sub d) ! i)"
  shows "\<exists>ls' d'. set ls' \<subseteq> {Take, Apply now, Sub (ReaderSend i)} \<and> pipeline_exec ls' d = Some d' \<and> in_transit d' = [] \<and>
    sb_sent (pl_sub d') = sb_sent (pl_sub d) @ held (sb_readers (pl_sub d) ! i) \<and>
    map pt_pane (sb_readers (pl_sub d')) = map pt_pane (sb_readers (pl_sub d)) \<and>
    \<not> pt_done (sb_readers (pl_sub d') ! i) \<and> pt_pending (sb_readers (pl_sub d') ! i) = None"
proof -
  from pipeline_drains [OF run cap, of now] obtain ls1 d1 where d1: "set ls1 \<subseteq> {Take, Apply now}"
    "pipeline_exec ls1 d = Some d1" "in_transit d1 = []"
    "pl_sub d1 = (pl_sub d)\<lparr>sb_taken := length (sb_sent (pl_sub d))\<rparr>" by blast
  show ?thesis
  proof (cases "pt_pending (sb_readers (pl_sub d) ! i)")
    case None
    with d1 i show ?thesis by (intro exI [of _ ls1] exI [of _ d1]) (auto simp: held_def)
  next
    case (Some data)
    let ?s = "(pl_sub d1)\<lparr>sb_sent := sb_sent (pl_sub d1) @ [Output (pt_pane (sb_readers (pl_sub d1) ! i)) data],
      sb_readers := (sb_readers (pl_sub d1))[i := (sb_readers (pl_sub d1) ! i)\<lparr>pt_pending := None\<rparr>]\<rparr>"
    have send: "pipeline_step (Sub (ReaderSend i)) d1 = Some (d1\<lparr>pl_sub := ?s\<rparr>)"
      using i Some d1(4) by (simp add: channel_room_def out_capacity_def)
    from pipeline_exec_run [OF run d1(2)] have run1: "pipeline_run rnd capacity (ls @ ls1) d1" .
    from pipeline_drains [OF pipe_next [OF run1 send] cap, of now] obtain ls2 d2 where d2: "set ls2 \<subseteq> {Take, Apply now}"
      "pipeline_exec ls2 (d1\<lparr>pl_sub := ?s\<rparr>) = Some d2" "in_transit d2 = []"
      "pl_sub d2 = ?s\<lparr>sb_taken := length (sb_sent ?s)\<rparr>" by auto
    have "pipeline_exec (ls1 @ [Sub (ReaderSend i)] @ ls2) d = Some d2"
      using d1(2) send d2(2) by (simp add: pipeline_exec_append del: pipeline_step.simps)
    moreover have "map pt_pane (sb_readers (pl_sub d2)) = map pt_pane (sb_readers (pl_sub d))"
      using d2(4) d1(4) i(1) by (simp add: map_update list_update_same_conv)
    ultimately show ?thesis
      using d1 d2 i Some
      by (intro exI [of _ "ls1 @ [Sub (ReaderSend i)] @ ls2"] exI [of _ d2]) (auto simp: held_def)
  qed
qed

lemma held_other: "ev \<in> set (held r) \<Longrightarrow> \<exists>data. ev = Output (pt_pane r) data"
  by (auto simp: held_def split: option.splits)

text \<open>What a running reader of a pane has read by then is all in the store.\<close>

lemma flushed_bytes:
  fixes d d' i defines "p \<equiv> pt_pane (sb_readers (pl_sub d) ! i)"
  assumes "pipeline_run rnd capacity ls' d'" and "read_by i (sub_labels ls') = B" and "i < length (sb_readers (pl_sub d))"
    and "map pt_pane (sb_readers (pl_sub d')) = map pt_pane (sb_readers (pl_sub d))" and "readers_of p (pl_sub d) = 1"
    and "\<not> pt_done (sb_readers (pl_sub d') ! i)" and "pt_pending (sb_readers (pl_sub d') ! i) = None"
  shows "B = out_bytes p (sb_sent (pl_sub d'))"
proof -
  have len: "length (sb_readers (pl_sub d')) = length (sb_readers (pl_sub d))" using map_eq_imp_length_eq [OF assms(5)] .
  then have i: "i < length (sb_readers (pl_sub d'))" using assms(4) by simp
  have p: "pt_pane (sb_readers (pl_sub d') ! i) = p"
    using arg_cong [where f = "\<lambda>xs. xs ! i", OF assms(5)] i assms(4) by (simp add: p_def)
  have "readers_of p (pl_sub d') = 1" using assms(5,6) by (simp add: readers_of_def)
  with reader_forwards_all [OF pipeline_sub [OF assms(2)] i] p assms(3,7,8) show ?thesis
    by (auto simp: pending_bytes_def)
qed

text \<open>The controller announces the loss of the server only after three failed listings in a row.\<close>

lemma announced_loss:
  assumes "pipeline_run rnd capacity ls d" and "0 < capacity" and "ct_lost (pl_ctl d)"
  shows "3 \<le> longest_streak (sub_labels ls)"
proof -
  from pipe_inv_run [OF assms(1,2)] assms(3) have "ServerLost \<in> set (sb_sent (pl_sub d))"
    by (auto simp: pipe_inv_def)
  then have "0 < count_list (sb_sent (pl_sub d)) ServerLost" using count_list_0_iff by (metis gr0I)
  with lost_inv_run [OF pipeline_sub [OF assms(1)]] have "sb_lost (pl_sub d)" "sb_lost (pl_sub d) \<longleftrightarrow> 3 \<le> longest_streak (sub_labels ls)"
    by (auto simp: lost_inv_def longest_streak_def serverLostThreshold_def split: if_splits)
  then show ?thesis by blast
qed

lemma drain_reads:
  "set ls' \<subseteq> {Take, Apply now, Sub (ReaderSend j)} \<Longrightarrow> read_by i (sub_labels (ls @ ls')) = read_by i (sub_labels ls)"
proof (induction ls' rule: rev_induct)
  case (snoc l ls')
  then have "l = Take \<or> l = Apply now \<or> l = Sub (ReaderSend j)" by auto
  with snoc show ?case by (auto simp: read_by_snoc append_assoc [symmetric] simp del: append_assoc)
qed simp

text \<open>What the concrete runs below evaluate.\<close>

lemmas pipeline_eval = pipeline_start_def Adapter_Subscribe_def Controller_Start_def NewWithCapacity_def sync_idle_def
  sync_listed_def start_missing_def start_tracker_def tracked_def channel_room_def out_capacity_def read_size_def readers_of_def
  in_transit_def in_hand_def out_bytes_def drain_event_def

lemma witness_token:
  "decodeToken (encodeToken ''4142'' ''%1'' 1 0) = Inr \<lparr>tp_I = ''4142'', tp_P = ''%1'', tp_O = 1, tp_T = 0\<rparr>"
  "hex_encode ''AB'' = ''4142''" "Normalize ''b'' = ''b''"
proof -
  have "utf8_valid ''4142''" "utf8_valid ''%1''" by code_simp+
  then show "decodeToken (encodeToken ''4142'' ''%1'' 1 0) = Inr \<lparr>tp_I = ''4142'', tp_P = ''%1'', tp_O = 1, tp_T = 0\<rparr>"
    by (simp add: decode_encode in_int64_def int64_min_def int64_max_def)
qed (code_simp+)

subsection \<open>Properties\<close>

text \<open>C2: what the FIFO of a pane delivered is what a read returns. In every interleaving of
  the subscription, of \<open>drain\<close> and of the command handlers, for a pane that has one reader
  and was not closed, the bytes its FIFO delivered are those already in the store, those
  still on their way through the channel, those the reader is about to send and, only if the
  reader has ended, some it gave up; and a read with a token of this daemon for the pane
  returns exactly the normalized bytes in the store from the token's offset on, with the one
  exception of an offset outside the retained window, or the pane's absence.\<close>

theorem output_pipeline:
  fixes d i defines "p \<equiv> pt_pane (sb_readers (pl_sub d) ! i)"
  assumes "pipeline_run rnd capacity ls d" and "0 < capacity" and "i < length (sb_readers (pl_sub d))"
    and "readers_of p (pl_sub d) = 1" and "Closed p \<notin> set (sb_sent (pl_sub d))"
    and "decodeToken after = Inr tp" and "tp_I tp = hex_encode rnd" and "tp_P tp = p"
  shows "\<exists>stored rest. read_by i (sub_labels ls) = stored @ out_bytes p (in_transit d)
      @ pending_bytes (pt_pending (sb_readers (pl_sub d) ! i)) @ rest \<and> (pt_done (sb_readers (pl_sub d) ! i) \<or> rest = []) \<and>
    Controller_Read now p after (pl_ctl d) (pl_ctl d) =
      (if \<not> Store_HasPane p (ct_store (pl_ctl d)) then Inl (Command (pane_not_found p))
       else if 0 \<le> tp_O tp \<and> int (length stored) - capacity \<le> tp_O tp \<and> tp_O tp \<le> int (length stored)
         then Inr \<lparr>rr_pane_id = p, rr_next = encodeToken (hex_encode rnd) p (int (length stored)) now,
           rr_text = Normalize (drop (nat (tp_O tp)) stored)\<rparr>
       else Inl (Command (invalid_after p)))"
proof -
  from pipe_inv_run [OF assms(2,3)] obtain seen H where inv: "pipe_inv (hex_encode rnd) capacity d seen H" by blast
  then have sent: "sb_sent (pl_sub d) = seen @ in_transit d" by (simp add: pipe_inv_def)
  with assms(6) have nc: "Closed p \<notin> set seen" by simp
  have "out_bytes p (sb_sent (pl_sub d)) = out_bytes p seen @ out_bytes p (in_transit d)"
    unfolding sent by (simp add: out_bytes_def)
  with reader_forwards_all [OF pipeline_sub [OF assms(2)] assms(4)] assms(5) obtain rest where
    "read_by i (sub_labels ls) = out_bytes p seen @ out_bytes p (in_transit d)
      @ pending_bytes (pt_pending (sb_readers (pl_sub d) ! i)) @ rest" "pt_done (sb_readers (pl_sub d) ! i) \<or> rest = []"
    unfolding p_def by auto
  with pipeline_read [OF inv nc assms(7-9), of now] show ?thesis
    unfolding Let_def by (intro exI [of _ "out_bytes p seen"] exI [of _ rest]) simp
qed

theorem output_pipeline_witness:
  "\<exists>d r. pipeline_exec [Sub (Lists [''%1''] [''%1''] []), Sub (ReaderRead 0 ''ab''), Sub (ReaderSend 0), Take, Apply 3,
      Sub (ReaderRead 0 ''cd''), Sub (ReaderSend 0)] (pipeline_start ''AB'' 8) = Some d \<and>
    out_bytes ''%1'' (in_transit d) = ''cd'' \<and>
    Controller_Read 9 ''%1'' (encodeToken ''4142'' ''%1'' 1 0) (pl_ctl d) (pl_ctl d) = Inr r \<and> rr_text r = ''b''"
proof -
  let ?ls = "[Sub (Lists [''%1''] [''%1''] []), Sub (ReaderRead 0 ''ab''), Sub (ReaderSend 0), Take, Apply 3,
      Sub (ReaderRead 0 ''cd''), Sub (ReaderSend 0)]"
  have "store_rep (Store_New ''AB'' 8) Map.empty" by (rule store_rep_new) simp
  from Store_Append_rep [OF this, of 3 "''%1''" "''ab''"] obtain st where
    st: "Store_Append 3 ''%1'' ''ab'' (Store_New ''AB'' 8) = Some st" and rep: "store_rep st [''%1'' \<mapsto> ''ab'']"
    by auto
  from store_rep_dom [OF rep, of "''%1''"] have "Store_HasPane ''%1'' st" by (simp add: Store_HasPane_def)
  with st obtain d where d: "pipeline_exec ?ls (pipeline_start ''AB'' 8) = Some d" "length (sb_readers (pl_sub d)) = 1"
    "pt_pane (sb_readers (pl_sub d) ! 0) = ''%1''" "readers_of ''%1'' (pl_sub d) = 1"
    "\<not> pt_done (sb_readers (pl_sub d) ! 0)" "pt_pending (sb_readers (pl_sub d) ! 0) = None"
    "Closed ''%1'' \<notin> set (sb_sent (pl_sub d))" "out_bytes ''%1'' (in_transit d) = ''cd''" "Store_HasPane ''%1'' (ct_store (pl_ctl d))"
    by (simp add: pipeline_eval)
  have run: "pipeline_run ''AB'' 8 ?ls d" using pipeline_exec_run [OF pipe_start d(1)] by simp
  have "read_by 0 (sub_labels ?ls) = ''ab'' @ ''cd''" by (simp add: read_by_def)
  with output_pipeline [OF run _ _ _ _ witness_token(1), of 0 9] d(2-9) witness_token(2) obtain stored where
    "''ab'' @ ''cd'' = stored @ ''cd''" and read: "Controller_Read 9 ''%1'' (encodeToken ''4142'' ''%1'' 1 0) (pl_ctl d) (pl_ctl d) =
      (if int (length stored) - 8 \<le> 1 \<and> 1 \<le> int (length stored)
       then Inr \<lparr>rr_pane_id = ''%1'', rr_next = encodeToken ''4142'' ''%1'' (int (length stored)) 9,
         rr_text = Normalize (drop (nat 1) stored)\<rparr> else Inl (Command (invalid_after ''%1'')))"
    by (auto simp: pending_bytes_def simp del: append_Cons append_Nil)
  then have "stored = ''ab''" using append_same_eq by metis
  with read d(1,8) witness_token(3) show ?thesis by simp
qed

text \<open>C18: output becomes readable. Take a pane with one reader, which is running, that was not
  announced closed and whose FIFO has delivered something. From every such state, \<open>drain\<close>
  and the reader's sending of the chunk it may hold, with nobody else, can get to one in
  which nothing is on its way; then a read with any token of this daemon for the pane in the
  retained window returns everything the FIFO delivered from the token's offset on, and the
  loss of the server has been announced exactly if it was reported.\<close>

theorem output_becomes_readable:
  fixes d i defines "p \<equiv> pt_pane (sb_readers (pl_sub d) ! i)"
  assumes "pipeline_run rnd capacity ls d" and "0 < capacity" and "i < length (sb_readers (pl_sub d))"
    and "readers_of p (pl_sub d) = 1" and "Closed p \<notin> set (sb_sent (pl_sub d))"
    and "\<not> pt_done (sb_readers (pl_sub d) ! i)" and "read_by i (sub_labels ls) \<noteq> []"
    and "decodeToken after = Inr tp" and "tp_I tp = hex_encode rnd" and "tp_P tp = p"
    and "0 \<le> tp_O tp" and "int (length (read_by i (sub_labels ls))) - capacity \<le> tp_O tp"
    and "tp_O tp \<le> int (length (read_by i (sub_labels ls)))"
  shows "\<exists>ls' d' r. set ls' \<subseteq> {Take, Apply now, Sub (ReaderSend i)} \<and> pipeline_run rnd capacity (ls @ ls') d' \<and>
    in_transit d' = [] \<and> Controller_Read now p after (pl_ctl d') (pl_ctl d') = Inr r \<and>
    rr_text r = Normalize (drop (nat (tp_O tp)) (read_by i (sub_labels ls))) \<and>
    (ct_lost (pl_ctl d') \<longleftrightarrow> ServerLost \<in> set (sb_sent (pl_sub d)))"
proof -
  from pipeline_flushes [OF assms(2-4,7), of now] obtain ls' d' where
    d': "set ls' \<subseteq> {Take, Apply now, Sub (ReaderSend i)}" "pipeline_exec ls' d = Some d'" "in_transit d' = []"
      "sb_sent (pl_sub d') = sb_sent (pl_sub d) @ held (sb_readers (pl_sub d) ! i)"
      "map pt_pane (sb_readers (pl_sub d')) = map pt_pane (sb_readers (pl_sub d))"
      "\<not> pt_done (sb_readers (pl_sub d') ! i)" "pt_pending (sb_readers (pl_sub d') ! i) = None" by blast
  have run: "pipeline_run rnd capacity (ls @ ls') d'" by (rule pipeline_exec_run [OF assms(2) d'(2)])
  from pipe_inv_run [OF run assms(3)] obtain seen H where inv: "pipe_inv (hex_encode rnd) capacity d' seen H" by blast
  with d'(3) have seen: "seen = sb_sent (pl_sub d')" and lost: "ct_lost (pl_ctl d') \<longleftrightarrow> ServerLost \<in> set seen"
    and rep: "store_rep (ct_store (pl_ctl d')) H" by (auto simp: pipe_inv_def)
  have nc: "Closed p \<notin> set seen" and sl: "ServerLost \<in> set seen \<longleftrightarrow> ServerLost \<in> set (sb_sent (pl_sub d))"
    using assms(6) held_other unfolding seen d'(4) by auto
  have all: "read_by i (sub_labels ls) = out_bytes p seen"
    unfolding seen p_def
    by (rule flushed_bytes [OF run drain_reads [OF d'(1)] assms(4) d'(5) assms(5) [unfolded p_def] d'(6,7)])
  have "known_stream H p = out_bytes p seen" using inv nc by (auto simp: pipe_inv_def)
  with assms(8) all have "H p \<noteq> None" by (cases "H p") auto
  with store_rep_dom [OF rep, of p] have "Store_HasPane p (ct_store (pl_ctl d'))" by (simp add: Store_HasPane_def)
  with pipeline_read [OF inv nc assms(9-11), of now] assms(12-14) all
  have "Controller_Read now p after (pl_ctl d') (pl_ctl d') = Inr \<lparr>rr_pane_id = p,
      rr_next = encodeToken (hex_encode rnd) p (int (length (out_bytes p seen))) now,
      rr_text = Normalize (drop (nat (tp_O tp)) (read_by i (sub_labels ls)))\<rparr>" by (simp add: Let_def)
  with d'(1,3) run lost sl show ?thesis by (intro exI [of _ ls'] exI [of _ d'] exI) auto
qed

text \<open>The reader holds the last byte of what was delivered.\<close>

theorem output_becomes_readable_witness:
  "\<exists>ls' d' r. set ls' \<subseteq> {Take, Apply 9, Sub (ReaderSend 0)} \<and> pipeline_run ''AB'' 8 ([Sub (Lists [''%1''] [''%1''] []),
      Sub (ReaderRead 0 ''a''), Sub (ReaderSend 0), Sub (ReaderRead 0 ''b'')] @ ls') d' \<and>
    Controller_Read 9 ''%1'' (encodeToken ''4142'' ''%1'' 1 0) (pl_ctl d') (pl_ctl d') = Inr r \<and> rr_text r = ''b''"
proof -
  let ?ls = "[Sub (Lists [''%1''] [''%1''] []), Sub (ReaderRead 0 ''a''), Sub (ReaderSend 0), Sub (ReaderRead 0 ''b'')]"
  obtain d where d: "pipeline_exec ?ls (pipeline_start ''AB'' 8) = Some d" "length (sb_readers (pl_sub d)) = 1"
    "pt_pane (sb_readers (pl_sub d) ! 0) = ''%1''" "readers_of ''%1'' (pl_sub d) = 1"
    "\<not> pt_done (sb_readers (pl_sub d) ! 0)" "Closed ''%1'' \<notin> set (sb_sent (pl_sub d))"
    by (simp add: pipeline_eval)
  have run: "pipeline_run ''AB'' 8 ?ls d" using pipeline_exec_run [OF pipe_start d(1)] by simp
  have b: "read_by 0 (sub_labels ?ls) = ''ab''" by (simp add: read_by_def)
  from output_becomes_readable [OF run, of 0 "encodeToken ''4142'' ''%1'' 1 0" _ 9, unfolded b d(3), OF _ _ d(4,6,5) _ witness_token(1)]
    d(2) witness_token(2,3) show ?thesis by auto
qed

end
