(* ===== verification/WaitPipeline.thy ===== *)
theory WaitPipeline
  imports Pipeline
begin

section \<open>WaitPipeline: a wait over the running controller\<close>

text \<open>
  One wait beside the subscription, \<open>drain\<close> and the other handlers: the system of theory
  Pipeline and the step relation of theory Wait, synchronised on the store they share. A
  joint run takes steps of either; what the wait does to the store is a handler's critical
  section for the pipeline, and what the pipeline does is a step of the others for the wait.
\<close>

subsection \<open>Joint runs\<close>

definition with_store :: "Store \<Rightarrow> pipeline \<Rightarrow> pipeline" where
  "with_store st d = d\<lparr>pl_ctl := (pl_ctl d)\<lparr>ct_store := st\<rparr>\<rparr>"

definition foreign :: "wait_env \<Rightarrow> pipeline_label \<Rightarrow> bool" where
  "foreign E l \<longleftrightarrow> (case l of Handle op \<Rightarrow> others_op (we_sig E) op | _ \<Rightarrow> True)"

inductive joint_run ::
    "bytes \<Rightarrow> int \<Rightarrow> WaitRequest \<Rightarrow> wait_env \<Rightarrow> pipeline_label list \<Rightarrow> pipeline \<Rightarrow> wait_world \<Rightarrow> bool"
    for rnd capacity req E where
  joint_start: "pipeline_run rnd capacity ls d \<Longrightarrow> wait_start req now (ct_store (pl_ctl d)) = Inr (E, w) \<Longrightarrow>
    joint_run rnd capacity req E ls (with_store (ww_store w) d) w"
| joint_pipe: "joint_run rnd capacity req E ls d w \<Longrightarrow> foreign E l \<Longrightarrow> pipeline_step l d = Some d' \<Longrightarrow>
    joint_run rnd capacity req E (ls @ [l]) d' (w\<lparr>ww_store := ct_store (pl_ctl d')\<rparr>)"
| joint_wait: "joint_run rnd capacity req E ls d w \<Longrightarrow> own_step E w w' \<Longrightarrow>
    joint_run rnd capacity req E ls (with_store (ww_store w') d) w'"

lemma with_store_sel [simp]:
  "pl_sub (with_store st d) = pl_sub d" "pl_hand (with_store st d) = pl_hand d"
  "ct_store (pl_ctl (with_store st d)) = st" "ct_lost (pl_ctl (with_store st d)) = ct_lost (pl_ctl d)"
  "in_transit (with_store st d) = in_transit d"
  by (simp_all add: with_store_def in_transit_def in_hand_def)

lemma with_store_same [simp]: "with_store (ct_store (pl_ctl d)) d = d"
  by (simp add: with_store_def)

text \<open>A step of the wait is at most one quiet operation on the store.\<close>

lemma own_step_op:
  assumes "own_step E w w'"
  shows "ww_store w' = ww_store w \<or> (\<exists>op. quiet_op op \<and> store_step op (ww_store w) = Some (ww_store w'))"
proof -
  have st: "wait_step E w w'" and same: "ww_pc w' = ww_pc w \<Longrightarrow> ww_store w' = ww_store w"
    using assms by (simp_all add: own_step_def)
  from st show ?thesis
  proof (cases rule: wait_step.cases)
    case (quiet_mint tok st')
    then have "quiet_op (OpMint (ww_now w) (wq_PaneID (we_req E))) \<and>
        store_step (OpMint (ww_now w) (wq_PaneID (we_req E))) (ww_store w) = Some (ww_store w')"
      by (simp add: quiet_op_def)
    then show ?thesis by blast
  next
    case (select_sig q)
    then have "quiet_op (OpRecv (we_sig E)) \<and> store_step (OpRecv (we_sig E)) (ww_store w) = Some (ww_store w')"
      by (simp add: quiet_op_def)
    then show ?thesis by blast
  qed (use same in auto)
qed

text \<open>The run of the pipeline in a joint run, with the same steps of the subscription.\<close>

lemma joint_pipeline:
  assumes "joint_run rnd capacity req E ls d w"
  shows "ct_store (pl_ctl d) = ww_store w \<and> (\<exists>ls'. pipeline_run rnd capacity ls' d \<and> sub_labels ls' = sub_labels ls)"
  using assms
proof (induction rule: joint_run.induct)
  case (joint_start ls d now w)
  have "ww_store w = snd (Store_Watch (wq_PaneID req) (ct_store (pl_ctl d)))"
    using joint_start(2) by (auto simp: wait_start_def case_prod_beta split: option.splits)
  then have "pipeline_step (Handle (OpWatch (wq_PaneID req))) d = Some (with_store (ww_store w) d)"
    by (simp add: quiet_op_def with_store_def)
  from pipe_next [OF joint_start(1) this] show ?case
    by (intro conjI exI [of _ "ls @ [Handle (OpWatch (wq_PaneID req))]"]) simp_all
next
  case (joint_pipe ls d w l d')
  then obtain ls' where "pipeline_run rnd capacity ls' d" "sub_labels ls' = sub_labels ls" by blast
  with pipe_next [OF this(1) joint_pipe(3)] show ?case by (intro conjI exI [of _ "ls' @ [l]"]) simp_all
next
  case (joint_wait ls d w w')
  then obtain ls' where ls': "pipeline_run rnd capacity ls' d" "sub_labels ls' = sub_labels ls"
    and st: "ct_store (pl_ctl d) = ww_store w" by blast
  from own_step_op [OF joint_wait(2)]
  consider "ww_store w' = ww_store w" | op where "quiet_op op" "store_step op (ww_store w) = Some (ww_store w')" by blast
  then show ?case
  proof cases
    case 1
    with ls' st with_store_same [of d] show ?thesis by auto
  next
    case 2
    then have "pipeline_step (Handle op) d = Some (with_store (ww_store w') d)"
      using st by (simp add: with_store_def)
    from pipe_next [OF ls'(1) this] ls'(2) show ?thesis by (intro conjI exI [of _ "ls' @ [Handle op]"]) simp_all
  qed
qed

lemma joint_inv:
  assumes "joint_run rnd capacity req E ls d w" and "0 < capacity"
  obtains seen H where "pipe_inv (hex_encode rnd) capacity d seen H" "ct_store (pl_ctl d) = ww_store w"
  using joint_pipeline [OF assms(1)] pipe_inv_run [OF _ assms(2)] by blast

text \<open>What the pipeline does is for the wait a step of the others, or nothing.\<close>

lemma pipe_step_others:
  assumes "pipeline_step l d = Some d'" and "foreign E l" and "ct_store (pl_ctl d) = ww_store w"
  shows "w\<lparr>ww_store := ct_store (pl_ctl d')\<rparr> = w \<or> wait_step E w (w\<lparr>ww_store := ct_store (pl_ctl d')\<rparr>)"
proof (cases l)
  case (Sub sl)
  with assms have "ct_store (pl_ctl d') = ww_store w" by (auto split: if_splits)
  then show ?thesis by simp
next
  case Take
  with assms have "ct_store (pl_ctl d') = ww_store w" by (auto split: if_splits)
  then show ?thesis by simp
next
  case (Apply now)
  with assms(1) obtain ev c where ev: "pl_hand d = Some ev" "drain_event now ev (pl_ctl d) = Some c" "pl_ctl d' = c"
    by (auto split: option.splits)
  show ?thesis
  proof (cases ev)
    case (Output q p)
    with ev(2) obtain st where "Store_Append now q p (ct_store (pl_ctl d)) = Some st" "c = (pl_ctl d)\<lparr>ct_store := st\<rparr>"
      by (auto simp: drain_event_def)
    with ev(3) assms(3) have "store_step (OpAppend now q p) (ww_store w) = Some (ct_store (pl_ctl d'))" by simp
    then show ?thesis using others [of E "OpAppend now q p" w] by (simp add: others_op_def)
  next
    case (Closed q)
    with ev assms(3) have "store_step (OpForget q) (ww_store w) = Some (ct_store (pl_ctl d'))"
      by (auto simp: drain_event_def)
    then show ?thesis using others [of E "OpForget q" w] by (simp add: others_op_def)
  next
    case ServerLost
    with ev assms(3) have "ct_store (pl_ctl d') = ww_store w" by (auto simp: drain_event_def)
    then show ?thesis by simp
  qed
next
  case (Handle op)
  with assms have "others_op (we_sig E) op" "store_step op (ww_store w) = Some (ct_store (pl_ctl d'))"
    by (auto simp: foreign_def split: if_splits)
  then show ?thesis using others by blast
qed

lemma joint_ok:
  assumes "joint_run rnd capacity req E ls d w" and "0 < capacity"
  shows "wait_ok (hex_encode rnd) E w \<and> we_req E = req"
  using assms(1)
proof (induction rule: joint_run.induct)
  case (joint_start ls d now w)
  from pipe_inv_run [OF joint_start(1) assms(2)] obtain seen H where "pipe_inv (hex_encode rnd) capacity d seen H" by blast
  then have "store_rep (ct_store (pl_ctl d)) H" "st_instance (ct_store (pl_ctl d)) = hex_encode rnd"
    by (simp_all add: pipe_inv_def)
  with wait_ok_start(1,3) [OF joint_start(2)] show ?case by metis
next
  case (joint_pipe ls d w l d')
  have "ct_store (pl_ctl d) = ww_store w" using joint_pipeline [OF joint_pipe(1)] by blast
  from pipe_step_others [OF joint_pipe(3,2) this] joint_pipe.IH wait_ok_step show ?case by metis
next
  case (joint_wait ls d w w')
  then show ?case using wait_ok_step by (auto simp: own_step_def)
qed

subsection \<open>Continuing a joint run\<close>

lemma joint_own:
  assumes "own_run E w w'" and "joint_run rnd capacity req E ls d w"
  shows "joint_run rnd capacity req E ls (with_store (ww_store w') d) w'"
  using assms(1) unfolding own_run_def
proof (induction rule: rtranclp_induct)
  case base
  from joint_pipeline [OF assms(2)] assms(2) show ?case by (metis with_store_same)
next
  case (step w1 w2)
  from joint_wait [OF step.IH step.hyps(2)] show ?case by (simp add: with_store_def)
qed

lemma joint_exec:
  assumes "joint_run rnd capacity req E ls d w" and "pipeline_exec ls' d = Some d'" and "list_all (foreign E) ls'"
  shows "joint_run rnd capacity req E (ls @ ls') d' (w\<lparr>ww_store := ct_store (pl_ctl d')\<rparr>)"
  using assms
proof (induction ls' arbitrary: ls d w)
  case Nil
  with joint_pipeline [OF Nil(1)] show ?case by simp
next
  case (Cons l ls')
  from Cons.prems(2) obtain d1 where d1: "pipeline_step l d = Some d1" "pipeline_exec ls' d1 = Some d'"
    by (auto simp: bind_eq_Some_conv)
  from Cons.IH [OF joint_pipe [OF Cons.prems(1) _ d1(1)] d1(2)] Cons.prems(3) show ?case by simp
qed

text \<open>\<open>drain\<close> alone empties the channel; from there on the wait alone acts.\<close>

lemma joint_drains:
  assumes run: "joint_run rnd capacity req E ls d w" and "0 < capacity"
  shows "\<exists>ls' d'. set ls' \<subseteq> {Take, Apply now} \<and> pipeline_exec ls' d = Some d' \<and> in_transit d' = [] \<and>
    pl_sub d' = (pl_sub d)\<lparr>sb_taken := length (sb_sent (pl_sub d))\<rparr> \<and>
    joint_run rnd capacity req E (ls @ ls') d' (w\<lparr>ww_store := ct_store (pl_ctl d')\<rparr>)"
proof -
  from joint_pipeline [OF run] obtain ks where "pipeline_run rnd capacity ks d" by blast
  from pipeline_drains [OF this assms(2), of now] obtain ls' d' where
    d': "set ls' \<subseteq> {Take, Apply now}" "pipeline_exec ls' d = Some d'" "in_transit d' = []"
      "pl_sub d' = (pl_sub d)\<lparr>sb_taken := length (sb_sent (pl_sub d))\<rparr>" by blast
  from d'(1) have "list_all (foreign E) ls'" by (auto simp: list_all_iff foreign_def)
  from joint_exec [OF run d'(2) this] d' show ?thesis by blast
qed

text \<open>With the reader's help, everything it has read is brought to the wait.\<close>

lemma joint_flushes:
  assumes run: "joint_run rnd capacity req E ls d w" and "0 < capacity"
    and i: "i < length (sb_readers (pl_sub d))" "\<not> pt_done (sb_readers (pl_sub d) ! i)"
  shows "\<exists>ls' d'. set ls' \<subseteq> {Take, Apply now, Sub (ReaderSend i)} \<and> in_transit d' = [] \<and>
    sb_sent (pl_sub d') = sb_sent (pl_sub d) @ held (sb_readers (pl_sub d) ! i) \<and>
    map pt_pane (sb_readers (pl_sub d')) = map pt_pane (sb_readers (pl_sub d)) \<and>
    \<not> pt_done (sb_readers (pl_sub d') ! i) \<and> pt_pending (sb_readers (pl_sub d') ! i) = None \<and>
    joint_run rnd capacity req E (ls @ ls') d' (w\<lparr>ww_store := ct_store (pl_ctl d')\<rparr>)"
proof -
  from joint_pipeline [OF run] obtain ks where "pipeline_run rnd capacity ks d" by blast
  from pipeline_flushes [OF this assms(2) i, of now] obtain ls' d' where
    d': "set ls' \<subseteq> {Take, Apply now, Sub (ReaderSend i)}" "pipeline_exec ls' d = Some d'"
    and r: "in_transit d' = []" "sb_sent (pl_sub d') = sb_sent (pl_sub d) @ held (sb_readers (pl_sub d) ! i)"
      "map pt_pane (sb_readers (pl_sub d')) = map pt_pane (sb_readers (pl_sub d))"
      "\<not> pt_done (sb_readers (pl_sub d') ! i)" "pt_pending (sb_readers (pl_sub d') ! i) = None" by blast
  from d'(1) have "list_all (foreign E) ls'" by (auto simp: list_all_iff foreign_def)
  from joint_exec [OF run d'(2) this] d'(1) r show ?thesis by blast
qed

subsection \<open>What the wait reads\<close>


lemma pipe_readable:
  assumes inv: "pipe_inv inst capacity d seen H" and nc: "Closed p \<notin> set seen" and "out_bytes p seen \<noteq> []"
    and "decodeToken after = Inr tp" "tp_I tp = inst" "tp_P tp = p" "0 \<le> tp_O tp"
    and "int (length (out_bytes p seen)) - capacity \<le> tp_O tp" "tp_O tp \<le> int (length (out_bytes p seen))"
  shows "\<exists>tok. Store_Read now p after (ct_store (pl_ctl d)) (ct_store (pl_ctl d)) =
    Inr (drop (nat (tp_O tp)) (out_bytes p seen), tok)"
proof -
  have rep: "store_rep (ct_store (pl_ctl d)) H" and k: "known_stream H p = out_bytes p seen"
    and st: "st_instance (ct_store (pl_ctl d)) = inst" "st_capacity (ct_store (pl_ctl d)) = capacity"
    using inv nc by (auto simp: pipe_inv_def)
  from k assms(3) have "H p = Some (out_bytes p seen)" by (cases "H p") auto
  with st assms(4-) show ?thesis
    unfolding Store_Read_rep [OF rep rep refl] stream_read_def by auto
qed









subsection \<open>The closing of the pane\<close>

text \<open>The closing is the last word on the pane: on its way with no output behind it, or applied.\<close>

definition closing :: "PaneID \<Rightarrow> pipeline \<Rightarrow> bool" where
  "closing p d \<longleftrightarrow> (\<exists>xs ys. in_transit d = xs @ Closed p # ys \<and> (\<forall>e. Output p e \<notin> set ys)) \<or>
     st_bufs (ct_store (pl_ctl d)) p = None \<and> (\<forall>e. Output p e \<notin> set (in_transit d))"

lemma closing_drain:
  assumes c: "closing p d" and inv: "pipe_inv inst capacity d seen H" and l: "l \<in> {Take, Apply now}"
    and st: "pipeline_step l d = Some d'"
  shows "closing p d'"
proof (cases "l = Take")
  case True
  with st have "d' = d\<lparr>pl_sub := (pl_sub d)\<lparr>sb_taken := Suc (sb_taken (pl_sub d))\<rparr>,
      pl_hand := Some (sb_sent (pl_sub d) ! sb_taken (pl_sub d))\<rparr>" "pl_hand d = None"
      "sb_taken (pl_sub d) < length (sb_sent (pl_sub d))" by (auto split: if_splits)
  then have "in_transit d' = in_transit d" "pl_ctl d' = pl_ctl d"
    by (simp_all add: in_transit_def in_hand_def Cons_nth_drop_Suc)
  with c show ?thesis by (simp add: closing_def)
next
  case False
  with l st obtain ev c' where ev: "pl_hand d = Some ev" "drain_event now ev (pl_ctl d) = Some c'"
    "d' = d\<lparr>pl_hand := None, pl_ctl := c'\<rparr>" by (auto split: option.splits)
  have t: "in_transit d = ev # in_transit d'" using ev by (simp add: in_transit_def in_hand_def)
  have rep: "store_rep (ct_store (pl_ctl d)) H" using inv by (simp add: pipe_inv_def)
  have gone: "st_bufs (ct_store c') p = None"
    if "st_bufs (ct_store (pl_ctl d)) p = None" "\<forall>e. ev \<noteq> Output p e"
  proof (cases ev)
    case (Output q e)
    obtain s' where s': "Store_Append now q e (ct_store (pl_ctl d)) = Some s'"
      "store_rep s' (if e = [] then H else H(q \<mapsto> known_stream H q @ e))"
      using Store_Append_rep [OF rep, of now q e] .
    then have c': "ct_store c' = s'" using ev(2) Output by (auto simp: drain_event_def)
    have "q \<noteq> p" using that(2) Output by blast
    moreover have "H p = None" using that(1) store_rep_dom [OF rep] by blast
    ultimately have "(if e = [] then H else H(q \<mapsto> known_stream H q @ e)) p = None" by simp
    with store_rep_dom [OF s'(2), of p] show ?thesis unfolding c' by blast
  next
    case (Closed q)
    with ev(2) have "ct_store c' = Store_Forget q (ct_store (pl_ctl d))" by (auto simp: drain_event_def)
    with that(1) show ?thesis by (simp add: Store_Forget_def)
  next
    case ServerLost
    with ev(2) have "ct_store c' = ct_store (pl_ctl d)" by (auto simp: drain_event_def)
    with that(1) show ?thesis by simp
  qed
  from c show ?thesis unfolding closing_def
  proof (elim disjE exE conjE)
    fix xs ys assume x: "in_transit d = xs @ Closed p # ys" "\<forall>e. Output p e \<notin> set ys"
    show "(\<exists>xs ys. in_transit d' = xs @ Closed p # ys \<and> (\<forall>e. Output p e \<notin> set ys)) \<or>
      st_bufs (ct_store (pl_ctl d')) p = None \<and> (\<forall>e. Output p e \<notin> set (in_transit d'))"
    proof (cases xs)
      case Nil
      with x t have "ev = Closed p" "in_transit d' = ys" by auto
      with ev x(2) show ?thesis by (auto simp: drain_event_def Store_Forget_def)
    next
      case (Cons a as)
      with x t have "in_transit d' = as @ Closed p # ys" by auto
      with x(2) show ?thesis by blast
    qed
  next
    assume "st_bufs (ct_store (pl_ctl d)) p = None" "\<forall>e. Output p e \<notin> set (in_transit d)"
    then have "\<forall>e. ev \<noteq> Output p e" "\<forall>e. Output p e \<notin> set (in_transit d')" "st_bufs (ct_store (pl_ctl d)) p = None"
      unfolding t by auto
    with gone have "st_bufs (ct_store (pl_ctl d')) p = None \<and> (\<forall>e. Output p e \<notin> set (in_transit d'))"
      by (simp add: ev(3))
    then show "(\<exists>xs ys. in_transit d' = xs @ Closed p # ys \<and> (\<forall>e. Output p e \<notin> set ys)) \<or>
      st_bufs (ct_store (pl_ctl d')) p = None \<and> (\<forall>e. Output p e \<notin> set (in_transit d'))" by blast
  qed
qed

lemma closing_drained:
  assumes "pipeline_run rnd capacity ls d" and "0 < capacity" and "closing p d"
    and "pipeline_exec ls' d = Some d'" and "set ls' \<subseteq> {Take, Apply now}"
  shows "closing p d'"
  using assms
proof (induction ls' arbitrary: ls d)
  case (Cons l ls')
  from Cons.prems(4) obtain d1 where d1: "pipeline_step l d = Some d1" "pipeline_exec ls' d1 = Some d'"
    by (auto simp: bind_eq_Some_conv)
  from pipe_inv_run [OF Cons.prems(1,2)] obtain seen H where "pipe_inv (hex_encode rnd) capacity d seen H" by blast
  from closing_drain [OF Cons.prems(3) this _ d1(1), of now] Cons.prems(5) have "closing p d1" by simp
  from Cons.IH [OF pipe_next [OF Cons.prems(1) d1(1)] Cons.prems(2) this d1(2)] Cons.prems(5) show ?case by simp
qed simp

subsection \<open>The conditions of the properties\<close>

definition sole_reader :: "pipeline \<Rightarrow> nat \<Rightarrow> PaneID \<Rightarrow> bool" where
  "sole_reader d i p \<longleftrightarrow> i < length (sb_readers (pl_sub d)) \<and> pt_pane (sb_readers (pl_sub d) ! i) = p \<and>
     readers_of p (pl_sub d) = 1 \<and> Closed p \<notin> set (sb_sent (pl_sub d))"

text \<open>A token of this daemon for the pane, in the window that is retained of \<open>n\<close> bytes.\<close>

definition token_within :: "bytes \<Rightarrow> int \<Rightarrow> Token \<Rightarrow> PaneID \<Rightarrow> nat \<Rightarrow> nat \<Rightarrow> bool" where
  "token_within rnd capacity after p n off \<longleftrightarrow> (\<exists>tp. decodeToken after = Inr tp \<and> tp_I tp = hex_encode rnd \<and>
     tp_P tp = p \<and> tp_O tp = int off \<and> int n - capacity \<le> int off \<and> off \<le> n)"


subsection \<open>A sample\<close>

definition sample_sub :: "PaneOutput list \<Rightarrow> subscription" where
  "sample_sub sent = Adapter_Subscribe\<lparr>sb_trackers := [(''%1'', 0)],
     sb_readers := [\<lparr>pt_pane = ''%1'', pt_open = True, pt_pending = None, pt_done = False\<rparr>], sb_sent := sent, sb_taken := 1\<rparr>"

lemma sample_pipe:
  assumes "data \<noteq> []" and "length data \<le> 4096"
  shows "\<exists>d. pipeline_run ''AB'' 64 [Sub (Lists [''%1''] [''%1''] []), Sub (ReaderRead 0 data), Sub (ReaderSend 0), Take, Apply 3] d \<and>
    pl_sub d = sample_sub [Output ''%1'' data] \<and> pl_hand d = None \<and> store_rep (ct_store (pl_ctl d)) [''%1'' \<mapsto> data] \<and>
    st_instance (ct_store (pl_ctl d)) = ''4142'' \<and> st_capacity (ct_store (pl_ctl d)) = 64"
proof -
  let ?ls = "[Sub (Lists [''%1''] [''%1''] []), Sub (ReaderRead 0 data), Sub (ReaderSend 0), Take, Apply 3]"
  have new: "store_rep (Store_New ''AB'' 64) Map.empty" by (rule store_rep_new) simp
  obtain st where st: "Store_Append 3 ''%1'' data (Store_New ''AB'' 64) = Some st"
    "store_rep st (if data = [] then Map.empty else [''%1'' \<mapsto> known_stream Map.empty ''%1'' @ data])"
    "st_instance st = st_instance (Store_New ''AB'' 64)" "st_capacity st = st_capacity (Store_New ''AB'' 64)"
    using Store_Append_rep [OF new, of 3 "''%1''" data] .
  obtain d where d: "pipeline_exec ?ls (pipeline_start ''AB'' 64) = Some d" "pl_sub d = sample_sub [Output ''%1'' data]"
    "pl_hand d = None" "ct_store (pl_ctl d) = st"
    using st(1) assms by (simp add: pipeline_eval sample_sub_def)
  have "pipeline_run ''AB'' 64 ?ls d" using pipeline_exec_run [OF pipe_start d(1)] by simp
  with d st assms(1) witness_token(2) show ?thesis by (intro exI [of _ d]) (simp add: Store_New_def)
qed

text \<open>The wait for a sentinel from the start of the pane's stream, after its first read.\<close>

lemma sample_joint:
  assumes "data \<noteq> []" and "length data \<le> 64"
  shows "\<exists>ls d E w tok. joint_run ''AB'' 64 (sample_wait WaitModeSentinel) E ls d w \<and> pl_hand d = None \<and>
    sub_labels ls = [Lists [''%1''] [''%1''] [], ReaderRead 0 data, ReaderSend 0, Receive] \<and>
    pl_sub d = sample_sub [Output ''%1'' data] \<and> we_req E = sample_wait WaitModeSentinel \<and>
    ww_pc w = after_read E False (Inr (data, tok))"
proof -
  from sample_pipe [OF assms(1)] assms(2) obtain d where
    d: "pipeline_run ''AB'' 64 [Sub (Lists [''%1''] [''%1''] []), Sub (ReaderRead 0 data), Sub (ReaderSend 0), Take, Apply 3] d"
      "pl_sub d = sample_sub [Output ''%1'' data]" "pl_hand d = None"
    and rep: "store_rep (ct_store (pl_ctl d)) [''%1'' \<mapsto> data]"
      "st_instance (ct_store (pl_ctl d)) = ''4142''" "st_capacity (ct_store (pl_ctl d)) = 64" by auto
  let ?req = "sample_wait WaitModeSentinel"
  have "wait_validate ?req = None" by (rule sample_valid) simp
  from wait_start_passes [OF this] obtain E w0 where E: "wait_start ?req 20 (ct_store (pl_ctl d)) = Inr (E, w0)" by blast
  note start = wait_ok_start [OF E rep(1)]
  have "utf8_valid ''4142''" "utf8_valid ''%1''" by code_simp+
  with rep assms(2) have c: "at_checkpoint ?req (ct_store (pl_ctl d)) [''%1'' \<mapsto> data] [] data 5"
    by (simp add: at_checkpoint_def sample_wait_def in_int64_def int64_min_def int64_max_def)
  have c0: "at_checkpoint (we_req E) (ww_store w0) [''%1'' \<mapsto> data] [] data 5"
    using checkpoint_start(1) [OF E c] start(3) by simp
  from checkpoint_reads [OF c0, of "ww_now w0"] obtain tok where r: "reads_now E w0 = Inr (data, tok)"
    by (simp add: reads_now_def)
  let ?w = "w0\<lparr>ww_pc := after_read E False (reads_now E w0)\<rparr>"
  have "own_run E w0 ?w" by (rule read_alone [OF start(2) checkpoint_known [OF c0]])
  from joint_own [OF this joint_start [OF d(1) E]] d(2,3) start(3) r show ?thesis
    by (intro exI conjI) (assumption, simp_all)
qed

subsection \<open>Properties\<close>

text \<open>C11: output wakes a wait. Take a sentinel or regex wait that is asleep beside the running
  controller, in any interleaving, on a pane with one reader, which is running, that was not
  announced closed, and with a token of this daemon for the pane whose offset is in the
  window that is retained of what the FIFO has delivered. As soon as the delivered bytes from
  that offset on match, the wait can answer without the clock moving: \<open>drain\<close>, the reader's
  sending of the chunk it may hold and the steps of the wait alone get there, and the answer
  is the evaluator's on exactly these bytes.\<close>

theorem output_wakes_wait:
  assumes run: "joint_run rnd capacity req E ls d w" and cap: "0 < capacity" and "ww_pc w = WBlock"
    and rd: "sole_reader d i (wq_PaneID req)" "\<not> pt_done (sb_readers (pl_sub d) ! i)"
    and ne: "read_by i (sub_labels ls) \<noteq> []"
    and tok: "token_within rnd capacity (wq_After req) (wq_PaneID req) (length (read_by i (sub_labels ls))) off"
    and m: "wait_match req (drop off (read_by i (sub_labels ls))) [] \<noteq> None"
  shows "\<exists>ls' d' w' r t. set ls' \<subseteq> {Take, Apply now, Sub (ReaderSend i)} \<and>
    joint_run rnd capacity req E (ls @ ls') d' w' \<and> ww_now w' = ww_now w \<and> ww_pc w' = WDone (Inr r) \<and>
    wait_match req (drop off (read_by i (sub_labels ls))) t = Some r"
proof -
  let ?B = "read_by i (sub_labels ls)"
  have i: "i < length (sb_readers (pl_sub d))" "pt_pane (sb_readers (pl_sub d) ! i) = wq_PaneID req"
    "readers_of (wq_PaneID req) (pl_sub d) = 1" "Closed (wq_PaneID req) \<notin> set (sb_sent (pl_sub d))"
    using rd(1) by (simp_all add: sole_reader_def)
  from joint_flushes [OF run cap i(1) rd(2), of now] obtain ls' d' where
    d': "set ls' \<subseteq> {Take, Apply now, Sub (ReaderSend i)}" "in_transit d' = []"
      "sb_sent (pl_sub d') = sb_sent (pl_sub d) @ held (sb_readers (pl_sub d) ! i)"
      "map pt_pane (sb_readers (pl_sub d')) = map pt_pane (sb_readers (pl_sub d))"
      "\<not> pt_done (sb_readers (pl_sub d') ! i)" "pt_pending (sb_readers (pl_sub d') ! i) = None"
    and run': "joint_run rnd capacity req E (ls @ ls') d' (w\<lparr>ww_store := ct_store (pl_ctl d')\<rparr>)" by blast
  let ?w = "w\<lparr>ww_store := ct_store (pl_ctl d')\<rparr>"
  obtain seen H where inv: "pipe_inv (hex_encode rnd) capacity d' seen H" using joint_inv [OF run' cap] .
  with d'(2) have seen: "seen = sb_sent (pl_sub d')" by (simp add: pipe_inv_def)
  have nc: "Closed (wq_PaneID req) \<notin> set seen" using i(4) held_other unfolding seen d'(3) by auto
  from joint_pipeline [OF run'] obtain ks where ks: "pipeline_run rnd capacity ks d'" "sub_labels ks = sub_labels (ls @ ls')" by blast
  have "read_by i (sub_labels ks) = ?B" unfolding ks(2) by (rule drain_reads [OF d'(1)])
  from flushed_bytes [OF ks(1) this i(1) d'(4) _ d'(5,6)] i(2,3) have B: "?B = out_bytes (wq_PaneID req) seen"
    by (simp add: seen)
  from tok obtain tp where tp: "decodeToken (wq_After req) = Inr tp" "tp_I tp = hex_encode rnd" "tp_P tp = wq_PaneID req"
    "tp_O tp = int off" "int (length ?B) - capacity \<le> int off" "off \<le> length ?B" by (auto simp: token_within_def)
  from pipe_readable [OF inv nc _ tp(1-3), of 0] ne tp(4-6) obtain t where
    "Store_Read 0 (wq_PaneID req) (wq_After req) (ct_store (pl_ctl d')) (ct_store (pl_ctl d')) = Inr (drop off ?B, t)"
    by (auto simp: B)
  moreover have E: "wait_ok (hex_encode rnd) E ?w" "we_req E = req" using joint_ok [OF run' cap] by auto
  ultimately have "wait_output E (ww_store ?w) = Inr (drop off ?B)" by (simp add: wait_output_def)
  from wake_alone [OF E(1) _ this] m E(2) assms(3) obtain w' r t where
    w': "own_run E ?w w'" "ww_pc w' = WDone (Inr r)" "ww_now w' = ww_now w" "wait_match req (drop off ?B) t = Some r"
    by (auto simp: matches_def)
  from joint_own [OF w'(1) run'] d'(1) w'(2-4) show ?thesis by blast
qed

text \<open>The wait has seen the first byte; the reader still holds the sentinel.\<close>

theorem output_wakes_wait_witness:
  "\<exists>E ls d w r. joint_run ''AB'' 64 (sample_wait WaitModeSentinel) E ls d w \<and> ww_pc w = WDone (Inr r) \<and>
     wr_exit_code r = Some 0 \<and> read_by 0 (sub_labels ls) = ''x__DONE__:t:0''"
proof -
  let ?req = "sample_wait WaitModeSentinel"
  obtain ls d E w tok where s: "joint_run ''AB'' 64 ?req E ls d w" "pl_hand d = None"
    "sub_labels ls = [Lists [''%1''] [''%1''] [], ReaderRead 0 ''x'', ReaderSend 0, Receive]"
    "pl_sub d = sample_sub [Output ''%1'' ''x'']" "we_req E = ?req" "ww_pc w = after_read E False (Inr (''x'', tok))"
    using sample_joint [of "''x''"] by auto
  have x: "MatchSentinel (StripANSIAndCR ''x'') ''t'' = None" by code_simp
  have B: "map_option sm_ExitCode (MatchSentinel (StripANSIAndCR ''x__DONE__:t:0'') ''t'') = Some 0" by code_simp
  have blk: "ww_pc w = WBlock" using s(5,6) x by (simp add: after_read_def wait_match_def sample_wait_def)
  let ?more = "[Sub (ReaderRead 0 ''__DONE__:t:0'')]"
  obtain d1 where d1: "pipeline_exec ?more d = Some d1" "sole_reader d1 0 ''%1''" "\<not> pt_done (sb_readers (pl_sub d1) ! 0)"
    using s(4) by (simp add: sample_sub_def sole_reader_def pipeline_eval)
  have "list_all (foreign E) ?more" by (simp add: foreign_def)
  note run = joint_exec [OF s(1) d1(1) this]
  have rb: "read_by 0 (sub_labels (ls @ ?more)) = ''x__DONE__:t:0''" by (simp add: s(3) read_by_def)
  have v: "utf8_valid ''4142''" "utf8_valid ''%1''" by code_simp+
  have tok: "token_within ''AB'' 64 (wq_After ?req) ''%1'' (length ''x__DONE__:t:0'') 0"
    using v by (simp add: token_within_def sample_wait_def decode_encode in_int64_def int64_min_def int64_max_def witness_token(2))
  have m: "wait_match ?req (drop 0 ''x__DONE__:t:0'') [] \<noteq> None"
    using B by (auto simp: wait_match_def sample_wait_def)
  have pid: "wq_PaneID ?req = ''%1''" by (simp add: sample_wait_def)
  from output_wakes_wait [OF run _ _ _ d1(3), of 0 9, unfolded rb pid, OF _ _ d1(2) _ tok m] blk obtain ls' d' w' r t where
    r: "set ls' \<subseteq> {Take, Apply 9, Sub (ReaderSend 0)}" "joint_run ''AB'' 64 ?req E ((ls @ ?more) @ ls') d' w'" "ww_pc w' = WDone (Inr r)"
    "wait_match ?req (drop 0 ''x__DONE__:t:0'') t = Some r" by auto
  have "wr_exit_code r = Some 0" using r(4) B by (auto simp: wait_match_def sample_wait_def)
  moreover have "read_by 0 (sub_labels ((ls @ ?more) @ ls')) = ''x__DONE__:t:0''"
    using drain_reads [OF r(1), of 0 "ls @ ?more"] rb by simp
  ultimately show ?thesis using r(2,3) by blast
qed



text \<open>C13: the end of a pane ends its wait. When the closing of the pane is on its way, or
  applied, with no output of the pane behind it, a sentinel or regex wait that is asleep can
  answer PANE_CLOSED without the clock moving: \<open>drain\<close> and the wait alone get there.\<close>

theorem closing_ends_wait:
  assumes run: "joint_run rnd capacity req E ls d w" and cap: "0 < capacity" and "ww_pc w = WBlock"
    and "closing (wq_PaneID req) d"
  shows "\<exists>ls' d' w'. set ls' \<subseteq> {Take, Apply now} \<and> joint_run rnd capacity req E (ls @ ls') d' w' \<and>
    ww_now w' = ww_now w \<and> ww_pc w' = WDone (Inl (Command (error_response (wq_PaneID req) ErrPaneClosed
      ''pane was destroyed while wait was pending'')))"
proof -
  from joint_drains [OF run cap, of now] obtain ls' d' where
    d': "set ls' \<subseteq> {Take, Apply now}" "pipeline_exec ls' d = Some d'" "in_transit d' = []"
    and run': "joint_run rnd capacity req E (ls @ ls') d' (w\<lparr>ww_store := ct_store (pl_ctl d')\<rparr>)" by blast
  from joint_pipeline [OF run] obtain ks where "pipeline_run rnd capacity ks d" by blast
  from closing_drained [OF this cap assms(4) d'(2,1)] d'(3)
  have gone: "st_bufs (ct_store (pl_ctl d')) (wq_PaneID req) = None" by (simp add: closing_def)
  let ?w = "w\<lparr>ww_store := ct_store (pl_ctl d')\<rparr>"
  have E: "wait_ok (hex_encode rnd) E ?w" "we_req E = req" using joint_ok [OF run' cap] by auto
  from closed_alone [OF E(1)] gone assms(3) E(2) obtain w' where
    w': "own_run E ?w w'" "ww_now w' = ww_now w" "ww_pc w' = WDone (Inl (wait_read_error (wq_PaneID req) True ErrPaneUnknown))"
    by auto
  from joint_own [OF w'(1) run'] d'(1) w'(2,3) show ?thesis by (auto simp: wait_read_error_def)
qed

theorem closing_ends_wait_witness:
  "\<exists>E ls d w. joint_run ''AB'' 64 (sample_wait WaitModeSentinel) E ls d w \<and>
     ww_pc w = WDone (Inl (Command (error_response ''%1'' ErrPaneClosed ''pane was destroyed while wait was pending'')))"
proof -
  let ?req = "sample_wait WaitModeSentinel"
  obtain ls d E w tok where s: "joint_run ''AB'' 64 ?req E ls d w" "pl_hand d = None"
    "pl_sub d = sample_sub [Output ''%1'' ''x'']" "we_req E = ?req" "ww_pc w = after_read E False (Inr (''x'', tok))"
    using sample_joint [of "''x''"] by auto
  have "MatchSentinel (StripANSIAndCR ''x'') ''t'' = None" by code_simp
  with s(4,5) have blk: "ww_pc w = WBlock" by (simp add: after_read_def wait_match_def sample_wait_def)
  let ?more = "[Sub (Lists [] [] [''%1'']), Sub StopNext, Sub SyncSend]"
  obtain d1 where d1: "pipeline_exec ?more d = Some d1" "in_transit d1 = [Closed ''%1'']"
    using s(2,3) by (simp add: sample_sub_def pipeline_eval stop_tracker_def)
  have "list_all (foreign E) ?more" by (simp add: foreign_def)
  note run = joint_exec [OF s(1) d1(1) this]
  have "closing (wq_PaneID ?req) d1"
    unfolding closing_def using d1(2) by (intro disjI1 exI [of _ "[]"]) (simp add: sample_wait_def)
  from closing_ends_wait [OF run _ _ this, of 9] blk show ?thesis by (auto simp: sample_wait_def)
qed

end
