(* ===== verification/Spec2Isabelle.thy ===== *)
theory Spec2Isabelle
  imports EndToEnd WaitPipeline
begin

section \<open>tpctl: a model of tmux-pane-control\<close>

text \<open>
  \<^bold>\<open>The program.\<close> \<open>tpctl\<close> lets an agent drive tmux panes. A short-lived command line
  process sends one request over a Unix socket to a long-lived daemon, one per tmux server.
  The daemon subscribes to the output of all panes, keeps the last bytes of each pane in a
  ring, hands out checkpoint tokens that name positions in these streams, and answers
  reads and waits relative to a token. The conformance harness runs the binary against a
  tmux server of its own.

  \<^bold>\<open>How the parts interact.\<close> \<open>Run\<close> (Cli) parses the arguments (CliArgs, Flags), resolves
  the tmux server (Sockets) and makes sure a daemon runs (Startup), and sends a request (Server,
  Protocol). The daemon's handler decodes it and calls \<open>Dispatch\<close> (Dispatch), which calls
  the controller (Controller, Wait). The controller uses tmux through the port (Tmuxctl)
  and the output store (Store over Buffer, with the tokens of Tokens); texts pass through
  Textnorm, matches through Waiter. Beside the handlers, \<open>drain\<close> (Controller) copies the
  events of the subscription (Subscribe) into the store, which wakes the waits; Pipeline is
  the three together. Daemon
  holds the life of the daemon process and \<open>daemon --stop\<close>.

  \<^bold>\<open>Theories and sources.\<close>
  \<^item> Prelude, Strconv, Base64, Json, RawJson, Fmt, Flags: what the sources use of Go's
    standard library (strings, integers and their width, \<open>strconv\<close>, \<open>encoding/base64\<close>,
    \<open>encoding/json\<close> with UTF-8, \<open>fmt\<close>'s \<open>%q\<close>, \<open>flag\<close>), with the lemmas on them.
  \<^item> Domain: \<open>internal/domain\<close>. Error values of Go are the datatype \<open>go_error\<close>.
  \<^item> Buffer, Tokens, Store: \<open>internal/store\<close>. \<open>Buffer\<close> is the record of the ring, \<open>Store\<close> the
    record of the mutex-protected state; each critical section is one function.
  \<^item> Textnorm: \<open>internal/textnorm\<close>. Waiter: \<open>internal/waiter\<close>.
  \<^item> Tmuxctl: \<open>internal/tmuxctl/port.go, adapter.go, fake.go\<close>; the interface \<open>Port\<close> is the
    locale \<open>port\<close>, interpreted for the adapter and for the fake. Subscribe:
    \<open>subscribe_unix.go\<close>, one step per action of the sync loop, a reader, or the consumer.
  \<^item> Controller: \<open>internal/controller\<close> without \<open>wait.go\<close>, which is theory Wait: validation,
    and the loop as the step relation \<open>wait_step\<close> interleaved with the rest of the daemon;
    WaitOutcome holds what its answers mean.
    Pipeline: the methods of \<open>Controller\<close>, and \<open>pipeline_step\<close>, which interleaves the steps of
    the subscription, the loop of \<open>drain\<close> (take an event, apply it) and the handlers.
    WaitPipeline has no code of its own: \<open>joint_run\<close> synchronises a wait with that system on
    the store they share.
  \<^item> Protocol, Dispatch, Server, Sockets, Startup: \<open>internal/ipc\<close>. Sockets holds the paths. The handler and the client are
    functions of the bytes exchanged; \<open>sock_step\<close> is the life of daemons on one socket path
    (\<open>Listen\<close>, \<open>Serve\<close>, \<open>Close\<close>), \<open>ensure_step\<close> the race of clients in \<open>EnsureDaemon\<close>.
  \<^item> CliArgs, Cli, Daemon: \<open>internal/cli\<close>. The outcome of a command is its output, its
    diagnostics and its exit code, or no return.
    \<open>tpctl_main\<close> is \<open>cmd/tpctl/main.go\<close>.
  \<^item> Harness: \<open>conformance/harness/harness.go\<close>, over the binary, tmux and the clock.
  \<^item> Payloads, EndToEnd: no code of their own. The contract of a payload (locale \<open>payload\<close>,
    interpreted on all four), the way of a command from its words to tmux and back, and its
    \<open>verdict\<close>, which the exit code has to tell.

  \<^bold>\<open>What the lemmas show.\<close>
  \<^item> The store: \<open>retained_stream\<close> and \<open>checkpoint_store\<close> state the contracts of ring and store;
    the properties say that reads with tokens return exactly what was appended, once and
    in order, in any interleaving, and which tokens are refused.
  \<^item> The texts: stripping removes escape sequences and keeps the printable bytes;
    \<open>Normalize\<close> yields clean text and is idempotent; the sentinel search agrees with the
    plain scan.
  \<^item> The subscription: server loss is reported once, after three failures in a row; a reader
    forwards all bytes in order (\<open>reader_forwards_all\<close>); panes are closed once. Pipeline adds
    the store: the bytes of a FIFO are those stored, those in the channel and those its
    reader holds; a running reader and \<open>drain\<close> bring them all into the store, and reads return them.
  \<^item> Waits: what is accepted, that every success and failure is justified by what happened
    during the wait, that no wake-up is lost, and that a wait left alone stops within eleven steps:
    with an outcome, or asleep before its deadline with nothing ready. Beside the running
    controller, a wait answers on what the FIFO of its pane delivered from its token on, hands
    out the token that ends there, and output that matches or the closing of the pane ends it
    through the controller's goroutines and its own steps, without the clock.
  \<^item> The wire: \<open>line_codec\<close> is the contract of a message per line, interpreted for requests
    and responses; a call over the socket is a call of \<open>Dispatch\<close>; responses are well typed
    for every sequence of requests.
  \<^item> The processes: at most one daemon serves; no command is stuck in the race, whatever
    failed before; shutdown ends within three seconds and \<open>daemon --stop\<close> sees it; the stages
    of a daemon are linearly ordered and it only goes forward in them.
  \<^item> The command line: flags and positionals interleave freely, global flags stand on either
    side of the subcommand, exit codes say whether a command was served, failed or was
    misused, \<open>text\<close> does to tmux what \<open>SendText\<close> does, and every command prints the answer of \<open>Dispatch\<close> to the request its
    words spell.
  \<^item> The harness: it keeps the last 32 invocations, reads the four payloads and the errors
    the command line prints, and its polling ends; its snapshot is the controller's.

  Some lemmas show where the code does less than its specification says: a token that
  outlives its pane (\<open>token_outlives_pane\<close>), output after the closing of a pane
  (\<open>late_output_revives_pane\<close>), a quiet answer for a destroyed pane
  (\<open>quiescence_revives_pane\<close>), a timeout despite a match (\<open>timeout_despite_match\<close>), truncated
  exit codes (\<open>truncated_exit_code\<close>), split escape sequences (\<open>split_sequence_leaks\<close>), the
  text \<open>;\<close> (\<open>semicolon_text_unescaped\<close>), wrapped durations; the lemmas \<open>slow_start_orphans\<close> and \<open>close_unlinks_successor\<close> of
  Startup show two ways to a daemon nobody can reach.

  \<^bold>\<open>Bounds and fuel.\<close> Integers of Go are \<open>int\<close> with the 64-bit wrap-around written out
  (\<open>wrap64\<close>) where the code can reach it: durations and the deadline of a wait; parsing
  refuses what does not fit. The fuel of the JSON parser is twice the length of the text
  and two, which suffices since every call consumes a byte or opens a value; \<open>parse_fuel\<close>
  shows that more fuel changes nothing. The nesting bound is Go's. The polling loops of
  the harness take the number of polls as fuel; \<open>WaitForText_returns\<close> says how many are
  enough. All other recursion is structural or has a termination proof.

  \<^bold>\<open>Parameters.\<close> tmux, a program outside the repository, is a function from an argument
  vector and the state of the world; SHA-256, \<open>regexp.Compile\<close> and \<open>FindIndex\<close>, the random
  bytes of an instance, which runes are printable, and the texts of errors of the library
  and the system are parameters too. Instants of events are arguments; no property
  assumes more of the clock than it states.

  \<^bold>\<open>Not modelled.\<close> The comments of the \<open>doc.go\<close> files; getters that only return a field
  (\<open>Env.TmuxSocket\<close>, \<open>Controller.Store\<close>) and the registration of the two flags of the
  harness; the poll interval of the subscription, whose ticks are steps at any time; file
  modes and the creation of FIFOs beyond success and failure; the memory model below the granularity of
  a critical section or a channel operation.
\<close>

end
